(* ===== verification/Prelude.thy ===== *)
theory Prelude
  imports Complex_Main "HOL-Library.List_Lexorder" "HOL-Library.Char_ord" "HOL-Library.Multiset"
begin

text \<open>
  Shared vocabulary of the development: identifiers and clocks, results of fallible
  operations, tables of rows with the queries the repositories issue, JSON values with
  Python's equality, and the two interfaces every component instantiates: a
  \<^emph>\<open>lifecycle\<close> (a closed transition table with terminal states) and a
  \<^emph>\<open>transition system\<close> with an inductive invariant.
\<close>

section \<open>Names shared by all components\<close>

text \<open>
  A UUID is a natural number and a point in time is an integer number of microseconds
  (the resolution of \<^verbatim>\<open>datetime\<close> and of PostgreSQL's \<^verbatim>\<open>timestamptz\<close>). Fresh UUIDs
  come from a counter that is part of the state of each store, which is the one fact about
  \<^verbatim>\<open>uuid.uuid7\<close> and \<^verbatim>\<open>uuid.uuid4\<close> the code relies on: a new identifier is unused.
\<close>

type_synonym uuid = nat
type_synonym time = int

named_theorems db_simps \<open>projections of updated stores\<close>
named_theorems row_keep \<open>row updates that keep the identity of the row\<close>

section \<open>Fallible operations\<close>

text \<open>A raised exception is \<open>Inl\<close>; a returned value is \<open>Inr\<close>.\<close>

fun bindE :: "'e + 'a \<Rightarrow> ('a \<Rightarrow> 'e + 'b) \<Rightarrow> 'e + 'b" where
  "bindE (Inl e) f = Inl e"
| "bindE (Inr x) f = f x"

definition checkE :: "bool \<Rightarrow> 'e \<Rightarrow> 'e + unit" where
  "checkE b e = (if b then Inr () else Inl e)"

definition of_option :: "'e \<Rightarrow> 'a option \<Rightarrow> 'e + 'a" where
  "of_option e x = (case x of None \<Rightarrow> Inl e | Some y \<Rightarrow> Inr y)"

lemma bindE_Inr [simp]: "bindE m f = Inr y \<longleftrightarrow> (\<exists>x. m = Inr x \<and> f x = Inr y)"
  by (cases m) auto

lemma bindE_Inl: "bindE m f = Inl e \<longleftrightarrow> m = Inl e \<or> (\<exists>x. m = Inr x \<and> f x = Inl e)"
  by (cases m) auto

lemma checkE_Inr [simp]: "checkE b e = Inr u \<longleftrightarrow> b"
  by (simp add: checkE_def)

lemma checkE_Inl [simp]: "checkE b e = Inl e' \<longleftrightarrow> \<not> b \<and> e' = e"
  by (auto simp: checkE_def)

lemma of_option_Inr [simp]: "of_option e x = Inr y \<longleftrightarrow> x = Some y"
  by (simp add: of_option_def split: option.splits)

lemma of_option_Inl [simp]: "of_option e x = Inl e' \<longleftrightarrow> x = None \<and> e' = e"
  by (auto simp: of_option_def split: option.splits)

text \<open>\<^verbatim>\<open>all(...)\<close> over results: the first error wins, as the first \<^verbatim>\<open>raise\<close> of a loop does.\<close>

fun mapE :: "('a \<Rightarrow> 'e + 'b) \<Rightarrow> 'a list \<Rightarrow> 'e + 'b list" where
  "mapE f [] = Inr []"
| "mapE f (x # xs) = bindE (f x) (\<lambda>y. bindE (mapE f xs) (\<lambda>ys. Inr (y # ys)))"

lemma mapE_Inr: "mapE f xs = Inr ys \<longleftrightarrow> list_all2 (\<lambda>x y. f x = Inr y) xs ys"
  by (induction xs arbitrary: ys) (auto simp: list_all2_Cons1)

lemma mapE_total: "(\<And>x. x \<in> set xs \<Longrightarrow> \<exists>y. f x = Inr y) \<Longrightarrow> \<exists>ys. mapE f xs = Inr ys"
  by (induction xs) fastforce+

section \<open>Tables\<close>

text \<open>
  A table is the list of its rows. \<open>update_where\<close> is an \<^verbatim>\<open>UPDATE ... WHERE\<close>;
  \<open>find\<close> is the \<^verbatim>\<open>scalar_one_or_none\<close> of a query on a unique key.
\<close>

definition update_where :: "('r \<Rightarrow> bool) \<Rightarrow> ('r \<Rightarrow> 'r) \<Rightarrow> 'r list \<Rightarrow> 'r list" where
  "update_where p f rows = map (\<lambda>r. if p r then f r else r) rows"

lemma update_where_Nil [simp]: "update_where p f [] = []"
  by (simp add: update_where_def)

lemma length_update_where [simp]: "length (update_where p f rows) = length rows"
  by (simp add: update_where_def)

lemma set_update_where: "set (update_where p f rows) = (\<lambda>r. if p r then f r else r) ` set rows"
  by (simp add: update_where_def)

lemma map_update_where:
  assumes "\<And>r. g (f r) = g r"
  shows "map g (update_where p f rows) = map g rows"
  using assms by (simp add: update_where_def)

lemma filter_update_where:
  assumes "\<And>r. q (f r) = q r"
  shows "filter q (update_where p f rows) = update_where p f (filter q rows)"
  using assms by (induction rows) (auto simp: update_where_def)

lemma update_where_id: "(\<And>r. r \<in> set rows \<Longrightarrow> \<not> p r) \<Longrightarrow> update_where p f rows = rows"
  by (induction rows) (auto simp: update_where_def)

lemma find_Some_D: "find p rows = Some r \<Longrightarrow> r \<in> set rows \<and> p r"
  by (induction rows) (auto split: if_splits)

lemma find_None_D: "find p rows = None \<Longrightarrow> r \<in> set rows \<Longrightarrow> \<not> p r"
  by (induction rows) (auto split: if_splits)

lemma find_SomeI:
  assumes "r \<in> set rows" and "p r" and "\<And>r'. r' \<in> set rows \<Longrightarrow> p r' \<Longrightarrow> r' = r"
  shows "find p rows = Some r"
proof (cases "find p rows")
  case None
  with assms(1,2) show ?thesis by (auto dest: find_None_D)
next
  case (Some r')
  then have "r' \<in> set rows" "p r'" by (auto dest: find_Some_D)
  then have "r' = r" by (rule assms(3))
  with Some show ?thesis by simp
qed

lemma distinct_map_inj: "distinct (map f xs) \<Longrightarrow> x \<in> set xs \<Longrightarrow> y \<in> set xs \<Longrightarrow> f x = f y \<Longrightarrow> x = y"
  by (induction xs) (auto simp: image_iff)

text \<open>
  The flush of a unit of work: every row object that was loaded and possibly changed is
  written back over the stored row with the same primary key.
\<close>

definition put_rows :: "('r \<Rightarrow> uuid) \<Rightarrow> 'r list \<Rightarrow> 'r list \<Rightarrow> 'r list" where
  "put_rows pk new rows =
     map (\<lambda>r. case find (\<lambda>n. pk n = pk r) new of None \<Rightarrow> r | Some n \<Rightarrow> n) rows"

lemma map_put_rows:
  assumes "\<And>r n. r \<in> set rows \<Longrightarrow> n \<in> set new \<Longrightarrow> pk n = pk r \<Longrightarrow> g n = g r"
  shows "map g (put_rows pk new rows) = map g rows"
  using assms by (auto simp: put_rows_def dest: find_Some_D split: option.splits)

lemma set_filter_put_rows:
  assumes dist: "distinct (map pk rows)"
    and ids: "pk ` set new = pk ` set (filter q rows)"
    and dnew: "distinct (map pk new)"
    and qnew: "\<And>n. n \<in> set new \<Longrightarrow> q n"
  shows "set (filter q (put_rows pk new rows)) = set new"
proof -
  have hit: "find (\<lambda>n. pk n = pk r) new = Some n" if "n \<in> set new" "pk n = pk r" for n r
    using that dnew by (intro find_SomeI) (auto dest: distinct_map_inj)
  have miss: "find (\<lambda>n. pk n = pk r) new = None" if "r \<in> set rows" "\<not> q r" for r
  proof (rule ccontr)
    assume "find (\<lambda>n. pk n = pk r) new \<noteq> None"
    then obtain n where n: "n \<in> set new" "pk n = pk r"
      by (auto dest: find_Some_D)
    with ids have "pk r \<in> pk ` set (filter q rows)" by (metis imageI)
    then obtain r' where r': "r' \<in> set rows" "q r'" "pk r' = pk r" by auto
    with that dist have "r' = r" by (metis distinct_map_inj)
    with r' that show False by simp
  qed
  show ?thesis
  proof (intro subset_antisym subsetI)
    fix x assume "x \<in> set (filter q (put_rows pk new rows))"
    then obtain r where r: "r \<in> set rows" "q x"
      and x: "x = (case find (\<lambda>n. pk n = pk r) new of None \<Rightarrow> r | Some n \<Rightarrow> n)"
      by (auto simp: put_rows_def)
    show "x \<in> set new"
    proof (cases "find (\<lambda>n. pk n = pk r) new")
      case None
      with x r have "q r" by simp
      with r have "pk r \<in> pk ` set new" using ids by auto
      then obtain n where "n \<in> set new" "pk n = pk r" by auto
      then have "find (\<lambda>n. pk n = pk r) new = Some n" by (rule hit)
      with None show ?thesis by simp
    next
      case (Some n)
      with x show ?thesis by (auto dest: find_Some_D)
    qed
  next
    fix n assume n: "n \<in> set new"
    then have "pk n \<in> pk ` set (filter q rows)" using ids by auto
    then obtain r where r: "r \<in> set rows" "pk n = pk r" by auto
    then have "find (\<lambda>n. pk n = pk r) new = Some n" by (intro hit n)
    then have "n = (case find (\<lambda>n. pk n = pk r) new of None \<Rightarrow> r | Some n \<Rightarrow> n)" by simp
    then have "n \<in> set (put_rows pk new rows)"
      unfolding put_rows_def set_map using r(1) by (rule image_eqI)
    with qnew [OF n] show "n \<in> set (filter q (put_rows pk new rows))" by simp
  qed
qed

lemma put_rows_update_where:
  assumes dist: "distinct (map pk rows)" and pk: "\<And>r. pk (f r) = pk r"
    and new: "set new = f ` {r \<in> set rows. q r}"
  shows "put_rows pk new rows = update_where q f rows"
  unfolding put_rows_def update_where_def
proof (rule map_cong [OF refl])
  fix r assume r: "r \<in> set rows"
  have bk: "n = f r \<and> q r" if n: "n \<in> set new" "pk n = pk r" for n
  proof -
    from n new obtain r0 where r0: "r0 \<in> set rows" "q r0" "n = f r0" by blast
    with n pk have "pk r0 = pk r" by simp
    with dist r0 r have "r0 = r" by (metis distinct_map_inj)
    with r0 show ?thesis by simp
  qed
  show "(case find (\<lambda>n. pk n = pk r) new of None \<Rightarrow> r | Some n \<Rightarrow> n) = (if q r then f r else r)"
  proof (cases "find (\<lambda>n. pk n = pk r) new")
    case None
    then have "\<not> q r" using r new pk by (auto dest: find_None_D)
    with None show ?thesis by simp
  next
    case (Some n)
    then have "n = f r \<and> q r" by (intro bk) (auto dest: find_Some_D)
    with Some show ?thesis by simp
  qed
qed

lemma put_rows_one:
  assumes "distinct (map pk rows)" and "pk new = pk r" and "r \<in> set rows"
  shows "put_rows pk [new] rows = update_where (\<lambda>x. pk x = pk r) (\<lambda>_. new) rows"
  using assms by (simp add: put_rows_def update_where_def)

lemma in_put_rows_one:
  assumes "pk n = pk r" and "r \<in> set rows"
  shows "x \<in> set (put_rows pk [n] rows) \<longleftrightarrow> x = n \<or> x \<in> set rows \<and> pk x \<noteq> pk n"
  using assms by (auto simp: put_rows_def image_iff split: if_splits intro: bexI [of _ r] bexI [of _ x])

lemma put_rows_last:
  assumes "\<And>r. r \<in> set rows \<Longrightarrow> pk r \<noteq> pk n" and "pk m = pk n"
  shows "put_rows pk [n] (rows @ [m]) = rows @ [n]"
proof -
  have "map (\<lambda>r. case find (\<lambda>x. pk x = pk r) [n] of None \<Rightarrow> r | Some x \<Rightarrow> x) rows = rows"
  proof (rule map_idI)
    fix r assume "r \<in> set rows"
    then have "pk n \<noteq> pk r" using assms(1) by metis
    then show "(case find (\<lambda>x. pk x = pk r) [n] of None \<Rightarrow> r | Some x \<Rightarrow> x) = r" by simp
  qed
  then show ?thesis unfolding put_rows_def map_append using assms(2) by simp
qed

lemma filter_put_rows_other:
  assumes "\<And>n. n \<in> set new \<Longrightarrow> \<not> q n"
    and "\<And>r n. r \<in> set rows \<Longrightarrow> n \<in> set new \<Longrightarrow> pk n = pk r \<Longrightarrow> \<not> q r"
  shows "filter q (put_rows pk new rows) = filter q rows"
  using assms(2)
proof (induction rows)
  case Nil
  then show ?case by (simp add: put_rows_def)
next
  case (Cons r rows)
  then have IH: "filter q (put_rows pk new rows) = filter q rows" by auto
  show ?case
  proof (cases "find (\<lambda>n. pk n = pk r) new")
    case None
    with IH show ?thesis by (simp add: put_rows_def)
  next
    case (Some n)
    then have "n \<in> set new" "pk n = pk r" by (auto dest: find_Some_D)
    with Cons.prems assms(1) have "\<not> q r" "\<not> q n" by auto
    with IH Some show ?thesis by (simp add: put_rows_def)
  qed
qed

section \<open>Strings\<close>

text \<open>\<^verbatim>\<open>str.split(sep)\<close> for a one-character separator, and \<^verbatim>\<open>sep.join\<close>.\<close>

fun py_split :: "char \<Rightarrow> string \<Rightarrow> string list" where
  "py_split c [] = [[]]"
| "py_split c (x # xs) =
     (if x = c then [] # py_split c xs
      else (case py_split c xs of [] \<Rightarrow> [[x]] | w # ws \<Rightarrow> (x # w) # ws))"

fun py_join :: "string \<Rightarrow> string list \<Rightarrow> string" where
  "py_join sep [] = []"
| "py_join sep [w] = w"
| "py_join sep (w # v # ws) = w @ sep @ py_join sep (v # ws)"

lemma py_split_not_Nil [simp]: "py_split c s \<noteq> []"
  by (induction s) (auto split: list.splits)

lemma py_split_no_sep: "w \<in> set (py_split c s) \<Longrightarrow> c \<notin> set w"
proof (induction s arbitrary: w)
  case Nil
  then show ?case by simp
next
  case (Cons x xs)
  then show ?case
    by (cases "py_split c xs") (fastforce split: if_splits)+
qed

lemma py_join_split: "py_join [c] (py_split c s) = s"
proof (induction s)
  case Nil
  then show ?case by simp
next
  case (Cons x xs)
  then show ?case
    by (cases "py_split c xs" rule: remdups_adj.cases) (auto split: list.splits)
qed

lemma py_split_append:
  "c \<notin> set w \<Longrightarrow> py_split c (w @ c # s) = w # py_split c s"
  by (induction w) auto

lemma py_split_word: "c \<notin> set w \<Longrightarrow> py_split c w = [w]"
  by (induction w) auto

lemma py_split_join:
  assumes "ws \<noteq> []" and "\<And>w. w \<in> set ws \<Longrightarrow> c \<notin> set w"
  shows "py_split c (py_join [c] ws) = ws"
  using assms
proof (induction ws rule: induct_list012)
  case (3 w v ws)
  then show ?case by (simp add: py_split_append)
qed (auto simp: py_split_word)

lemma split_chars: "c \<in> set s \<Longrightarrow> c = sep \<or> (\<exists>w \<in> set (py_split sep s). c \<in> set w)"
  by (induction s) (auto split: list.splits)

text \<open>The character classes of the patterns the contracts use.\<close>

definition lower_char :: "char \<Rightarrow> bool" where
  "lower_char c \<longleftrightarrow> CHR ''a'' \<le> c \<and> c \<le> CHR ''z''"

definition upper_char :: "char \<Rightarrow> bool" where
  "upper_char c \<longleftrightarrow> CHR ''A'' \<le> c \<and> c \<le> CHR ''Z''"

definition digit_char :: "char \<Rightarrow> bool" where
  "digit_char c \<longleftrightarrow> CHR ''0'' \<le> c \<and> c \<le> CHR ''9''"

section \<open>JSON values\<close>

text \<open>
  Values of JSON columns and payloads. A float is its exact rational value: JSON has no
  NaN or infinity, and Python compares ints and finite floats exactly.
\<close>

datatype json =
    JNull
  | JBool bool
  | JInt int
  | JFloat rat
  | JStr string
  | JList "json list"
  | JObj "(string \<times> json) list"

type_synonym json_obj = "(string \<times> json) list"

text \<open>The number Python compares a value as: \<^verbatim>\<open>bool\<close> is a subclass of \<^verbatim>\<open>int\<close>.\<close>

fun json_num :: "json \<Rightarrow> rat option" where
  "json_num (JBool b) = Some (if b then 1 else 0)"
| "json_num (JInt i) = Some (of_int i)"
| "json_num (JFloat q) = Some q"
| "json_num _ = None"

text \<open>\<^verbatim>\<open>a == b\<close>: numbers by value, lists pointwise, dicts by key whatever their order.\<close>

fun py_eq :: "json \<Rightarrow> json \<Rightarrow> bool"
  and py_eq_list :: "json list \<Rightarrow> json list \<Rightarrow> bool"
  and py_eq_obj :: "json_obj \<Rightarrow> json_obj \<Rightarrow> bool" where
  "py_eq (JStr s) y = (case y of JStr t \<Rightarrow> s = t | _ \<Rightarrow> False)"
| "py_eq JNull y = (y = JNull)"
| "py_eq (JList xs) y = (case y of JList ys \<Rightarrow> py_eq_list xs ys | _ \<Rightarrow> False)"
| "py_eq (JObj xs) y =
     (case y of JObj ys \<Rightarrow> length xs = length ys \<and> py_eq_obj xs ys | _ \<Rightarrow> False)"
| "py_eq (JBool b) y = (json_num y = json_num (JBool b))"
| "py_eq (JInt i) y = (json_num y = json_num (JInt i))"
| "py_eq (JFloat q) y = (json_num y = json_num (JFloat q))"
| "py_eq_list [] ys = (ys = [])"
| "py_eq_list (x # xs) ys =
     (case ys of [] \<Rightarrow> False | y # ys' \<Rightarrow> py_eq x y \<and> py_eq_list xs ys')"
| "py_eq_obj [] ys = True"
| "py_eq_obj ((k, v) # xs) ys =
     (case map_of ys k of None \<Rightarrow> False | Some w \<Rightarrow> py_eq v w \<and> py_eq_obj xs ys)"

section \<open>Lifecycles\<close>

text \<open>
  Every stateful entity of the platform has a table of allowed moves and a set of terminal
  states. A path is a sequence of states each of which the table allows after the one
  before.
\<close>

fun lifecycle_path :: "('s \<Rightarrow> 's list) \<Rightarrow> 's list \<Rightarrow> bool" where
  "lifecycle_path allowed [] = True"
| "lifecycle_path allowed [s] = True"
| "lifecycle_path allowed (s # t # ss) = (t \<in> set (allowed s) \<and> lifecycle_path allowed (t # ss))"

locale lifecycle =
  fixes allowed :: "'s \<Rightarrow> 's list"
    and terminal :: "'s \<Rightarrow> bool"
    and initial :: 's
  assumes terminal_iff: "terminal s \<longleftrightarrow> allowed s = []"
    and no_self_loop: "s \<notin> set (allowed s)"
    and initial_unreachable: "initial \<notin> set (allowed s)"
    and finishes: "\<exists>t. terminal t \<and> (\<lambda>a b. b \<in> set (allowed a))\<^sup>*\<^sup>* s t"
begin

lemma terminal_absorbing:
  assumes "terminal s" and "(\<lambda>a b. b \<in> set (allowed a))\<^sup>*\<^sup>* s t"
  shows "t = s"
  using assms(2,1) by (induction rule: converse_rtranclp_induct) (auto simp: terminal_iff)

lemma path_terminal_last:
  assumes "lifecycle_path allowed (ss @ [t])" and "s \<in> set ss"
  shows "\<not> terminal s"
  using assms
proof (induction ss)
  case (Cons a ss)
  then show ?case by (cases ss) (auto simp: terminal_iff)
qed simp

lemma path_initial_first:
  assumes "lifecycle_path allowed (s # ss)"
  shows "initial \<notin> set ss"
  using assms
proof (induction ss arbitrary: s)
  case (Cons a ss)
  then have "a \<in> set (allowed s)" and "initial \<notin> set ss" by auto
  then show ?case using initial_unreachable by auto
qed simp

end

section \<open>Transition systems\<close>

locale transition_system =
  fixes init :: "'s \<Rightarrow> bool"
    and step :: "'s \<Rightarrow> 's \<Rightarrow> bool"
    and inv :: "'s \<Rightarrow> bool"
  assumes init_inv: "init s \<Longrightarrow> inv s"
    and step_inv: "step s t \<Longrightarrow> inv s \<Longrightarrow> inv t"
begin

lemma steps_inv: "step\<^sup>*\<^sup>* s t \<Longrightarrow> inv s \<Longrightarrow> inv t"
  by (induction rule: rtranclp_induct) (auto intro: step_inv)

lemma reach_inv: "init s \<Longrightarrow> step\<^sup>*\<^sup>* s t \<Longrightarrow> inv t"
  using init_inv steps_inv by blast

end

end
