(* ===== verification/Workflow_Graph.thy ===== *)
theory Workflow_Graph
  imports Prelude
begin

text \<open>
  The workflow definition language: the state machines of
  \<^verbatim>\<open>workflows/state_machine.py\<close>, the step contracts and their validators of
  \<^verbatim>\<open>workflows/entities.py\<close>, and the graph validation that turns a set of steps into the
  topological order a published version is executed in.
\<close>

section \<open>State machines\<close>

datatype definition_status = Def_DRAFT | Def_ACTIVE | Def_ARCHIVED

datatype run_state =
    Run_PENDING | Run_RUNNING | Run_PAUSED | Run_COMPLETED | Run_FAILED | Run_CANCELLED

datatype step_state =
    Step_PENDING | Step_READY | Step_RUNNING | Step_COMPLETED | Step_FAILED | Step_SKIPPED
  | Step_CANCELLED

datatype dependency_mode = Dep_ALL | Dep_ANY

text \<open>The \<^verbatim>\<open>.value\<close> of the string enums, as the history table stores it.\<close>

fun run_state_value :: "run_state \<Rightarrow> string" where
  "run_state_value Run_PENDING = ''PENDING''"
| "run_state_value Run_RUNNING = ''RUNNING''"
| "run_state_value Run_PAUSED = ''PAUSED''"
| "run_state_value Run_COMPLETED = ''COMPLETED''"
| "run_state_value Run_FAILED = ''FAILED''"
| "run_state_value Run_CANCELLED = ''CANCELLED''"

fun step_state_value :: "step_state \<Rightarrow> string" where
  "step_state_value Step_PENDING = ''PENDING''"
| "step_state_value Step_READY = ''READY''"
| "step_state_value Step_RUNNING = ''RUNNING''"
| "step_state_value Step_COMPLETED = ''COMPLETED''"
| "step_state_value Step_FAILED = ''FAILED''"
| "step_state_value Step_SKIPPED = ''SKIPPED''"
| "step_state_value Step_CANCELLED = ''CANCELLED''"

definition workflow_terminal :: "run_state \<Rightarrow> bool" where
  "workflow_terminal s \<longleftrightarrow> s \<in> {Run_COMPLETED, Run_FAILED, Run_CANCELLED}"

definition step_terminal :: "step_state \<Rightarrow> bool" where
  "step_terminal s \<longleftrightarrow> s \<in> {Step_COMPLETED, Step_FAILED, Step_SKIPPED, Step_CANCELLED}"

fun workflow_transitions :: "run_state \<Rightarrow> run_state list" where
  "workflow_transitions Run_PENDING = [Run_RUNNING, Run_CANCELLED]"
| "workflow_transitions Run_RUNNING = [Run_PAUSED, Run_COMPLETED, Run_FAILED, Run_CANCELLED]"
| "workflow_transitions Run_PAUSED = [Run_RUNNING, Run_FAILED, Run_CANCELLED]"
| "workflow_transitions Run_COMPLETED = []"
| "workflow_transitions Run_FAILED = []"
| "workflow_transitions Run_CANCELLED = []"

fun step_transitions :: "step_state \<Rightarrow> step_state list" where
  "step_transitions Step_PENDING = [Step_READY, Step_SKIPPED, Step_CANCELLED]"
| "step_transitions Step_READY = [Step_RUNNING, Step_SKIPPED, Step_CANCELLED]"
| "step_transitions Step_RUNNING = [Step_READY, Step_COMPLETED, Step_FAILED, Step_CANCELLED]"
| "step_transitions Step_COMPLETED = []"
| "step_transitions Step_FAILED = []"
| "step_transitions Step_SKIPPED = []"
| "step_transitions Step_CANCELLED = []"

text \<open>The errors of \<^verbatim>\<open>workflows/errors.py\<close> and the built-in ones the repository can raise.\<close>

datatype graph_error =
    NoSteps
  | TooManySteps
  | DuplicateKeys
  | UnknownDependencies string "string list"
  | UnknownBranches string "string list"
  | BranchMustDepend string string
  | GraphCycle
  | StopIteration

datatype wf_error =
    WorkflowNotFoundError
  | WorkflowVersionNotFoundError
  | WorkflowRunNotFoundError
  | WorkflowInvalidDefinitionError graph_error
  | WorkflowInvalidStateError
  | WorkflowConflictError
  | WorkflowExecutionFencedError
  | WorkflowStepFailedError string
  | KeyError
  | NoResultFound
  | IntegrityError
  | UpstreamError string

definition require_workflow_transition :: "run_state \<Rightarrow> run_state \<Rightarrow> wf_error + unit" where
  "require_workflow_transition current target =
     checkE (target \<in> set (workflow_transitions current)) WorkflowInvalidStateError"

definition require_step_transition :: "step_state \<Rightarrow> step_state \<Rightarrow> wf_error + unit" where
  "require_step_transition current target =
     checkE (target \<in> set (step_transitions current)) WorkflowInvalidStateError"

text \<open>A dependency is settled when it completed or was skipped.\<close>

definition step_done :: "step_state \<Rightarrow> bool" where
  "step_done s \<longleftrightarrow> s = Step_COMPLETED \<or> s = Step_SKIPPED"

definition resolve_pending_step :: "step_state list \<Rightarrow> dependency_mode \<Rightarrow> step_state option" where
  "resolve_pending_step states mode =
     (if states = [] then Some Step_READY
      else if list_ex (\<lambda>s. \<not> step_done s) states then None
      else if mode = Dep_ALL
        then (if list_all (\<lambda>s. s = Step_COMPLETED) states then Some Step_READY
              else Some Step_SKIPPED)
      else if Step_COMPLETED \<in> set states then Some Step_READY
      else Some Step_SKIPPED)"

section \<open>Step contracts\<close>

datatype step_type = Type_TOOL | Type_AGENT | Type_CONDITION | Type_NOOP

datatype condition_operator =
    Op_EQUALS | Op_NOT_EQUALS | Op_EXISTS | Op_NOT_EXISTS | Op_IN | Op_NOT_IN
  | Op_GREATER_THAN | Op_LESS_THAN

record retry_policy =
  rp_max_attempts :: int
  rp_retryable_codes :: "string list"

record condition_config =
  cc_path :: string
  cc_operator :: condition_operator
  cc_value :: json
  cc_then_steps :: "string list"
  cc_else_steps :: "string list"

datatype step_config =
    ToolStepConfig (tool_key: string) (tool_arguments: json_obj)
  | AgentStepConfig (agent_id: uuid) (agent_prompt: string)
  | ConditionStepConfig (condition: condition_config)
  | NoopStepConfig (noop_output: json_obj)

fun config_kind :: "step_config \<Rightarrow> step_type" where
  "config_kind (ToolStepConfig _ _) = Type_TOOL"
| "config_kind (AgentStepConfig _ _) = Type_AGENT"
| "config_kind (ConditionStepConfig _) = Type_CONDITION"
| "config_kind (NoopStepConfig _) = Type_NOOP"

record step_spec =
  sp_key :: string
  sp_step_type :: step_type
  sp_depends_on :: "string list"
  sp_dependency_mode :: dependency_mode
  sp_config :: step_config
  sp_retry :: retry_policy

text \<open>\<^verbatim>\<open>StepKey = ^[a-z][a-z0-9_.-]{0,62}$\<close>\<close>

definition step_key_ok :: "string \<Rightarrow> bool" where
  "step_key_ok k \<longleftrightarrow>
     (case k of [] \<Rightarrow> False
      | c # cs \<Rightarrow> lower_char c \<and> length cs \<le> 62 \<and>
          list_all (\<lambda>x. lower_char x \<or> digit_char x \<or> x \<in> set ''_.-'') cs)"

text \<open>\<^verbatim>\<open>ContextPath = ^(input|steps)(\.[A-Za-z0-9_-]{1,64}){0,15}$\<close>\<close>

definition path_segment_ok :: "string \<Rightarrow> bool" where
  "path_segment_ok w \<longleftrightarrow> 1 \<le> length w \<and> length w \<le> 64 \<and>
     list_all (\<lambda>x. lower_char x \<or> upper_char x \<or> digit_char x \<or> x \<in> set ''_-'') w"

definition context_path_ok :: "string \<Rightarrow> bool" where
  "context_path_ok p \<longleftrightarrow>
     (case py_split CHR ''.'' p of [] \<Rightarrow> False
      | base # segs \<Rightarrow> base \<in> {''input'', ''steps''} \<and> length segs \<le> 15 \<and>
          list_all path_segment_ok segs)"

datatype value_error =
    ExistsTakesNoValue
  | OperatorNeedsValue
  | BranchesOverlap
  | StepTypeMismatch
  | SelfDependency
  | DuplicateDependency
  | AnyNeedsTwo

definition condition_coherent :: "condition_config \<Rightarrow> value_error + unit" where
  "condition_coherent c =
     bindE (if cc_operator c \<in> {Op_EXISTS, Op_NOT_EXISTS}
            then checkE (cc_value c = JNull) ExistsTakesNoValue
            else checkE (cc_value c \<noteq> JNull) OperatorNeedsValue)
       (\<lambda>_. checkE (set (cc_then_steps c) \<inter> set (cc_else_steps c) = {}) BranchesOverlap)"

definition matching_type :: "step_spec \<Rightarrow> value_error + unit" where
  "matching_type s =
     bindE (checkE (sp_step_type s = config_kind (sp_config s)) StepTypeMismatch) (\<lambda>_.
     bindE (checkE (sp_key s \<notin> set (sp_depends_on s)) SelfDependency) (\<lambda>_.
     bindE (checkE (distinct (sp_depends_on s)) DuplicateDependency) (\<lambda>_.
     checkE (\<not> (sp_dependency_mode s = Dep_ANY \<and> length (sp_depends_on s) < 2)) AnyNeedsTwo)))"

text \<open>What the parsing of a request into \<^verbatim>\<open>WorkflowStepSpec\<close> values guarantees.\<close>

definition step_spec_valid :: "step_spec \<Rightarrow> bool" where
  "step_spec_valid s \<longleftrightarrow>
     step_key_ok (sp_key s) \<and> list_all step_key_ok (sp_depends_on s) \<and>
     1 \<le> rp_max_attempts (sp_retry s) \<and> rp_max_attempts (sp_retry s) \<le> 16 \<and>
     matching_type s = Inr () \<and>
     (case sp_config s of
        ConditionStepConfig c \<Rightarrow>
          context_path_ok (cc_path c) \<and> condition_coherent c = Inr () \<and>
          list_all step_key_ok (cc_then_steps c) \<and> list_all step_key_ok (cc_else_steps c)
      | _ \<Rightarrow> True)"

lemma step_spec_valid_D:
  assumes "step_spec_valid s"
  shows "sp_key s \<notin> set (sp_depends_on s)" and "distinct (sp_depends_on s)"
    and "1 \<le> rp_max_attempts (sp_retry s)"
    and "sp_step_type s = config_kind (sp_config s)"
  using assms by (auto simp: step_spec_valid_def matching_type_def)

section \<open>Graph validation\<close>

definition missing_keys :: "string list \<Rightarrow> string list \<Rightarrow> string list" where
  "missing_keys known ks = sort (remdups (filter (\<lambda>k. k \<notin> set known) ks))"

fun check_branches :: "step_spec list \<Rightarrow> step_spec \<Rightarrow> string list \<Rightarrow> graph_error + unit" where
  "check_branches steps s [] = Inr ()"
| "check_branches steps s (b # bs) =
     (case find (\<lambda>t. sp_key t = b) steps of
        None \<Rightarrow> Inl StopIteration
      | Some t \<Rightarrow>
          if sp_key s \<notin> set (sp_depends_on t) then Inl (BranchMustDepend b (sp_key s))
          else check_branches steps s bs)"

definition check_step_refs :: "step_spec list \<Rightarrow> step_spec \<Rightarrow> graph_error + unit" where
  "check_step_refs steps s =
     (let known = map sp_key steps; missing = missing_keys known (sp_depends_on s) in
      if missing \<noteq> [] then Inl (UnknownDependencies (sp_key s) missing)
      else case sp_config s of
        ConditionStepConfig c \<Rightarrow>
          let bm = missing_keys known (cc_then_steps c @ cc_else_steps c) in
          if bm \<noteq> [] then Inl (UnknownBranches (sp_key s) bm)
          else check_branches steps s (cc_then_steps c @ cc_else_steps c)
      | _ \<Rightarrow> Inr ())"

fun check_refs :: "step_spec list \<Rightarrow> step_spec list \<Rightarrow> graph_error + unit" where
  "check_refs steps [] = Inr ()"
| "check_refs steps (s # ss) = bindE (check_step_refs steps s) (\<lambda>_. check_refs steps ss)"

text \<open>
  \<open>indegree\<close> is the dict of open dependency counts, in insertion order; \<open>children\<close>
  lists, for a key, the step that names it as a dependency once per mention.
\<close>

definition initial_indegree :: "step_spec list \<Rightarrow> (string \<times> int) list" where
  "initial_indegree steps = map (\<lambda>s. (sp_key s, int (length (sp_depends_on s)))) steps"

definition children :: "step_spec list \<Rightarrow> string \<Rightarrow> string list" where
  "children steps k = concat (map (\<lambda>s. map (\<lambda>d. sp_key s) (filter (\<lambda>d. d = k) (sp_depends_on s))) steps)"

definition decrement :: "string \<Rightarrow> (string \<times> int) list \<Rightarrow> (string \<times> int) list" where
  "decrement c deg = map (\<lambda>(k, d). (k, if k = c then d - 1 else d)) deg"

fun visit_children ::
  "string list \<Rightarrow> (string \<times> int) list \<Rightarrow> string list \<Rightarrow> (string \<times> int) list \<times> string list" where
  "visit_children [] deg ready = (deg, ready)"
| "visit_children (c # cs) deg ready =
     (let deg' = decrement c deg in
      if map_of deg' c = Some 0 then visit_children cs deg' (sort (ready @ [c]))
      else visit_children cs deg' ready)"

definition open_count :: "(string \<times> int) list \<Rightarrow> nat" where
  "open_count deg = length (filter (\<lambda>(k, d). 0 < d) deg)"

lemma open_count_decrement: "open_count (decrement c deg) \<le> open_count deg"
  by (induction deg) (auto simp: open_count_def decrement_def split: if_splits)

lemma open_count_decrement_zero:
  "map_of (decrement c deg) c = Some 0 \<Longrightarrow> open_count (decrement c deg) < open_count deg"
proof (induction deg)
  case Nil
  then show ?case by (simp add: decrement_def)
next
  case (Cons a deg)
  obtain k d where a: "a = (k, d)" by (cases a)
  show ?case
  proof (cases "k = c")
    case True
    with Cons.prems a have "d = 1" by (simp add: decrement_def)
    with True a open_count_decrement [of c deg] show ?thesis
      by (simp add: open_count_def decrement_def)
  next
    case False
    with Cons a show ?thesis by (simp add: open_count_def decrement_def)
  qed
qed

lemma visit_children_measure:
  "visit_children cs deg ready = (deg', ready') \<Longrightarrow>
     length ready' + open_count deg' \<le> length ready + open_count deg"
proof (induction cs deg ready arbitrary: deg' ready' rule: visit_children.induct)
  case (2 c cs deg ready)
  show ?case
  proof (cases "map_of (decrement c deg) c = Some 0")
    case True
    with 2 have "length ready' + open_count deg' \<le> Suc (length ready) + open_count (decrement c deg)"
      by (auto simp: Let_def)
    with open_count_decrement_zero [OF True] show ?thesis by simp
  next
    case False
    with 2 have "length ready' + open_count deg' \<le> length ready + open_count (decrement c deg)"
      by (auto simp: Let_def)
    with open_count_decrement [of c deg] show ?thesis by simp
  qed
qed simp

text \<open>The \<^verbatim>\<open>while ready\<close> loop.\<close>

function kahn_loop ::
  "step_spec list \<Rightarrow> (string \<times> int) list \<Rightarrow> string list \<Rightarrow> string list \<Rightarrow> string list" where
  "kahn_loop steps deg ready ordered =
     (case ready of [] \<Rightarrow> ordered
      | key # rest \<Rightarrow>
          (case visit_children (sort (children steps key)) deg rest of
             (deg', ready') \<Rightarrow> kahn_loop steps deg' ready' (ordered @ [key])))"
  by pat_completeness auto
termination
proof (relation "measure (\<lambda>(steps, deg, ready, ordered). length ready + open_count deg)",
    goal_cases)
  case 1
  show ?case by simp
next
  case (2 steps deg ready ordered key rest deg' ready')
  then have "length ready' + open_count deg' \<le> length rest + open_count deg"
    by (metis visit_children_measure)
  with 2 show ?case by simp
qed

declare kahn_loop.simps [simp del]

definition kahn_order :: "step_spec list \<Rightarrow> string list" where
  "kahn_order steps =
     kahn_loop steps (initial_indegree steps)
       (sort (map fst (filter (\<lambda>(k, d). d = 0) (initial_indegree steps)))) []"

definition validate_workflow_graph :: "step_spec list \<Rightarrow> graph_error + string list" where
  "validate_workflow_graph steps =
     (if steps = [] then Inl NoSteps
      else if length steps > 256 then Inl TooManySteps
      else if \<not> distinct (map sp_key steps) then Inl DuplicateKeys
      else bindE (check_refs steps steps) (\<lambda>_.
        let ordered = kahn_order steps in
        if length ordered \<noteq> length steps then Inl GraphCycle else Inr ordered))"

subsection \<open>The topological sort\<close>

lemma map_fst_decrement [simp]: "map fst (decrement c deg) = map fst deg"
  by (simp add: decrement_def split_def)

lemma map_of_decrement:
  "map_of (decrement c deg) k =
     (if k = c then map_option (\<lambda>d. d - 1) (map_of deg k) else map_of deg k)"
  by (induction deg) (auto simp: decrement_def)

lemma visit_children_keys: "map fst (fst (visit_children cs deg ready)) = map fst deg"
  by (induction cs deg ready rule: visit_children.induct) (simp_all add: Let_def)

lemma visit_children_degrees:
  assumes "visit_children cs deg ready = (deg', ready')" and "distinct cs"
  shows "map_of deg' k =
    (if k \<in> set cs then map_option (\<lambda>d. d - 1) (map_of deg k) else map_of deg k)"
  using assms
proof (induction cs deg ready arbitrary: deg' ready' rule: visit_children.induct)
  case (2 c cs deg ready)
  have "map_of deg' k = (if k \<in> set cs then map_option (\<lambda>d. d - 1) (map_of (decrement c deg) k)
      else map_of (decrement c deg) k)"
    using 2 by (cases "map_of (decrement c deg) c = Some 0") (simp_all add: Let_def)
  with "2.prems"(2) show ?case by (simp add: map_of_decrement)
qed simp

lemma visit_children_ready:
  assumes "visit_children cs deg ready = (deg', ready')" and "distinct cs"
  shows "mset ready' = mset ready + mset (filter (\<lambda>c. map_of deg c = Some 1) cs)"
  using assms
proof (induction cs deg ready arbitrary: deg' ready' rule: visit_children.induct)
  case (2 c cs deg ready)
  have same: "filter (\<lambda>k. map_of (decrement c deg) k = Some 1) cs =
      filter (\<lambda>k. map_of deg k = Some 1) cs"
    using "2.prems"(2) by (intro filter_cong) (auto simp: map_of_decrement)
  have zero: "map_of (decrement c deg) c = Some 0 \<longleftrightarrow> map_of deg c = Some 1"
    by (auto simp: map_of_decrement)
  show ?case
    using 2 by (auto simp: Let_def same zero split: if_splits)
qed simp

lemma length_filter_eq_le: "distinct xs \<Longrightarrow> length (filter (\<lambda>d. d = k) xs) \<le> 1"
  by (induction xs) (auto simp: filter_empty_conv)

lemma set_children:
  "set (children steps k) = {sp_key s | s. s \<in> set steps \<and> k \<in> set (sp_depends_on s)}"
  by (auto simp: children_def)

lemma distinct_children:
  assumes "distinct (map sp_key steps)" and "\<And>s. s \<in> set steps \<Longrightarrow> distinct (sp_depends_on s)"
  shows "distinct (children steps k)"
  using assms
proof (induction steps)
  case (Cons s steps)
  have "distinct (map (\<lambda>d. sp_key s) (filter (\<lambda>d. d = k) (sp_depends_on s)))"
    using length_filter_eq_le [of "sp_depends_on s" k] Cons.prems(2) [of s]
    by (cases "filter (\<lambda>d. d = k) (sp_depends_on s)") auto
  moreover have "distinct (children steps k)" using Cons by simp
  moreover have "sp_key s \<notin> set (children steps k)"
    using Cons.prems(1) by (auto simp: set_children)
  ultimately show ?case by (auto simp: children_def)
qed (simp add: children_def)

text \<open>
  The loop invariant. \<open>ordered\<close> followed by \<open>ready\<close> lists, without repetition,
  exactly the steps whose dependencies have all been emitted; \<open>deg\<close> counts the
  dependencies of each step that have not; and what has been emitted respects the edges.
\<close>

definition topo_sorted :: "step_spec list \<Rightarrow> string list \<Rightarrow> bool" where
  "topo_sorted steps ks \<longleftrightarrow>
     (\<forall>i < length ks. \<forall>s \<in> set steps. sp_key s = ks ! i \<longrightarrow> set (sp_depends_on s) \<subseteq> set (take i ks))"

definition kahn_inv :: "step_spec list \<Rightarrow> (string \<times> int) list \<Rightarrow> string list \<Rightarrow> string list \<Rightarrow> bool" where
  "kahn_inv steps deg ready ordered \<longleftrightarrow>
     distinct (ordered @ ready) \<and>
     set (ordered @ ready) \<subseteq> sp_key ` set steps \<and>
     map fst deg = map sp_key steps \<and>
     (\<forall>s \<in> set steps. map_of deg (sp_key s) =
        Some (int (length (filter (\<lambda>d. d \<notin> set ordered) (sp_depends_on s))))) \<and>
     (\<forall>s \<in> set steps. sp_key s \<in> set (ordered @ ready) \<longleftrightarrow> set (sp_depends_on s) \<subseteq> set ordered) \<and>
     topo_sorted steps ordered"

lemma topo_sorted_snoc:
  assumes "topo_sorted steps ks"
    and "\<And>s. s \<in> set steps \<Longrightarrow> sp_key s = k \<Longrightarrow> set (sp_depends_on s) \<subseteq> set ks"
  shows "topo_sorted steps (ks @ [k])"
  using assms by (auto simp: topo_sorted_def nth_append less_Suc_eq)

lemma length_filter_remove:
  assumes "distinct ds"
  shows "int (length (filter (\<lambda>d. d \<notin> insert k A) ds)) =
    int (length (filter (\<lambda>d. d \<notin> A) ds)) - (if k \<in> set ds \<and> k \<notin> A then 1 else 0)"
  using assms by (induction ds) auto


definition graph_closed :: "step_spec list \<Rightarrow> bool" where
  "graph_closed steps \<longleftrightarrow>
     distinct (map sp_key steps) \<and>
     (\<forall>s \<in> set steps. distinct (sp_depends_on s) \<and> set (sp_depends_on s) \<subseteq> sp_key ` set steps)"

definition dep_rel :: "step_spec list \<Rightarrow> (string \<times> string) set" where
  "dep_rel steps = {(d, sp_key s) | s d. s \<in> set steps \<and> d \<in> set (sp_depends_on s)}"

lemma kahn_inv_initial:
  assumes "graph_closed steps"
  shows "kahn_inv steps (initial_indegree steps)
    (sort (map fst (filter (\<lambda>(k, d). d = 0) (initial_indegree steps)))) []"
proof -
  have keys: "distinct (map sp_key steps)" using assms by (simp add: graph_closed_def)
  have ready: "map fst (filter (\<lambda>(k, d). d = 0) (initial_indegree steps)) =
      map sp_key (filter (\<lambda>s. sp_depends_on s = []) steps)"
    by (induction steps) (auto simp: initial_indegree_def)
  have deg: "map_of (initial_indegree steps) (sp_key s) = Some (int (length (sp_depends_on s)))"
    if "s \<in> set steps" for s
    using that keys
    by (auto simp: initial_indegree_def o_def intro!: map_of_is_SomeI)
  have mem: "sp_key s \<in> sp_key ` {s \<in> set steps. sp_depends_on s = []} \<longleftrightarrow> sp_depends_on s = []"
    if "s \<in> set steps" for s
    using that keys by (auto dest: distinct_map_inj)
  have "distinct (map sp_key (filter (\<lambda>s. sp_depends_on s = []) steps))"
    using keys by (rule distinct_map_filter)
  then show ?thesis
    using deg mem
    by (simp add: kahn_inv_def ready topo_sorted_def) (auto simp: initial_indegree_def)
qed

lemma kahn_inv_step:
  assumes closed: "graph_closed steps"
    and inv: "kahn_inv steps deg (key # rest) ordered"
    and visit: "visit_children (sort (children steps key)) deg rest = (deg', ready')"
  shows "kahn_inv steps deg' ready' (ordered @ [key])"
proof -
  let ?cs = "sort (children steps key)"
  let ?new = "filter (\<lambda>c. map_of deg c = Some 1) ?cs"
  have keys: "distinct (map sp_key steps)"
    and dd: "\<And>s. s \<in> set steps \<Longrightarrow> distinct (sp_depends_on s)"
    using closed by (auto simp: graph_closed_def)
  have dcs: "distinct ?cs" by (simp add: distinct_children keys dd)
  have incs: "sp_key s \<in> set (children steps key) \<longleftrightarrow> key \<in> set (sp_depends_on s)" if "s \<in> set steps" for s
    using that keys by (auto simp: set_children dest: distinct_map_inj)
  have msr: "mset ready' = mset rest + mset ?new"
    using visit_children_ready [OF visit dcs] .
  then have setr: "set ready' = set rest \<union> set ?new"
    by (metis set_mset_mset set_mset_union)
  have keyno: "key \<notin> set ordered" using inv by (simp add: kahn_inv_def)
  have deg: "map_of deg (sp_key s) =
      Some (int (length (filter (\<lambda>d. d \<notin> set ordered) (sp_depends_on s))))" if "s \<in> set steps" for s
    using inv that by (simp add: kahn_inv_def)
  have deg': "map_of deg' (sp_key s) =
      Some (int (length (filter (\<lambda>d. d \<notin> set (ordered @ [key])) (sp_depends_on s))))"
    if s: "s \<in> set steps" for s
    using length_filter_remove [OF dd [OF s], of key "set ordered"] keyno
    by (simp add: visit_children_degrees [OF visit dcs] incs [OF s] deg [OF s])
  have one: "map_of deg (sp_key s) = Some 1 \<longleftrightarrow> set (sp_depends_on s) \<subseteq> set (ordered @ [key])"
    if s: "s \<in> set steps" "key \<in> set (sp_depends_on s)" for s
  proof -
    have "map_of deg (sp_key s) = Some 1 \<longleftrightarrow>
        int (length (filter (\<lambda>d. d \<notin> set (ordered @ [key])) (sp_depends_on s))) = 0"
      using length_filter_remove [OF dd [OF s(1)], of key "set ordered"] keyno s
      by (simp add: deg)
    then show ?thesis by (auto simp: filter_empty_conv)
  qed
  have old: "sp_key s \<in> set (ordered @ key # rest) \<longleftrightarrow> set (sp_depends_on s) \<subseteq> set ordered"
    if "s \<in> set steps" for s
    using inv that by (simp add: kahn_inv_def)
  have mem: "sp_key s \<in> set ((ordered @ [key]) @ ready') \<longleftrightarrow>
      set (sp_depends_on s) \<subseteq> set (ordered @ [key])" if s: "s \<in> set steps" for s
  proof (cases "key \<in> set (sp_depends_on s)")
    case True
    with old [OF s] keyno have "sp_key s \<notin> set (ordered @ key # rest)" by auto
    with incs [OF s] one [OF s True] True show ?thesis by (auto simp: setr)
  next
    case False
    with incs [OF s] have "sp_key s \<notin> set ?new" by auto
    with old [OF s] False show ?thesis by (auto simp: setr)
  qed
  have fresh: "c \<notin> set (ordered @ key # rest)" if c: "c \<in> set ?new" for c
  proof -
    from c obtain s where s: "s \<in> set steps" "c = sp_key s" "key \<in> set (sp_depends_on s)"
      by (auto simp: set_children)
    with old [OF s(1)] keyno show ?thesis by auto
  qed
  have "distinct ((ordered @ key # rest) @ ?new)"
    using inv fresh dcs by (auto simp: kahn_inv_def)
  moreover have "mset ((ordered @ [key]) @ ready') = mset ((ordered @ key # rest) @ ?new)"
    by (simp add: msr)
  ultimately have "distinct ((ordered @ [key]) @ ready')"
    by (metis mset_eq_imp_distinct_iff)
  moreover have "set ((ordered @ [key]) @ ready') \<subseteq> sp_key ` set steps"
    using inv by (auto simp: kahn_inv_def setr set_children)
  moreover have "map fst deg' = map sp_key steps"
    using visit_children_keys [of ?cs deg rest] visit inv by (simp add: kahn_inv_def)
  moreover have "topo_sorted steps (ordered @ [key])"
    using inv old by (intro topo_sorted_snoc) (auto simp: kahn_inv_def)
  ultimately show ?thesis
    using deg' mem unfolding kahn_inv_def by blast
qed

lemma kahn_loop_inv:
  assumes "graph_closed steps" and "kahn_inv steps deg ready ordered"
  shows "\<exists>deg'. kahn_inv steps deg' [] (kahn_loop steps deg ready ordered)"
  using assms
proof (induction steps deg ready ordered rule: kahn_loop.induct)
  case (1 steps deg ready ordered)
  show ?case
  proof (cases ready)
    case Nil
    with "1.prems" show ?thesis by (auto simp: kahn_loop.simps [of steps deg "[]"])
  next
    case (Cons key rest)
    obtain deg' ready' where v: "visit_children (sort (children steps key)) deg rest = (deg', ready')"
      by (cases "visit_children (sort (children steps key)) deg rest")
    with "1.prems" Cons have "kahn_inv steps deg' ready' (ordered @ [key])"
      by (auto intro: kahn_inv_step)
    with "1.IH" [OF Cons] v "1.prems"(1) Cons show ?thesis
      by (simp add: kahn_loop.simps [of steps deg "key # rest"])
  qed
qed

lemma kahn_order_props:
  assumes "graph_closed steps"
  shows "distinct (kahn_order steps)" and "set (kahn_order steps) \<subseteq> sp_key ` set steps"
    and "topo_sorted steps (kahn_order steps)"
    and "\<And>s. s \<in> set steps \<Longrightarrow>
      sp_key s \<in> set (kahn_order steps) \<longleftrightarrow> set (sp_depends_on s) \<subseteq> set (kahn_order steps)"
  using kahn_loop_inv [OF assms kahn_inv_initial [OF assms]]
  by (auto simp: kahn_inv_def kahn_order_def)

lemma kahn_order_complete:
  assumes closed: "graph_closed steps" and acyc: "acyclic (dep_rel steps)"
  shows "set (kahn_order steps) = sp_key ` set steps"
proof (rule ccontr)
  assume "set (kahn_order steps) \<noteq> sp_key ` set steps"
  then obtain k where k: "k \<in> sp_key ` set steps - set (kahn_order steps)"
    using kahn_order_props(2) [OF closed] by blast
  have "finite (dep_rel steps)"
  proof (rule finite_subset)
    show "dep_rel steps \<subseteq> (\<Union>s \<in> set steps. set (sp_depends_on s) \<times> {sp_key s})"
      by (auto simp: dep_rel_def)
  qed simp
  with acyc have "wf (dep_rel steps)" by (simp add: finite_acyclic_wf)
  then obtain m where m: "m \<in> sp_key ` set steps - set (kahn_order steps)"
    and least: "\<And>d. (d, m) \<in> dep_rel steps \<Longrightarrow> d \<notin> sp_key ` set steps - set (kahn_order steps)"
    using k wfE_min by metis
  obtain s where s: "s \<in> set steps" "m = sp_key s" using m by auto
  have "set (sp_depends_on s) \<subseteq> set (kahn_order steps)"
  proof
    fix d assume "d \<in> set (sp_depends_on s)"
    with s have "(d, m) \<in> dep_rel steps" "d \<in> sp_key ` set steps"
      using closed by (auto simp: dep_rel_def graph_closed_def)
    with least show "d \<in> set (kahn_order steps)" by blast
  qed
  with kahn_order_props(4) [OF closed s(1)] s m show False by simp
qed

lemma topo_sorted_index:
  assumes "topo_sorted steps ks" and "distinct ks" and "s \<in> set steps"
    and "d \<in> set (sp_depends_on s)" and "ks ! j = sp_key s" and "j < length ks"
  shows "\<exists>i < j. ks ! i = d"
proof -
  have "set (sp_depends_on s) \<subseteq> set (take j ks)"
    using assms(1,3,5,6) by (simp add: topo_sorted_def)
  with assms(4) have "d \<in> set (take j ks)" by blast
  then show ?thesis using assms(6) by (auto simp: in_set_conv_nth)
qed

lemma topo_sorted_acyclic:
  assumes "topo_sorted steps ks" and "distinct ks" and all: "sp_key ` set steps \<subseteq> set ks"
  shows "acyclic (dep_rel steps)"
proof -
  define pos where "pos k = (LEAST i. i < length ks \<and> ks ! i = k)" for k
  have pos: "pos (ks ! i) = i" if "i < length ks" for i
    unfolding pos_def using that assms(2) by (intro Least_equality) (auto simp: nth_eq_iff_index_eq)
  have "dep_rel steps \<subseteq> measure pos"
  proof
    fix e assume "e \<in> dep_rel steps"
    then obtain s d where s: "s \<in> set steps" "d \<in> set (sp_depends_on s)" "e = (d, sp_key s)"
      by (auto simp: dep_rel_def)
    then obtain j where j: "j < length ks" "ks ! j = sp_key s"
      using all by (metis imageI in_set_conv_nth subsetD)
    then obtain i where "i < j" "ks ! i = d"
      using topo_sorted_index assms(1,2) s by blast
    with s j pos show "e \<in> measure pos" by force
  qed
  then have "wf (dep_rel steps)" by (rule wf_subset [OF wf_measure])
  then show ?thesis by (rule wf_acyclic)
qed


subsection \<open>Reference checks\<close>

lemma missing_keys_Nil: "missing_keys known ks = [] \<longleftrightarrow> set ks \<subseteq> set known"
proof -
  have "missing_keys known ks = [] \<longleftrightarrow> set (missing_keys known ks) = {}" by simp
  also have "\<dots> \<longleftrightarrow> set ks \<subseteq> set known" by (auto simp: missing_keys_def)
  finally show ?thesis .
qed

lemma check_refs_Inr: "check_refs steps ss = Inr u \<longleftrightarrow> (\<forall>s \<in> set ss. check_step_refs steps s = Inr ())"
  by (induction ss) auto

lemma check_branches_Inr:
  assumes "distinct (map sp_key steps)"
  shows "check_branches steps s bs = Inr u \<longleftrightarrow>
    (\<forall>b \<in> set bs. \<exists>t \<in> set steps. sp_key t = b \<and> sp_key s \<in> set (sp_depends_on t))"
proof (induction bs)
  case (Cons b bs)
  show ?case
  proof (cases "find (\<lambda>t. sp_key t = b) steps")
    case None
    then have "\<not> (\<exists>t \<in> set steps. sp_key t = b)" by (auto dest: find_None_D)
    with None show ?thesis by auto
  next
    case (Some t)
    then have t: "t \<in> set steps" "sp_key t = b" by (auto dest: find_Some_D)
    then have "(\<exists>t' \<in> set steps. sp_key t' = b \<and> sp_key s \<in> set (sp_depends_on t')) \<longleftrightarrow>
        sp_key s \<in> set (sp_depends_on t)"
      using assms by (metis distinct_map_inj)
    with Some Cons.IH show ?thesis by simp
  qed
qed simp

text \<open>The steps a condition selects between.\<close>

fun config_branches :: "step_config \<Rightarrow> string list" where
  "config_branches (ConditionStepConfig c) = cc_then_steps c @ cc_else_steps c"
| "config_branches _ = []"

definition refs_ok :: "step_spec list \<Rightarrow> bool" where
  "refs_ok steps \<longleftrightarrow>
     (\<forall>s \<in> set steps. set (sp_depends_on s) \<subseteq> sp_key ` set steps) \<and>
     (\<forall>s \<in> set steps. \<forall>b \<in> set (config_branches (sp_config s)).
        \<exists>t \<in> set steps. sp_key t = b \<and> sp_key s \<in> set (sp_depends_on t))"

lemma check_step_refs_Inr:
  assumes "distinct (map sp_key steps)"
  shows "check_step_refs steps s = Inr u \<longleftrightarrow>
    set (sp_depends_on s) \<subseteq> sp_key ` set steps \<and>
    (\<forall>b \<in> set (config_branches (sp_config s)).
       \<exists>t \<in> set steps. sp_key t = b \<and> sp_key s \<in> set (sp_depends_on t))"
proof (cases "sp_config s")
  case (ConditionStepConfig c)
  have "set bs \<subseteq> sp_key ` set steps"
    if "\<forall>b \<in> set bs. \<exists>t \<in> set steps. sp_key t = b \<and> sp_key s \<in> set (sp_depends_on t)" for bs
    using that by (auto simp: image_iff)
  from this [of "cc_then_steps c @ cc_else_steps c"] ConditionStepConfig show ?thesis
    by (simp add: check_step_refs_def Let_def check_branches_Inr [OF assms] missing_keys_Nil
        del: set_append) blast
qed (auto simp: check_step_refs_def Let_def missing_keys_Nil)

lemma check_refs_iff:
  assumes "distinct (map sp_key steps)"
  shows "check_refs steps steps = Inr u \<longleftrightarrow> refs_ok steps"
  by (auto simp: check_refs_Inr check_step_refs_Inr [OF assms] refs_ok_def)

lemma check_branches_not_cycle: "check_branches steps s bs \<noteq> Inl GraphCycle"
  by (induction bs) (auto split: option.splits)

lemma check_refs_not_cycle: "check_refs steps ss \<noteq> Inl GraphCycle"
proof (induction ss)
  case (Cons s ss)
  have "check_step_refs steps s \<noteq> Inl GraphCycle"
    by (auto simp: check_step_refs_def Let_def check_branches_not_cycle split: step_config.splits)
  with Cons show ?case by (auto simp: bindE_Inl)
qed simp

lemma validate_Inr_D:
  assumes valid: "\<And>s. s \<in> set steps \<Longrightarrow> step_spec_valid s"
    and val: "validate_workflow_graph steps = Inr ks"
  shows "graph_closed steps" and "ks = kahn_order steps" and "length ks = length steps"
    and "refs_ok steps" and "steps \<noteq> []" and "length steps \<le> 256"
proof -
  have d: "distinct (map sp_key steps)"
    using val by (auto simp: validate_workflow_graph_def split: if_splits)
  show r: "refs_ok steps"
    using val check_refs_iff [OF d]
    by (auto simp: validate_workflow_graph_def Let_def split: if_splits)
  show "graph_closed steps"
    using d r valid by (auto simp: graph_closed_def refs_ok_def dest: step_spec_valid_D)
  show "ks = kahn_order steps" "length ks = length steps" "steps \<noteq> []" "length steps \<le> 256"
    using val by (auto simp: validate_workflow_graph_def Let_def split: if_splits)
qed

lemma kahn_order_all_iff:
  assumes "graph_closed steps"
  shows "length (kahn_order steps) = length steps \<longleftrightarrow> set (kahn_order steps) = sp_key ` set steps"
proof -
  have d: "distinct (map sp_key steps)" using assms by (simp add: graph_closed_def)
  then have n: "card (sp_key ` set steps) = length steps"
    by (metis distinct_card length_map list.set_map)
  have m: "card (set (kahn_order steps)) = length (kahn_order steps)"
    using kahn_order_props(1) [OF assms] by (rule distinct_card)
  show ?thesis
    using n m kahn_order_props(2) [OF assms] by (metis card_subset_eq finite_imageI finite_set)
qed


section \<open>Lifecycle interfaces\<close>

lemma one_move: "t \<in> set (allowed s) \<Longrightarrow> (\<lambda>a b. b \<in> set (allowed a))\<^sup>*\<^sup>* s t"
  by (rule r_into_rtranclp)

interpretation run_life: lifecycle workflow_transitions workflow_terminal Run_PENDING
proof (unfold_locales, goal_cases)
  case (1 s)
  show ?case by (cases s) (auto simp: workflow_terminal_def)
next
  case (2 s)
  show ?case by (cases s) auto
next
  case (3 s)
  show ?case by (cases s) auto
next
  case (4 s)
  show ?case
  proof (cases "workflow_terminal s")
    case True
    then show ?thesis by blast
  next
    case False
    then have "Run_CANCELLED \<in> set (workflow_transitions s)"
      by (cases s) (auto simp: workflow_terminal_def)
    then have "(\<lambda>a b. b \<in> set (workflow_transitions a))\<^sup>*\<^sup>* s Run_CANCELLED" by (rule one_move)
    then show ?thesis by (auto simp: workflow_terminal_def)
  qed
qed

interpretation step_life: lifecycle step_transitions step_terminal Step_PENDING
proof (unfold_locales, goal_cases)
  case (1 s)
  show ?case by (cases s) (auto simp: step_terminal_def)
next
  case (2 s)
  show ?case by (cases s) auto
next
  case (3 s)
  show ?case by (cases s) auto
next
  case (4 s)
  show ?case
  proof (cases "step_terminal s")
    case True
    then show ?thesis by blast
  next
    case False
    then have "Step_CANCELLED \<in> set (step_transitions s)"
      by (cases s) (auto simp: step_terminal_def)
    then have "(\<lambda>a b. b \<in> set (step_transitions a))\<^sup>*\<^sup>* s Step_CANCELLED" by (rule one_move)
    then show ?thesis by (auto simp: step_terminal_def)
  qed
qed

subsection \<open>Dependency resolution\<close>

lemma resolve_None_iff:
  "resolve_pending_step states mode = None \<longleftrightarrow> (\<exists>s \<in> set states. \<not> step_done s)"
  by (auto simp: resolve_pending_step_def list_ex_iff)

lemma resolve_Some_cases:
  "resolve_pending_step states mode = Some t \<Longrightarrow> t = Step_READY \<or> t = Step_SKIPPED"
  by (auto simp: resolve_pending_step_def split: if_splits)

lemma resolve_Some_done:
  "resolve_pending_step states mode = Some t \<Longrightarrow> s \<in> set states \<Longrightarrow> step_done s"
  by (metis option.distinct(1) resolve_None_iff)

section \<open>Example graphs\<close>

text \<open>A fork with two branches and a join on either, and a graph with a cycle.\<close>

definition noop_step :: "string \<Rightarrow> string list \<Rightarrow> dependency_mode \<Rightarrow> step_spec" where
  "noop_step key deps mode = \<lparr>sp_key = key, sp_step_type = Type_NOOP, sp_depends_on = deps,
     sp_dependency_mode = mode, sp_config = NoopStepConfig [],
     sp_retry = \<lparr>rp_max_attempts = 1, rp_retryable_codes = []\<rparr>\<rparr>"

definition diamond :: "step_spec list" where
  "diamond = [noop_step ''join'' [''left'', ''right''] Dep_ANY, noop_step ''right'' [''fork''] Dep_ALL,
     noop_step ''left'' [''fork''] Dep_ALL, noop_step ''fork'' [] Dep_ALL]"

definition two_cycle :: "step_spec list" where
  "two_cycle = [noop_step ''a'' [''b''] Dep_ALL, noop_step ''b'' [''a''] Dep_ALL]"

lemma validate_diamond: "validate_workflow_graph diamond = Inr [''fork'', ''left'', ''right'', ''join'']"
  by code_simp

lemma validate_two_cycle: "validate_workflow_graph two_cycle = Inl GraphCycle"
  by code_simp

lemma diamond_valid: "s \<in> set diamond \<Longrightarrow> step_spec_valid s"
proof -
  have "list_all step_spec_valid diamond" by code_simp
  then show "s \<in> set diamond \<Longrightarrow> step_spec_valid s" by (simp add: list_all_iff)
qed

lemma two_cycle_valid: "s \<in> set two_cycle \<Longrightarrow> step_spec_valid s"
proof -
  have "list_all step_spec_valid two_cycle" by code_simp
  then show "s \<in> set two_cycle \<Longrightarrow> step_spec_valid s" by (simp add: list_all_iff)
qed

section \<open>Properties\<close>



text \<open>
  C2: Graph validation accepts exactly the non-empty, bounded, uniquely keyed graphs with
  resolvable references whose dependency relation has no cycle; and it answers
  \<^verbatim>\<open>GraphCycle\<close> exactly when a cycle is the only thing wrong.
\<close>

theorem validate_workflow_graph_complete:
  assumes "\<And>s. s \<in> set steps \<Longrightarrow> step_spec_valid s"
  shows "((\<exists>ks. validate_workflow_graph steps = Inr ks) \<longleftrightarrow>
      steps \<noteq> [] \<and> length steps \<le> 256 \<and> distinct (map sp_key steps) \<and> refs_ok steps \<and>
      acyclic (dep_rel steps)) \<and>
    (validate_workflow_graph steps = Inl GraphCycle \<longleftrightarrow>
      steps \<noteq> [] \<and> length steps \<le> 256 \<and> distinct (map sp_key steps) \<and> refs_ok steps \<and>
      \<not> acyclic (dep_rel steps))"
proof (cases "steps \<noteq> [] \<and> length steps \<le> 256 \<and> distinct (map sp_key steps) \<and> refs_ok steps")
  case True
  then have closed: "graph_closed steps"
    using assms by (auto simp: graph_closed_def refs_ok_def dest: step_spec_valid_D)
  have acyc: "length (kahn_order steps) = length steps \<longleftrightarrow> acyclic (dep_rel steps)"
    using kahn_order_all_iff [OF closed] kahn_order_complete [OF closed]
      topo_sorted_acyclic kahn_order_props(1,3) [OF closed] by (metis order_refl)
  have "check_refs steps steps = Inr ()" using True check_refs_iff by blast
  with True have "validate_workflow_graph steps =
      (if length (kahn_order steps) \<noteq> length steps then Inl GraphCycle else Inr (kahn_order steps))"
    by (simp add: validate_workflow_graph_def Let_def)
  with True acyc show ?thesis by auto
next
  case False
  have "validate_workflow_graph steps \<noteq> Inr ks" for ks
  proof
    assume "validate_workflow_graph steps = Inr ks"
    then have "steps \<noteq> []" "length steps \<le> 256" "refs_ok steps" "graph_closed steps"
      using validate_Inr_D [OF assms] by blast+
    with False show False by (simp add: graph_closed_def)
  qed
  moreover have "validate_workflow_graph steps \<noteq> Inl GraphCycle"
  proof (cases "steps \<noteq> [] \<and> length steps \<le> 256 \<and> distinct (map sp_key steps)")
    case True
    with False check_refs_iff obtain e where "check_refs steps steps = Inl e"
      by (metis sum.exhaust)
    with True check_refs_not_cycle [of steps steps] show ?thesis
      by (simp add: validate_workflow_graph_def)
  qed (auto simp: validate_workflow_graph_def)
  ultimately show ?thesis using False by blast
qed

theorem validate_workflow_graph_complete_witness:
  "acyclic (dep_rel diamond) \<and> \<not> acyclic (dep_rel two_cycle)"
  using validate_workflow_graph_complete [OF diamond_valid] validate_diamond
    validate_workflow_graph_complete [OF two_cycle_valid] validate_two_cycle by blast

end
