(* ===== verification/Workflow_Conditions.thy ===== *)
theory Workflow_Conditions
  imports Workflow_Graph
begin

text \<open>
  The condition language of \<^verbatim>\<open>workflows/conditions.py\<close>: a dotted path is resolved in the
  run's input and the outputs of its steps, and the value found is compared with the
  expected value of the condition. \<open>None\<close> stands for the sentinel \<^verbatim>\<open>_MISSING\<close>.
\<close>

fun resolve_path :: "json \<Rightarrow> string list \<Rightarrow> json option" where
  "resolve_path current [] = Some current"
| "resolve_path current (part # parts) =
     (case current of
        JObj entries \<Rightarrow>
          (case map_of entries part of None \<Rightarrow> None | Some v \<Rightarrow> resolve_path v parts)
      | _ \<Rightarrow> None)"

definition resolve :: "json \<Rightarrow> string \<Rightarrow> json option" where
  "resolve root_value path = resolve_path root_value (py_split CHR ''.'' path)"

text \<open>
  Ordering compares two ints, two floats or two strings; a bool is never ordered, and
  \<^verbatim>\<open>isinstance(right, type(left))\<close> refuses mixed types.
\<close>

fun ordered :: "json \<Rightarrow> json \<Rightarrow> bool \<Rightarrow> bool" where
  "ordered (JInt a) (JInt b) gr = (if gr then a > b else a < b)"
| "ordered (JFloat a) (JFloat b) gr = (if gr then a > b else a < b)"
| "ordered (JStr a) (JStr b) gr = (if gr then a > b else a < b)"
| "ordered _ _ gr = False"

definition json_in :: "json \<Rightarrow> json list \<Rightarrow> bool" where
  "json_in v xs \<longleftrightarrow> list_ex (\<lambda>x. py_eq v x) xs"

text \<open>The operators on a value that was found.\<close>

fun compare_values :: "condition_operator \<Rightarrow> json \<Rightarrow> json \<Rightarrow> bool" where
  "compare_values Op_EQUALS v expected = py_eq v expected"
| "compare_values Op_NOT_EQUALS v expected = (\<not> py_eq v expected)"
| "compare_values Op_IN v expected = (case expected of JList xs \<Rightarrow> json_in v xs | _ \<Rightarrow> False)"
| "compare_values Op_NOT_IN v expected = (case expected of JList xs \<Rightarrow> \<not> json_in v xs | _ \<Rightarrow> False)"
| "compare_values Op_GREATER_THAN v expected = ordered v expected True"
| "compare_values Op_LESS_THAN v expected = ordered v expected False"
| "compare_values Op_EXISTS v expected = True"
| "compare_values Op_NOT_EXISTS v expected = False"

definition evaluate_condition :: "condition_config \<Rightarrow> json_obj \<Rightarrow> json_obj \<Rightarrow> bool" where
  "evaluate_condition c workflow_input step_outputs =
     (let root_value = JObj [(''input'', JObj workflow_input), (''steps'', JObj step_outputs)];
          value = resolve root_value (cc_path c) in
      if cc_operator c = Op_EXISTS then value \<noteq> None
      else if cc_operator c = Op_NOT_EXISTS then value = None
      else case value of
        None \<Rightarrow> False
      | Some v \<Rightarrow> compare_values (cc_operator c) v (cc_value c))"

section \<open>Lemmas\<close>

definition context_value :: "condition_config \<Rightarrow> json_obj \<Rightarrow> json_obj \<Rightarrow> json option" where
  "context_value c workflow_input step_outputs =
     resolve (JObj [(''input'', JObj workflow_input), (''steps'', JObj step_outputs)]) (cc_path c)"

lemma evaluate_condition_cong:
  "context_value c i o1 = context_value c i o2 \<Longrightarrow>
     evaluate_condition c i o1 = evaluate_condition c i o2"
  by (simp add: evaluate_condition_def context_value_def Let_def)


lemma ordered_flip: "ordered v w True = ordered w v False"
  by (cases v; cases w) auto

lemma map_of_filter_key:
  "k' \<noteq> k \<Longrightarrow> map_of (filter (\<lambda>(a, _). a \<noteq> k) xs) k' = map_of xs k'"
  by (induction xs) auto

text \<open>The root of the context, the first two segments of a path apart.\<close>

lemma resolve_steps:
  "resolve_path (JObj [(''input'', JObj i), (''steps'', JObj outs)]) (''steps'' # seg # segs) =
     (case map_of outs seg of None \<Rightarrow> None | Some v \<Rightarrow> resolve_path v segs)"
  by simp

section \<open>Properties\<close>


text \<open>
  C4: The output of a step whose key contains a dot is invisible to every condition that
  looks inside the step outputs: removing it from the context changes no result, although
  the key pattern of a step allows dots and a path is split at them.
\<close>

theorem dotted_step_output_invisible:
  assumes "CHR ''.'' \<in> set key" and "cc_path c \<noteq> ''steps''"
  shows "evaluate_condition c i (filter (\<lambda>(k, _). k \<noteq> key) outs) = evaluate_condition c i outs"
proof (rule evaluate_condition_cong)
  obtain p ps where p: "py_split CHR ''.'' (cc_path c) = p # ps"
    by (cases "py_split CHR ''.'' (cc_path c)") auto
  show "context_value c i (filter (\<lambda>(k, _). k \<noteq> key) outs) = context_value c i outs"
  proof (cases "p = ''steps''")
    case False
    then show ?thesis by (simp add: context_value_def resolve_def p)
  next
    case True
    have "ps \<noteq> []"
      using True p assms(2) py_join_split [of "CHR ''.''" "cc_path c"] by auto
    then obtain seg segs where ps: "ps = seg # segs" by (cases ps) auto
    then have "seg \<noteq> key"
      using py_split_no_sep [of seg "CHR ''.''" "cc_path c"] p assms(1) by auto
    then have "map_of (filter (\<lambda>(k, _). k \<noteq> key) outs) seg = map_of outs seg"
      by (rule map_of_filter_key)
    then show ?thesis
      unfolding context_value_def resolve_def p ps True resolve_steps by simp
  qed
qed

theorem dotted_step_output_invisible_witness:
  "step_key_ok ''fetch.user'' \<and>
   evaluate_condition
     \<lparr>cc_path = ''steps.fetch.user.id'', cc_operator = Op_EXISTS, cc_value = JNull,
      cc_then_steps = [], cc_else_steps = []\<rparr> []
     (filter (\<lambda>(k, _). k \<noteq> ''fetch.user'') [(''fetch.user'', JObj [(''id'', JInt 7)])]) =
   evaluate_condition
     \<lparr>cc_path = ''steps.fetch.user.id'', cc_operator = Op_EXISTS, cc_value = JNull,
      cc_then_steps = [], cc_else_steps = []\<rparr> []
     [(''fetch.user'', JObj [(''id'', JInt 7)])]"
proof
  show "step_key_ok ''fetch.user''" by code_simp
qed (rule dotted_step_output_invisible, simp_all)

end
