(* ===== verification/Workflow_Store.thy ===== *)
theory Workflow_Store
  imports Workflow_Conditions
begin

text \<open>
  The workflow tables of \<^verbatim>\<open>domain/workflows/models.py\<close> and the operations of
  \<^verbatim>\<open>domain/workflows/repository.py\<close>. A store holds the rows of every tenant; an
  operation runs in one transaction of the organization \<open>org\<close> with one reading \<open>now\<close>
  of the clock, returns the changed store with its result, or raises an error, in which
  case the transaction rolls back and the store is the one it started from. Concurrent
  transactions on one run are serialised by the row lock every operation takes on the run
  before it reads a step, so a history is a sequence of operations.
\<close>

section \<open>Rows\<close>

record definition_row =
  df_id :: uuid
  df_org :: uuid
  df_workflow_key :: string
  df_name :: string
  df_description :: "string option"
  df_status :: definition_status
  df_revision :: int
  df_draft_steps :: "step_spec list"
  df_created_at :: time
  df_updated_at :: time

record version_row =
  vr_id :: uuid
  vr_org :: uuid
  vr_definition_id :: uuid
  vr_version_number :: int
  vr_content_hash :: string
  vr_published_at :: time

text \<open>
  A version step row stores the columns of one \<^verbatim>\<open>WorkflowStepSpec\<close>; \<open>vs_spec\<close> is the
  value \<^verbatim>\<open>model_validate\<close> reads back from them.
\<close>

record version_step_row =
  vs_id :: uuid
  vs_org :: uuid
  vs_version_id :: uuid
  vs_spec :: step_spec
  vs_topological_order :: nat

record run_row =
  rn_id :: uuid
  rn_org :: uuid
  rn_definition_id :: uuid
  rn_version_id :: uuid
  rn_state :: run_state
  rn_state_version :: int
  rn_input :: json_obj
  rn_output :: "json_obj option"
  rn_idempotency_key :: "string option"
  rn_request_fingerprint :: string
  rn_correlation_id :: "string option"
  rn_error_code :: "string option"
  rn_terminal_reason :: "string option"
  rn_started_at :: time
  rn_ended_at :: "time option"
  rn_created_at :: time
  rn_updated_at :: time

record step_run_row =
  sr_id :: uuid
  sr_org :: uuid
  sr_run_id :: uuid
  sr_version_step_id :: uuid
  sr_step_key :: string
  sr_step_type :: step_type
  sr_state :: step_state
  sr_attempt_count :: int
  sr_max_attempts :: int
  sr_execution_owner_id :: "uuid option"
  sr_claim_token :: "uuid option"
  sr_claimed_at :: "time option"
  sr_next_eligible_at :: "time option"
  sr_input :: json_obj
  sr_output :: "json_obj option"
  sr_error_code :: "string option"
  sr_external_ref :: "string option"
  sr_created_at :: time
  sr_updated_at :: time

datatype entity_type = Entity_RUN | Entity_STEP_RUN

text \<open>
  The history is append-only; a row's place in the list stands for its time-ordered
  \<^verbatim>\<open>uuid7\<close>. Its organization is the transaction's, which is the one every run row was
  selected or inserted with.
\<close>

record transition_row =
  tr_org :: uuid
  tr_run_id :: uuid
  tr_entity_type :: entity_type
  tr_entity_id :: uuid
  tr_from_state :: "string option"
  tr_to_state :: string
  tr_reason_code :: string
  tr_source :: string
  tr_correlation_id :: "string option"
  tr_created_at :: time

record workflow_db =
  wf_definitions :: "definition_row list"
  wf_versions :: "version_row list"
  wf_version_steps :: "version_step_row list"
  wf_runs :: "run_row list"
  wf_step_runs :: "step_run_row list"
  wf_history :: "transition_row list"
  wf_next_id :: uuid

definition empty_workflow_db :: workflow_db where
  "empty_workflow_db = \<lparr>wf_definitions = [], wf_versions = [], wf_version_steps = [],
     wf_runs = [], wf_step_runs = [], wf_history = [], wf_next_id = 0\<rparr>"

record workflow_version =
  wv_id :: uuid
  wv_org :: uuid
  wv_definition_id :: uuid
  wv_version_number :: int
  wv_content_hash :: string
  wv_steps :: "step_spec list"
  wv_published_at :: time

record step_claim =
  cl_run :: run_row
  cl_step :: step_run_row
  cl_spec :: step_spec
  cl_owner_id :: uuid
  cl_claim_token :: uuid

section \<open>Definitions and versions\<close>

definition create_definition ::
  "workflow_db \<Rightarrow> uuid \<Rightarrow> string \<Rightarrow> string \<Rightarrow> string option \<Rightarrow> step_spec list \<Rightarrow> time \<Rightarrow>
     wf_error + (workflow_db \<times> definition_row)" where
  "create_definition db org key name descr steps now =
     (if \<exists>d \<in> set (wf_definitions db). df_org d = org \<and> df_workflow_key d = key
      then Inl IntegrityError
      else
        let row = \<lparr>df_id = wf_next_id db, df_org = org, df_workflow_key = key, df_name = name,
              df_description = descr, df_status = Def_DRAFT, df_revision = 1,
              df_draft_steps = steps, df_created_at = now, df_updated_at = now\<rparr>
        in Inr (db\<lparr>wf_definitions := wf_definitions db @ [row], wf_next_id := Suc (wf_next_id db)\<rparr>,
                row))"

definition get_definition_row :: "workflow_db \<Rightarrow> uuid \<Rightarrow> uuid \<Rightarrow> definition_row option" where
  "get_definition_row db org definition_id =
     find (\<lambda>d. df_org d = org \<and> df_id d = definition_id) (wf_definitions db)"

definition list_definitions :: "workflow_db \<Rightarrow> uuid \<Rightarrow> nat \<Rightarrow> nat \<Rightarrow> definition_row list" where
  "list_definitions db org limit offset =
     take limit (drop offset
       (sort_key (\<lambda>d. - df_created_at d) (sort_key df_id
          (filter (\<lambda>d. df_org d = org) (wf_definitions db)))))"

definition update_definition_row ::
  "workflow_db \<Rightarrow> definition_row \<Rightarrow> string option \<Rightarrow> string option \<Rightarrow> step_spec list option \<Rightarrow> time \<Rightarrow>
     workflow_db \<times> definition_row" where
  "update_definition_row db row name descr steps now =
     (let row1 = (case name of None \<Rightarrow> row | Some n \<Rightarrow> row\<lparr>df_name := n\<rparr>);
          row2 = (case descr of None \<Rightarrow> row1 | Some d \<Rightarrow> row1\<lparr>df_description := Some d\<rparr>);
          row3 = (case steps of None \<Rightarrow> row2 | Some s \<Rightarrow> row2\<lparr>df_draft_steps := s\<rparr>);
          row4 = row3\<lparr>df_revision := df_revision row3 + 1, df_updated_at := now\<rparr>
      in (db\<lparr>wf_definitions := put_rows df_id [row4] (wf_definitions db)\<rparr>, row4))"

text \<open>\<^verbatim>\<open>ORDER BY version_number DESC LIMIT 1\<close>, 0 when there is none yet.\<close>

definition latest_version_number :: "workflow_db \<Rightarrow> uuid \<Rightarrow> uuid \<Rightarrow> int" where
  "latest_version_number db org definition_id =
     fold max (map vr_version_number
       (filter (\<lambda>v. vr_org v = org \<and> vr_definition_id v = definition_id) (wf_versions db))) 0"

text \<open>One version step row per ordered key, numbered from \<open>order\<close>.\<close>

fun add_version_steps ::
  "uuid \<Rightarrow> uuid \<Rightarrow> step_spec list \<Rightarrow> nat \<Rightarrow> string list \<Rightarrow> workflow_db \<Rightarrow> wf_error + workflow_db" where
  "add_version_steps org version_id steps order [] db = Inr db"
| "add_version_steps org version_id steps order (key # keys) db =
     (case map_of (rev (map (\<lambda>s. (sp_key s, s)) steps)) key of
        None \<Rightarrow> Inl KeyError
      | Some item \<Rightarrow>
          add_version_steps org version_id steps (Suc order) keys
            (db\<lparr>wf_version_steps := wf_version_steps db @
                  [\<lparr>vs_id = wf_next_id db, vs_org = org, vs_version_id = version_id,
                    vs_spec = item, vs_topological_order = order\<rparr>],
                wf_next_id := Suc (wf_next_id db)\<rparr>))"

text \<open>\<open>hash\<close> is the SHA-256 of the canonical JSON of the steps.\<close>

definition publish_version ::
  "(step_spec list \<Rightarrow> string) \<Rightarrow> workflow_db \<Rightarrow> uuid \<Rightarrow> definition_row \<Rightarrow> string list \<Rightarrow> time \<Rightarrow>
     wf_error + (workflow_db \<times> workflow_version)" where
  "publish_version hash db org row ordered_keys now =
     (let steps = df_draft_steps row;
          version = \<lparr>vr_id = wf_next_id db, vr_org = org, vr_definition_id = df_id row,
             vr_version_number = latest_version_number db org (df_id row) + 1,
             vr_content_hash = hash steps, vr_published_at = now\<rparr>;
          db1 = db\<lparr>wf_versions := wf_versions db @ [version], wf_next_id := Suc (wf_next_id db)\<rparr>
      in bindE (add_version_steps org (vr_id version) steps 0 ordered_keys db1) (\<lambda>db2.
         Inr (db2\<lparr>wf_definitions := put_rows df_id
                    [row\<lparr>df_status := Def_ACTIVE, df_updated_at := now\<rparr>] (wf_definitions db2)\<rparr>,
              \<lparr>wv_id = vr_id version, wv_org = org, wv_definition_id = df_id row,
               wv_version_number = vr_version_number version,
               wv_content_hash = vr_content_hash version, wv_steps = steps,
               wv_published_at = now\<rparr>)))"

definition version_step_rows :: "workflow_db \<Rightarrow> uuid \<Rightarrow> uuid \<Rightarrow> version_step_row list" where
  "version_step_rows db org version_id =
     filter (\<lambda>r. vs_org r = org \<and> vs_version_id r = version_id) (wf_version_steps db)"

definition version_specs :: "workflow_db \<Rightarrow> uuid \<Rightarrow> uuid \<Rightarrow> step_spec list" where
  "version_specs db org version_id =
     map vs_spec (sort_key vs_topological_order (version_step_rows db org version_id))"

definition version_of_row :: "workflow_db \<Rightarrow> uuid \<Rightarrow> version_row \<Rightarrow> workflow_version" where
  "version_of_row db org v =
     \<lparr>wv_id = vr_id v, wv_org = vr_org v, wv_definition_id = vr_definition_id v,
      wv_version_number = vr_version_number v, wv_content_hash = vr_content_hash v,
      wv_steps = version_specs db org (vr_id v), wv_published_at = vr_published_at v\<rparr>"

definition get_version :: "workflow_db \<Rightarrow> uuid \<Rightarrow> uuid \<Rightarrow> workflow_version option" where
  "get_version db org version_id =
     map_option (version_of_row db org)
       (find (\<lambda>v. vr_org v = org \<and> vr_id v = version_id) (wf_versions db))"

definition list_versions :: "workflow_db \<Rightarrow> uuid \<Rightarrow> uuid \<Rightarrow> nat \<Rightarrow> workflow_version list" where
  "list_versions db org definition_id limit =
     map (version_of_row db org) (take limit (sort_key (\<lambda>v. - vr_version_number v)
       (filter (\<lambda>v. vr_org v = org \<and> vr_definition_id v = definition_id) (wf_versions db))))"

section \<open>Runs\<close>

definition add_transition ::
  "run_row \<Rightarrow> step_run_row option \<Rightarrow> string option \<Rightarrow> string \<Rightarrow> string \<Rightarrow> string \<Rightarrow> time \<Rightarrow>
     workflow_db \<Rightarrow> workflow_db" where
  "add_transition run step from_state to_state reason source now db =
     db\<lparr>wf_history := wf_history db @
       [\<lparr>tr_org = rn_org run, tr_run_id = rn_id run,
         tr_entity_type = (case step of None \<Rightarrow> Entity_RUN | Some _ \<Rightarrow> Entity_STEP_RUN),
         tr_entity_id = (case step of None \<Rightarrow> rn_id run | Some s \<Rightarrow> sr_id s),
         tr_from_state = from_state, tr_to_state = to_state,
         tr_reason_code = take 96 reason, tr_source = source,
         tr_correlation_id = rn_correlation_id run, tr_created_at = now\<rparr>]\<rparr>"

definition transition_run_row ::
  "workflow_db \<Rightarrow> run_row \<Rightarrow> run_state \<Rightarrow> string \<Rightarrow> time \<Rightarrow> wf_error + (workflow_db \<times> run_row)" where
  "transition_run_row db row target reason now =
     bindE (require_workflow_transition (rn_state row) target) (\<lambda>_.
       let row1 = row\<lparr>rn_state := target, rn_state_version := rn_state_version row + 1,
             rn_updated_at := now,
             rn_error_code := (if target = Run_FAILED then Some reason else rn_error_code row)\<rparr>;
           row2 = (if target \<in> {Run_COMPLETED, Run_FAILED, Run_CANCELLED}
                   then row1\<lparr>rn_ended_at := Some now, rn_terminal_reason := Some reason\<rparr> else row1)
       in Inr (add_transition row2 None (Some (run_state_value (rn_state row)))
                 (run_state_value target) reason ''ENGINE'' now
                 (db\<lparr>wf_runs := put_rows rn_id [row2] (wf_runs db)\<rparr>),
               row2))"

definition get_run_row :: "workflow_db \<Rightarrow> uuid \<Rightarrow> uuid \<Rightarrow> run_row option" where
  "get_run_row db org run_id = find (\<lambda>r. rn_org r = org \<and> rn_id r = run_id) (wf_runs db)"

definition run_by_idempotency :: "workflow_db \<Rightarrow> uuid \<Rightarrow> uuid \<Rightarrow> string \<Rightarrow> run_row option" where
  "run_by_idempotency db org version_id key =
     find (\<lambda>r. rn_org r = org \<and> rn_version_id r = version_id \<and> rn_idempotency_key r = Some key)
       (wf_runs db)"

definition run_steps :: "workflow_db \<Rightarrow> uuid \<Rightarrow> uuid \<Rightarrow> step_run_row list" where
  "run_steps db org run_id =
     filter (\<lambda>r. sr_org r = org \<and> sr_run_id r = run_id) (wf_step_runs db)"

definition list_steps :: "workflow_db \<Rightarrow> uuid \<Rightarrow> uuid \<Rightarrow> step_run_row list" where
  "list_steps db org run_id =
     sort_key sr_created_at (sort_key sr_step_key (run_steps db org run_id))"

definition list_runs :: "workflow_db \<Rightarrow> uuid \<Rightarrow> nat \<Rightarrow> nat \<Rightarrow> run_row list" where
  "list_runs db org limit offset =
     take limit (drop offset
       (sort_key (\<lambda>r. - rn_created_at r) (filter (\<lambda>r. rn_org r = org) (wf_runs db))))"

definition version_step_ids :: "workflow_db \<Rightarrow> uuid \<Rightarrow> uuid \<Rightarrow> (string \<times> uuid) list" where
  "version_step_ids db org version_id =
     rev (map (\<lambda>r. (sp_key (vs_spec r), vs_id r)) (version_step_rows db org version_id))"

fun add_step_runs ::
  "run_row \<Rightarrow> (string \<times> uuid) list \<Rightarrow> step_spec list \<Rightarrow> time \<Rightarrow> workflow_db \<Rightarrow> wf_error + workflow_db" where
  "add_step_runs run step_ids [] now db = Inr db"
| "add_step_runs run step_ids (spec # specs) now db =
     (case map_of step_ids (sp_key spec) of
        None \<Rightarrow> Inl KeyError
      | Some vsid \<Rightarrow>
          let initial = (if sp_depends_on spec = [] then Step_READY else Step_PENDING);
              row = \<lparr>sr_id = wf_next_id db, sr_org = rn_org run, sr_run_id = rn_id run,
                sr_version_step_id = vsid, sr_step_key = sp_key spec,
                sr_step_type = sp_step_type spec, sr_state = initial, sr_attempt_count = 0,
                sr_max_attempts = rp_max_attempts (sp_retry spec),
                sr_execution_owner_id = None, sr_claim_token = None, sr_claimed_at = None,
                sr_next_eligible_at = None, sr_input = [], sr_output = None,
                sr_error_code = None, sr_external_ref = None, sr_created_at = now,
                sr_updated_at = now\<rparr>
          in add_step_runs run step_ids specs now
               (add_transition run (Some row) None (step_state_value initial)
                  (if initial = Step_READY then ''INITIAL_READY'' else ''AWAITING_DEPENDENCIES'')
                  ''ENGINE'' now
                  (db\<lparr>wf_step_runs := wf_step_runs db @ [row],
                      wf_next_id := Suc (wf_next_id db)\<rparr>)))"

text \<open>
  \<open>snap\<close> is what the initial lookup sees and \<open>db\<close> the store the insert meets; they
  differ when another transaction committed in between, and then the unique constraint on
  \<^verbatim>\<open>(organization_id, version_id, idempotency_key)\<close> decides.
\<close>

definition start_run_row ::
  "workflow_db \<Rightarrow> workflow_db \<Rightarrow> uuid \<Rightarrow> workflow_version \<Rightarrow> json_obj \<Rightarrow> string option \<Rightarrow> string \<Rightarrow>
     string option \<Rightarrow> time \<Rightarrow> wf_error + (workflow_db \<times> run_row \<times> bool)" where
  "start_run_row snap db org version input ikey fingerprint corr now =
     (case (case ikey of None \<Rightarrow> None
            | Some k \<Rightarrow> if k = [] then None else run_by_idempotency snap org (wv_id version) k) of
        Some existing \<Rightarrow> Inr (db, existing, False)
      | None \<Rightarrow>
          if (case ikey of None \<Rightarrow> False
              | Some k \<Rightarrow> run_by_idempotency db org (wv_id version) k \<noteq> None)
          then Inl IntegrityError
          else
            let run = \<lparr>rn_id = wf_next_id db, rn_org = org,
                  rn_definition_id = wv_definition_id version, rn_version_id = wv_id version,
                  rn_state = Run_PENDING, rn_state_version = 1, rn_input = input,
                  rn_output = None, rn_idempotency_key = ikey,
                  rn_request_fingerprint = fingerprint, rn_correlation_id = corr,
                  rn_error_code = None, rn_terminal_reason = None, rn_started_at = now,
                  rn_ended_at = None, rn_created_at = now, rn_updated_at = now\<rparr>;
                db1 = db\<lparr>wf_runs := wf_runs db @ [run], wf_next_id := Suc (wf_next_id db)\<rparr>
            in bindE (transition_run_row db1 run Run_RUNNING ''WORKFLOW_STARTED'' now) (\<lambda>(db2, run2).
               bindE (add_step_runs run2 (version_step_ids db2 org (wv_id version)) (wv_steps version)
                        now db2) (\<lambda>db3. Inr (db3, run2, True))))"

definition spec_for_step :: "workflow_db \<Rightarrow> uuid \<Rightarrow> uuid \<Rightarrow> wf_error + step_spec" where
  "spec_for_step db org version_step_id =
     of_option NoResultFound (map_option vs_spec
       (find (\<lambda>r. vs_org r = org \<and> vs_id r = version_step_id) (wf_version_steps db)))"

section \<open>Advancing a run\<close>

text \<open>
  One pass of the \<^verbatim>\<open>for\<close> loop of \<^verbatim>\<open>_advance\<close> over the loaded rows in key order. The
  \<open>states\<close> dict is updated as rows are resolved, so later rows see earlier changes.
  The result carries the changed rows, the dict, the transitions recorded and whether
  anything changed.
\<close>

fun advance_pass ::
  "(string \<rightharpoonup> step_spec) \<Rightarrow> time \<Rightarrow> step_run_row list \<Rightarrow> (string \<rightharpoonup> step_state) \<Rightarrow>
     wf_error + (step_run_row list \<times> (string \<rightharpoonup> step_state) \<times> (step_run_row \<times> step_state) list \<times> bool)" where
  "advance_pass specs now [] states = Inr ([], states, [], False)"
| "advance_pass specs now (row # rows) states =
     (if sr_state row \<noteq> Step_PENDING then
        bindE (advance_pass specs now rows states)
          (\<lambda>(rows', states', moved, changed). Inr (row # rows', states', moved, changed))
      else
        bindE (of_option KeyError (specs (sr_step_key row))) (\<lambda>spec.
        bindE (mapE (\<lambda>k. of_option KeyError (states k)) (sp_depends_on spec)) (\<lambda>dep_states.
        case resolve_pending_step dep_states (sp_dependency_mode spec) of
          None \<Rightarrow>
            bindE (advance_pass specs now rows states)
              (\<lambda>(rows', states', moved, changed). Inr (row # rows', states', moved, changed))
        | Some target \<Rightarrow>
            bindE (advance_pass specs now rows (states(sr_step_key row \<mapsto> target)))
              (\<lambda>(rows', states', moved, changed).
                 Inr (row\<lparr>sr_state := target, sr_updated_at := now\<rparr> # rows', states',
                      (row, target) # moved, True)))))"

definition pending_count :: "step_run_row list \<Rightarrow> nat" where
  "pending_count rows = length (filter (\<lambda>r. sr_state r = Step_PENDING) rows)"

lemma resolve_not_pending: "resolve_pending_step ss m = Some t \<Longrightarrow> t \<noteq> Step_PENDING"
  by (auto dest: resolve_Some_cases)

lemma advance_pass_pending:
  assumes "advance_pass specs now rows states = Inr (rows', states', moved, changed)"
  shows "pending_count rows' + length moved = pending_count rows \<and> (changed \<longleftrightarrow> moved \<noteq> [])"
  using assms
proof (induction rows arbitrary: states rows' states' moved changed)
  case (Cons row rows)
  show ?case
  proof (cases "sr_state row = Step_PENDING")
    case False
    with Cons.prems Cons.IH show ?thesis by (fastforce simp: pending_count_def)
  next
    case True
    with Cons.prems obtain spec ds where sp: "specs (sr_step_key row) = Some spec"
      and ds: "mapE (\<lambda>k. of_option KeyError (states k)) (sp_depends_on spec) = Inr ds"
      by (auto simp del: mapE.simps)
    show ?thesis
    proof (cases "resolve_pending_step ds (sp_dependency_mode spec)")
      case None
      with Cons.prems Cons.IH True sp ds show ?thesis by (fastforce simp: pending_count_def)
    next
      case (Some t)
      with resolve_not_pending have "t \<noteq> Step_PENDING" by blast
      with Cons.prems Cons.IH True sp ds Some show ?thesis by (fastforce simp: pending_count_def)
    qed
  qed
qed (simp add: pending_count_def)

lemma advance_pass_decreases:
  assumes "advance_pass specs now rows states = Inr (rows', states', moved, True)"
  shows "pending_count rows' < pending_count rows"
  using advance_pass_pending [OF assms] by (cases moved) auto

function advance_loop ::
  "(string \<rightharpoonup> step_spec) \<Rightarrow> time \<Rightarrow> step_run_row list \<Rightarrow> (string \<rightharpoonup> step_state) \<Rightarrow>
     wf_error + (step_run_row list \<times> (step_run_row \<times> step_state) list)" where
  "advance_loop specs now rows states =
     (case advance_pass specs now rows states of
        Inl e \<Rightarrow> Inl e
      | Inr (rows', states', moved, changed) \<Rightarrow>
          if changed then
            bindE (advance_loop specs now rows' states') (\<lambda>(rows2, moved2). Inr (rows2, moved @ moved2))
          else Inr (rows', moved))"
  by pat_completeness auto
termination
  by (relation "measure (\<lambda>(specs, now, rows, states). pending_count rows)")
    (auto dest: advance_pass_decreases)

declare advance_loop.simps [simp del]

fun record_moves :: "run_row \<Rightarrow> time \<Rightarrow> (step_run_row \<times> step_state) list \<Rightarrow> workflow_db \<Rightarrow> workflow_db" where
  "record_moves run now [] db = db"
| "record_moves run now ((row, target) # moved) db =
     record_moves run now moved
       (add_transition run (Some row) (Some (step_state_value Step_PENDING)) (step_state_value target)
          (if target = Step_READY then ''DEPENDENCIES_COMPLETE'' else ''INACTIVE_BRANCH'')
          ''ENGINE'' now db)"

definition row_specs :: "workflow_db \<Rightarrow> uuid \<Rightarrow> step_run_row list \<Rightarrow> wf_error + (string \<times> step_spec) list" where
  "row_specs db org rows =
     mapE (\<lambda>r. bindE (spec_for_step db org (sr_version_step_id r)) (\<lambda>s. Inr (sr_step_key r, s))) rows"

definition run_outputs :: "step_run_row list \<Rightarrow> json_obj" where
  "run_outputs rows =
     concat (map (\<lambda>r. case sr_output r of None \<Rightarrow> [] | Some out \<Rightarrow> [(sr_step_key r, JObj out)]) rows)"

definition advance ::
  "workflow_db \<Rightarrow> uuid \<Rightarrow> run_row \<Rightarrow> time \<Rightarrow> wf_error + (workflow_db \<times> run_row)" where
  "advance db org run now =
     (let steps = run_steps db org (rn_id run) in
      bindE (row_specs db org steps) (\<lambda>specs.
      if rn_state run \<noteq> Run_RUNNING then Inr (db, run)
      else
        bindE (advance_loop (map_of specs) now (sort_key sr_step_key steps)
                 (map_of (map (\<lambda>r. (sr_step_key r, sr_state r)) steps))) (\<lambda>(rows, moved).
        let db1 = record_moves run now moved
              (db\<lparr>wf_step_runs := put_rows sr_id rows (wf_step_runs db)\<rparr>) in
        if list_all (\<lambda>r. step_done (sr_state r)) rows then
          transition_run_row db1 (run\<lparr>rn_output := Some (run_outputs rows)\<rparr>) Run_COMPLETED
            ''WORKFLOW_COMPLETED'' now
        else Inr (db1, run))))"

section \<open>Claiming and settling steps\<close>

definition claim_candidates :: "workflow_db \<Rightarrow> uuid \<Rightarrow> uuid \<Rightarrow> time \<Rightarrow> step_run_row list" where
  "claim_candidates db org run_id now =
     sort_key sr_created_at (sort_key sr_step_key
       (filter (\<lambda>r. sr_state r = Step_READY \<and>
           (case sr_next_eligible_at r of None \<Rightarrow> True | Some t \<Rightarrow> t \<le> now))
         (run_steps db org run_id)))"

definition claim ::
  "workflow_db \<Rightarrow> uuid \<Rightarrow> uuid \<Rightarrow> uuid \<Rightarrow> time \<Rightarrow> wf_error + (workflow_db \<times> step_claim option)" where
  "claim db org run_id owner_id now =
     (case get_run_row db org run_id of
        None \<Rightarrow> Inr (db, None)
      | Some run \<Rightarrow>
          if rn_state run \<noteq> Run_RUNNING then Inr (db, None)
          else (case claim_candidates db org run_id now of
            [] \<Rightarrow> Inr (db, None)
          | row # _ \<Rightarrow>
              let token = wf_next_id db;
                  row' = row\<lparr>sr_state := Step_RUNNING, sr_attempt_count := sr_attempt_count row + 1,
                    sr_execution_owner_id := Some owner_id, sr_claim_token := Some token,
                    sr_claimed_at := Some now, sr_updated_at := now\<rparr>;
                  db' = add_transition run (Some row) (Some (step_state_value Step_READY))
                    (step_state_value Step_RUNNING) ''STEP_CLAIMED'' ''WORKER'' now
                    (db\<lparr>wf_step_runs := put_rows sr_id [row'] (wf_step_runs db),
                        wf_next_id := Suc (wf_next_id db)\<rparr>)
              in bindE (spec_for_step db' org (sr_version_step_id row)) (\<lambda>spec.
                 Inr (db', Some \<lparr>cl_run = run, cl_step = row', cl_spec = spec,
                                  cl_owner_id = owner_id, cl_claim_token = token\<rparr>))))"

text \<open>
  The fence of a settling transaction: the run is still live and the step row is RUNNING
  under exactly the owner and the token of the claim.
\<close>

definition fenced_run :: "workflow_db \<Rightarrow> uuid \<Rightarrow> step_claim \<Rightarrow> wf_error + run_row" where
  "fenced_run db org c =
     (case get_run_row db org (rn_id (cl_run c)) of
        None \<Rightarrow> Inl WorkflowExecutionFencedError
      | Some run \<Rightarrow>
          if rn_state run \<notin> {Run_RUNNING, Run_PAUSED} then Inl WorkflowExecutionFencedError
          else Inr run)"

definition fenced_step :: "workflow_db \<Rightarrow> uuid \<Rightarrow> step_claim \<Rightarrow> wf_error + step_run_row" where
  "fenced_step db org c =
     (case find (\<lambda>r. sr_org r = org \<and> sr_id r = sr_id (cl_step c)) (wf_step_runs db) of
        None \<Rightarrow> Inl WorkflowExecutionFencedError
      | Some row \<Rightarrow>
          if sr_state row \<noteq> Step_RUNNING \<or> sr_execution_owner_id row \<noteq> Some (cl_owner_id c) \<or>
             sr_claim_token row \<noteq> Some (cl_claim_token c)
          then Inl WorkflowExecutionFencedError
          else Inr row)"

definition finish_step ::
  "workflow_db \<Rightarrow> uuid \<Rightarrow> step_claim \<Rightarrow> json_obj \<Rightarrow> string option \<Rightarrow> time \<Rightarrow>
     wf_error + (workflow_db \<times> run_row)" where
  "finish_step db org c output reference now =
     bindE (fenced_run db org c) (\<lambda>run.
     bindE (fenced_step db org c) (\<lambda>row.
       let row' = row\<lparr>sr_state := Step_COMPLETED, sr_output := Some output,
             sr_external_ref := reference, sr_updated_at := now\<rparr>
       in advance (add_transition run (Some row) (Some (step_state_value Step_RUNNING))
              (step_state_value Step_COMPLETED) ''STEP_COMPLETED'' ''WORKER'' now
              (db\<lparr>wf_step_runs := put_rows sr_id [row'] (wf_step_runs db)\<rparr>))
            org run now))"

fun skip_rows :: "run_row \<Rightarrow> string \<Rightarrow> step_state \<Rightarrow> time \<Rightarrow> step_run_row list \<Rightarrow> workflow_db \<Rightarrow> workflow_db" where
  "skip_rows run reason target now [] db = db"
| "skip_rows run reason target now (row # rows) db =
     skip_rows run reason target now rows
       (add_transition run (Some row) (Some (step_state_value (sr_state row)))
          (step_state_value target) reason ''ENGINE'' now
          (db\<lparr>wf_step_runs := put_rows sr_id
             [row\<lparr>sr_state := target, sr_updated_at := now\<rparr>]
             (wf_step_runs db)\<rparr>))"

definition open_steps :: "workflow_db \<Rightarrow> uuid \<Rightarrow> uuid \<Rightarrow> step_run_row list" where
  "open_steps db org run_id =
     filter (\<lambda>r. sr_state r \<in> {Step_PENDING, Step_READY}) (run_steps db org run_id)"

definition finish_condition ::
  "workflow_db \<Rightarrow> uuid \<Rightarrow> step_claim \<Rightarrow> json_obj \<Rightarrow> string list \<Rightarrow> time \<Rightarrow>
     wf_error + (workflow_db \<times> run_row)" where
  "finish_condition db org c output skipped_keys now =
     bindE (fenced_run db org c) (\<lambda>run.
     bindE (fenced_step db org c) (\<lambda>row.
       let row' = row\<lparr>sr_state := Step_COMPLETED, sr_output := Some output, sr_updated_at := now\<rparr>;
           db1 = add_transition run (Some row) (Some (step_state_value Step_RUNNING))
              (step_state_value Step_COMPLETED) ''CONDITION_EVALUATED'' ''WORKER'' now
              (db\<lparr>wf_step_runs := put_rows sr_id [row'] (wf_step_runs db)\<rparr>);
           db2 = skip_rows run ''CONDITION_NOT_SELECTED'' Step_SKIPPED now
              (filter (\<lambda>r. sr_step_key r \<in> set skipped_keys) (open_steps db1 org (rn_id run))) db1
       in advance db2 org run now))"

definition fail_step ::
  "workflow_db \<Rightarrow> uuid \<Rightarrow> step_claim \<Rightarrow> string \<Rightarrow> bool \<Rightarrow> time \<Rightarrow> wf_error + (workflow_db \<times> run_row)" where
  "fail_step db org c error_code retryable now =
     bindE (fenced_run db org c) (\<lambda>run.
     bindE (fenced_step db org c) (\<lambda>row.
       if retryable \<and> sr_attempt_count row < sr_max_attempts row then
         let row' = row\<lparr>sr_state := Step_READY, sr_execution_owner_id := None,
               sr_claim_token := None, sr_error_code := Some error_code, sr_updated_at := now\<rparr>
         in Inr (add_transition run (Some row) (Some (step_state_value Step_RUNNING))
                   (step_state_value Step_READY) ''STEP_RETRY_READY'' ''WORKER'' now
                   (db\<lparr>wf_step_runs := put_rows sr_id [row'] (wf_step_runs db)\<rparr>), run)
       else
         let row' = row\<lparr>sr_state := Step_FAILED, sr_error_code := Some error_code,
               sr_updated_at := now\<rparr>
         in transition_run_row
              (add_transition run (Some row) (Some (step_state_value Step_RUNNING))
                 (step_state_value Step_FAILED) error_code ''WORKER'' now
                 (db\<lparr>wf_step_runs := put_rows sr_id [row'] (wf_step_runs db)\<rparr>))
              run Run_FAILED error_code now))"

definition transition_run ::
  "workflow_db \<Rightarrow> uuid \<Rightarrow> uuid \<Rightarrow> run_state \<Rightarrow> string \<Rightarrow> time \<Rightarrow>
     wf_error + (workflow_db \<times> run_row option)" where
  "transition_run db org run_id target reason now =
     (case get_run_row db org run_id of
        None \<Rightarrow> Inr (db, None)
      | Some row \<Rightarrow>
          bindE (transition_run_row db row target reason now) (\<lambda>(db1, row1).
          if target = Run_CANCELLED then
            Inr (skip_rows row1 ''WORKFLOW_CANCELLED'' Step_CANCELLED now
                   (open_steps db1 org run_id) db1, Some row1)
          else if target = Run_RUNNING then
            bindE (advance db1 org row1 now) (\<lambda>(db2, row2). Inr (db2, Some row2))
          else Inr (db1, Some row1)))"

definition transitions :: "workflow_db \<Rightarrow> uuid \<Rightarrow> uuid \<Rightarrow> nat \<Rightarrow> transition_row list" where
  "transitions db org run_id limit =
     take limit (sort_key tr_created_at
       (filter (\<lambda>t. tr_org t = org \<and> tr_run_id t = run_id) (wf_history db)))"

end
