(* ===== verification/Workflow_Run_Spec.thy ===== *)
theory Workflow_Run_Spec
  imports Workflow_Graph
begin

text \<open>
  The contract of the workflow engine, free of tables: what one run may do. A run is seen
  as its state and the state of each of its steps; the moves are the claims, completions,
  retries, failures, pauses, resumes and cancellations of \<^verbatim>\<open>WorkflowRepository\<close>. After a
  completion or a resume the pending steps take their \<^emph>\<open>settled\<close> states, described here
  without a loop: a pending step takes the state its dependencies' settled states give it.
\<close>

record run_view =
  vw_run :: run_state
  vw_step :: "string \<Rightarrow> step_state"

definition resolution :: "(string \<Rightarrow> step_state) \<Rightarrow> step_spec \<Rightarrow> step_state option" where
  "resolution st s = resolve_pending_step (map st (sp_depends_on s)) (sp_dependency_mode s)"

definition settled_state :: "(string \<Rightarrow> step_state) \<Rightarrow> (string \<Rightarrow> step_state) \<Rightarrow> step_spec \<Rightarrow> step_state" where
  "settled_state st st' s =
     (if st (sp_key s) = Step_PENDING
      then (case resolution st' s of None \<Rightarrow> Step_PENDING | Some t \<Rightarrow> t)
      else st (sp_key s))"

definition settled :: "step_spec list \<Rightarrow> (string \<Rightarrow> step_state) \<Rightarrow> (string \<Rightarrow> step_state) \<Rightarrow> bool" where
  "settled S st st' \<longleftrightarrow> (\<forall>s \<in> set S. st' (sp_key s) = settled_state st st' s)"

text \<open>One pass in dependency order computes the settled states.\<close>

fun settle :: "step_spec list \<Rightarrow> (string \<Rightarrow> step_state) \<Rightarrow> (string \<Rightarrow> step_state)" where
  "settle [] st = st"
| "settle (s # S) st = settle S (st(sp_key s := settled_state st st s))"

definition all_done :: "step_spec list \<Rightarrow> (string \<Rightarrow> step_state) \<Rightarrow> bool" where
  "all_done S st \<longleftrightarrow> list_all (\<lambda>s. step_done (st (sp_key s))) S"

text \<open>A workflow graph as published: its own list of steps is a dependency order.\<close>

definition graph_wf :: "step_spec list \<Rightarrow> bool" where
  "graph_wf S \<longleftrightarrow> S \<noteq> [] \<and> graph_closed S \<and> topo_sorted S (map sp_key S)"

definition open_state :: "step_state \<Rightarrow> bool" where
  "open_state s \<longleftrightarrow> s = Step_PENDING \<or> s = Step_READY"

inductive wake :: "step_spec list \<Rightarrow> run_state \<Rightarrow> (string \<Rightarrow> step_state) \<Rightarrow> run_view \<Rightarrow> bool" for S where
  wake_paused: "wake S Run_PAUSED st \<lparr>vw_run = Run_PAUSED, vw_step = st\<rparr>"
| wake_on: "settled S st st' \<Longrightarrow> \<not> all_done S st' \<Longrightarrow>
     wake S Run_RUNNING st \<lparr>vw_run = Run_RUNNING, vw_step = st'\<rparr>"
| wake_complete: "settled S st st' \<Longrightarrow> all_done S st' \<Longrightarrow>
     wake S Run_RUNNING st \<lparr>vw_run = Run_COMPLETED, vw_step = st'\<rparr>"

inductive run_step :: "step_spec list \<Rightarrow> run_view \<Rightarrow> run_view \<Rightarrow> bool" for S where
  claim_ready: "vw_run v = Run_RUNNING \<Longrightarrow> k \<in> sp_key ` set S \<Longrightarrow> vw_step v k = Step_READY \<Longrightarrow>
     run_step S v (v\<lparr>vw_step := (vw_step v)(k := Step_RUNNING)\<rparr>)"
| complete: "vw_run v \<in> {Run_RUNNING, Run_PAUSED} \<Longrightarrow> k \<in> sp_key ` set S \<Longrightarrow>
     vw_step v k = Step_RUNNING \<Longrightarrow>
     wake S (vw_run v)
       (\<lambda>j. if j \<in> skip \<and> open_state (vw_step v j) then Step_SKIPPED
            else if j = k then Step_COMPLETED else vw_step v j) v' \<Longrightarrow>
     run_step S v v'"
| retry: "vw_run v \<in> {Run_RUNNING, Run_PAUSED} \<Longrightarrow> k \<in> sp_key ` set S \<Longrightarrow>
     vw_step v k = Step_RUNNING \<Longrightarrow>
     run_step S v (v\<lparr>vw_step := (vw_step v)(k := Step_READY)\<rparr>)"
| fail: "vw_run v \<in> {Run_RUNNING, Run_PAUSED} \<Longrightarrow> k \<in> sp_key ` set S \<Longrightarrow>
     vw_step v k = Step_RUNNING \<Longrightarrow>
     run_step S v (v\<lparr>vw_run := Run_FAILED, vw_step := (vw_step v)(k := Step_FAILED)\<rparr>)"
| pause: "vw_run v = Run_RUNNING \<Longrightarrow> run_step S v (v\<lparr>vw_run := Run_PAUSED\<rparr>)"
| resume: "vw_run v = Run_PAUSED \<Longrightarrow> wake S Run_RUNNING (vw_step v) v' \<Longrightarrow> run_step S v v'"
| cancel: "vw_run v \<in> {Run_RUNNING, Run_PAUSED} \<Longrightarrow>
     run_step S v \<lparr>vw_run = Run_CANCELLED,
       vw_step = (\<lambda>j. if open_state (vw_step v j) \<and> j \<in> sp_key ` set S then Step_CANCELLED
                       else vw_step v j)\<rparr>"

inductive_cases run_stepE: "run_step S v v'"
inductive_cases wakeE: "wake S r st v'"

definition run_start :: "step_spec list \<Rightarrow> run_view \<Rightarrow> bool" where
  "run_start S v \<longleftrightarrow> vw_run v = Run_RUNNING \<and>
     (\<forall>s \<in> set S. vw_step v (sp_key s) = (if sp_depends_on s = [] then Step_READY else Step_PENDING))"

section \<open>Settling\<close>

lemma resolution_done:
  "resolution st s = Some t \<Longrightarrow> d \<in> set (sp_depends_on s) \<Longrightarrow> step_done (st d)"
  by (auto simp: resolution_def resolve_pending_step_def list_ex_iff split: if_splits)

lemma resolution_None_iff:
  "resolution st s = None \<longleftrightarrow> (\<exists>d \<in> set (sp_depends_on s). \<not> step_done (st d))"
  by (auto simp: resolution_def resolve_pending_step_def list_ex_iff split: if_splits)

lemma resolution_cong:
  "(\<And>d. d \<in> set (sp_depends_on s) \<Longrightarrow> st d = st' d) \<Longrightarrow> resolution st s = resolution st' s"
  by (simp add: resolution_def cong: map_cong)

lemma resolution_cases: "resolution st s = Some t \<Longrightarrow> t = Step_READY \<or> t = Step_SKIPPED"
  unfolding resolution_def by (rule resolve_Some_cases)

lemma settled_state_cases:
  "settled_state st st' s = st (sp_key s) \<or>
   (st (sp_key s) = Step_PENDING \<and> settled_state st st' s \<in> {Step_READY, Step_SKIPPED})"
  by (auto simp: settled_state_def dest: resolution_cases split: option.splits)

lemma topo_sorted_nth:
  "topo_sorted T (map sp_key T) \<Longrightarrow> i < length T \<Longrightarrow>
     set (sp_depends_on (T ! i)) \<subseteq> set (take i (map sp_key T))"
  by (simp add: topo_sorted_def)

lemma graph_wf_dep:
  assumes "graph_wf S" and "i < length S" and "d \<in> set (sp_depends_on (S ! i))"
  shows "\<exists>j < i. sp_key (S ! j) = d"
proof -
  have "set (sp_depends_on (S ! i)) \<subseteq> set (take i (map sp_key S))"
    using assms(1,2) by (simp add: graph_wf_def topo_sorted_nth)
  with assms(3) have "d \<in> set (take i (map sp_key S))" by blast
  then obtain j where "j < i" "take i (map sp_key S) ! j = d" "j < length S"
    by (auto simp: in_set_conv_nth)
  then show ?thesis by auto
qed

lemma graph_wf_deps: "graph_wf S \<Longrightarrow> s \<in> set S \<Longrightarrow> d \<in> set (sp_depends_on s) \<Longrightarrow> d \<in> sp_key ` set S"
  by (auto simp: graph_wf_def graph_closed_def)

lemma graph_wf_keys: "graph_wf S \<Longrightarrow> distinct (map sp_key S)"
  by (simp add: graph_wf_def graph_closed_def)

text \<open>Induction along the dependency order.\<close>

lemma graph_wf_induct:
  assumes "graph_wf S"
    and step: "\<And>s. s \<in> set S \<Longrightarrow> (\<And>d. d \<in> set (sp_depends_on s) \<Longrightarrow> P d) \<Longrightarrow> P (sp_key s)"
    and "s \<in> set S"
  shows "P (sp_key s)"
proof -
  have "P (sp_key (S ! i))" if "i < length S" for i
    using that
  proof (induction i rule: less_induct)
    case (less i)
    show ?case
    proof (rule step)
      fix d assume "d \<in> set (sp_depends_on (S ! i))"
      then obtain j where "j < i" "sp_key (S ! j) = d"
        using graph_wf_dep [OF assms(1) less.prems] by blast
      with less show "P d" by fastforce
    qed (use less in simp)
  qed
  with assms(3) show ?thesis by (metis in_set_conv_nth)
qed

lemma settled_unique:
  assumes "graph_wf S" and "settled S st a" and "settled S st b" and "s \<in> set S"
  shows "a (sp_key s) = b (sp_key s)"
proof (rule graph_wf_induct [where P = "\<lambda>k. a k = b k", OF assms(1) _ assms(4)])
  fix s assume s: "s \<in> set S" and IH: "\<And>d. d \<in> set (sp_depends_on s) \<Longrightarrow> a d = b d"
  from IH have "resolution a s = resolution b s" by (rule resolution_cong)
  with s assms(2,3) show "a (sp_key s) = b (sp_key s)"
    by (simp add: settled_def settled_state_def)
qed

lemma settle_other: "k \<notin> sp_key ` set S \<Longrightarrow> settle S st k = st k"
  by (induction S st rule: settle.induct) auto

lemma settle_settled_suffix:
  assumes "distinct (map sp_key (pre @ S))" and "topo_sorted (pre @ S) (map sp_key (pre @ S))"
    and "\<And>s. s \<in> set pre \<Longrightarrow> now (sp_key s) = settled_state st now s"
    and "\<And>s. s \<in> set S \<Longrightarrow> now (sp_key s) = st (sp_key s)"
    and "s \<in> set (pre @ S)"
  shows "settle S now (sp_key s) = settled_state st (settle S now) s"
  using assms
proof (induction S arbitrary: pre now)
  case (Cons x S)
  let ?now = "now(sp_key x := settled_state now now x)"
  have xpre: "sp_key x \<notin> sp_key ` set pre" "sp_key x \<notin> sp_key ` set S"
    using Cons.prems(1) by auto
  have dx: "set (sp_depends_on s) \<subseteq> set (take i (map sp_key (pre @ x # S)))"
    if "i < length (pre @ x # S)" "s = (pre @ x # S) ! i" for i s
    unfolding that(2) using Cons.prems(2) that(1) by (rule topo_sorted_nth)
  have px: "set (sp_depends_on x) \<subseteq> sp_key ` set pre"
    using dx [of "length pre" x] by (auto simp: nth_append)
  have pp: "set (sp_depends_on s) \<subseteq> sp_key ` set pre" if "s \<in> set pre" for s
  proof -
    from that obtain i where "i < length pre" "s = pre ! i" by (metis in_set_conv_nth)
    with dx [of i s] have "set (sp_depends_on s) \<subseteq> set (take i (map sp_key pre))"
      by (simp add: nth_append)
    also have "\<dots> \<subseteq> set (map sp_key pre)" by (rule set_take_subset)
    finally show ?thesis by simp
  qed
  have keep: "resolution (now(sp_key x := t)) s = resolution now s"
    if "set (sp_depends_on s) \<subseteq> sp_key ` set pre" for s t
    using that xpre by (intro resolution_cong) auto
  have x: "settled_state now now x = settled_state st ?now x"
    using Cons.prems(4) [of x] keep [OF px] by (auto simp: settled_state_def)
  have "settle S ?now (sp_key s) = settled_state st (settle S ?now) s"
  proof (rule Cons.IH [of "pre @ [x]"])
    fix t assume "t \<in> set (pre @ [x])"
    then consider "t \<in> set pre" | "t = x" by auto
    then show "?now (sp_key t) = settled_state st ?now t"
    proof cases
      case 1
      then have "sp_key t \<noteq> sp_key x" using xpre by (metis imageI)
      with 1 Cons.prems(3) [of t] keep [OF pp] show ?thesis
        by (auto simp: settled_state_def)
    next
      case 2
      with x show ?thesis by simp
    qed
  next
    fix t assume "t \<in> set S"
    moreover from this have "sp_key t \<noteq> sp_key x" using xpre by (metis imageI)
    ultimately show "?now (sp_key t) = st (sp_key t)" using Cons.prems(4) [of t] by simp
  qed (use Cons.prems in auto)
  then show ?case by simp
qed simp

lemma settle_settled: "graph_wf S \<Longrightarrow> settled S st (settle S st)"
  using settle_settled_suffix [of "[]" S st st]
  by (simp add: settled_def graph_wf_def graph_closed_def)

section \<open>Invariants of a run\<close>

text \<open>
  \<open>started_ok\<close>: a step that is ready, running, completed or failed had its dependencies
  resolved in its favour. \<open>run_inv\<close> ties the state of a run to the states of its steps.
\<close>

definition started :: "step_state \<Rightarrow> bool" where
  "started s \<longleftrightarrow> s \<in> {Step_READY, Step_RUNNING, Step_COMPLETED, Step_FAILED}"

definition started_ok :: "step_spec list \<Rightarrow> (string \<Rightarrow> step_state) \<Rightarrow> bool" where
  "started_ok S st \<longleftrightarrow> (\<forall>s \<in> set S. started (st (sp_key s)) \<longrightarrow> resolution st s = Some Step_READY)"

definition run_inv :: "step_spec list \<Rightarrow> run_view \<Rightarrow> bool" where
  "run_inv S v \<longleftrightarrow> started_ok S (vw_step v) \<and>
     (vw_run v \<noteq> Run_PENDING) \<and>
     (vw_run v \<in> {Run_RUNNING, Run_PAUSED} \<longrightarrow>
        (\<forall>s \<in> set S. vw_step v (sp_key s) \<notin> {Step_FAILED, Step_CANCELLED})) \<and>
     (vw_run v = Run_RUNNING \<longrightarrow> settled S (vw_step v) (vw_step v) \<and> \<not> all_done S (vw_step v)) \<and>
     (vw_run v = Run_COMPLETED \<longrightarrow> all_done S (vw_step v)) \<and>
     (vw_run v = Run_FAILED \<longrightarrow> (\<exists>s \<in> set S. vw_step v (sp_key s) = Step_FAILED)) \<and>
     (vw_run v = Run_CANCELLED \<longrightarrow> (\<forall>s \<in> set S. \<not> open_state (vw_step v (sp_key s))))"

text \<open>A move that keeps every done step keeps the evidence for the started ones.\<close>

lemma started_ok_keep:
  assumes wf: "graph_wf S" and ok: "started_ok S st"
    and keep: "\<And>s. s \<in> set S \<Longrightarrow> step_done (st (sp_key s)) \<Longrightarrow> st' (sp_key s) = st (sp_key s)"
    and new: "\<And>s. s \<in> set S \<Longrightarrow> started (st' (sp_key s)) \<Longrightarrow> \<not> started (st (sp_key s)) \<Longrightarrow>
       resolution st' s = Some Step_READY"
  shows "started_ok S st'"
  unfolding started_ok_def
proof (intro ballI impI)
  fix s assume s: "s \<in> set S" and st': "started (st' (sp_key s))"
  show "resolution st' s = Some Step_READY"
  proof (cases "started (st (sp_key s))")
    case True
    with ok s have r: "resolution st s = Some Step_READY" by (simp add: started_ok_def)
    have "st' d = st d" if "d \<in> set (sp_depends_on s)" for d
      using keep resolution_done [OF r that] graph_wf_deps [OF wf s that] by auto
    then have "resolution st' s = resolution st s" by (rule resolution_cong)
    with r show ?thesis by simp
  qed (use new s st' in simp)
qed

lemma settled_started_ok:
  assumes wf: "graph_wf S" and "started_ok S st" and set: "settled S st st'"
  shows "started_ok S st'"
proof (rule started_ok_keep [OF assms(1,2)])
  fix s assume "s \<in> set S" "step_done (st (sp_key s))"
  with set show "st' (sp_key s) = st (sp_key s)"
    by (auto simp: settled_def settled_state_def step_done_def)
next
  fix s assume s: "s \<in> set S" and a: "started (st' (sp_key s))" and b: "\<not> started (st (sp_key s))"
  have "st' (sp_key s) = settled_state st st' s" using s set by (simp add: settled_def)
  with a b show "resolution st' s = Some Step_READY"
    by (auto simp: settled_state_def started_def dest: resolution_cases split: if_splits option.splits)
qed

lemma settled_idem:
  assumes "settled S st st'"
  shows "settled S st' st'"
  using assms settled_state_cases [of st st']
  by (auto simp: settled_def settled_state_def split: if_splits option.splits)

lemma settled_live:
  assumes "settled S st st'" and "\<forall>s \<in> set S. st (sp_key s) \<notin> {Step_FAILED, Step_CANCELLED}"
  shows "\<forall>s \<in> set S. st' (sp_key s) \<notin> {Step_FAILED, Step_CANCELLED}"
proof
  fix s assume s: "s \<in> set S"
  then have "st' (sp_key s) = settled_state st st' s" "st (sp_key s) \<notin> {Step_FAILED, Step_CANCELLED}"
    using assms by (auto simp: settled_def)
  then show "st' (sp_key s) \<notin> {Step_FAILED, Step_CANCELLED}"
    using settled_state_cases [of st st' s] by auto
qed

lemma settled_self:
  "settled S st st \<longleftrightarrow> (\<forall>s \<in> set S. st (sp_key s) = Step_PENDING \<longrightarrow> resolution st s = None)"
  unfolding settled_def settled_state_def
  by (intro ball_cong refl)
    (use resolution_cases in \<open>fastforce split: option.splits\<close>)

text \<open>Moving one undone step to another undone state unblocks nothing.\<close>

lemma settled_self_upd:
  assumes "settled S st st" and "\<not> step_done (st k)" and "\<not> step_done t" and "t \<noteq> Step_PENDING"
  shows "settled S (st(k := t)) (st(k := t))"
  using assms unfolding settled_self resolution_None_iff by auto

lemma not_all_done_upd:
  assumes "\<not> all_done S st" and "\<not> step_done t"
  shows "\<not> all_done S (st(k := t))"
  using assms by (auto simp: all_done_def list_all_iff)

text \<open>What a run is allowed to become once it is woken.\<close>

lemma wake_inv:
  assumes "graph_wf S" and "wake S r st v'" and "started_ok S st"
    and "\<forall>s \<in> set S. st (sp_key s) \<notin> {Step_FAILED, Step_CANCELLED}"
  shows "run_inv S v'"
  using assms(2)
proof cases
  case wake_paused
  with assms show ?thesis by (simp add: run_inv_def)
next
  case (wake_on st')
  with assms settled_started_ok settled_idem settled_live show ?thesis
    unfolding run_inv_def by simp
next
  case (wake_complete st')
  with assms settled_started_ok show ?thesis unfolding run_inv_def by simp
qed

lemma run_start_inv:
  assumes wf: "graph_wf S" and start: "run_start S v"
  shows "run_inv S v"
proof -
  let ?st = "vw_step v"
  have st: "?st (sp_key s) = (if sp_depends_on s = [] then Step_READY else Step_PENDING)"
    if "s \<in> set S" for s
    using start that by (simp add: run_start_def)
  have nd: "\<not> step_done (?st k)" if "k \<in> sp_key ` set S" for k
    using st that by (auto simp: step_done_def split: if_splits)
  have res: "resolution ?st s = (if sp_depends_on s = [] then Some Step_READY else None)"
    if "s \<in> set S" for s
  proof (cases "sp_depends_on s")
    case (Cons d ds)
    then have "\<not> step_done (?st d)" using nd graph_wf_deps [OF wf that] by simp
    with Cons have "resolution ?st s = None" by (auto simp: resolution_None_iff)
    with Cons show ?thesis by simp
  qed (simp add: resolution_def resolve_pending_step_def)
  have "started_ok S ?st" using st res by (auto simp: started_ok_def started_def split: if_splits)
  moreover have "settled S ?st ?st" using st res by (auto simp: settled_def settled_state_def split: if_splits)
  moreover have "\<not> all_done S ?st" using nd wf by (cases S) (auto simp: all_done_def graph_wf_def)
  ultimately show ?thesis using start st by (auto simp: run_inv_def run_start_def split: if_splits)
qed

lemma run_step_inv:
  assumes wf: "graph_wf S" and inv: "run_inv S v" and step: "run_step S v v'"
  shows "run_inv S v'"
proof -
  have ok: "started_ok S (vw_step v)" using inv by (simp add: run_inv_def)
  note live = inv [unfolded run_inv_def]
  from step show ?thesis
  proof cases
    case (claim_ready k)
    have "started_ok S ((vw_step v)(k := Step_RUNNING))"
      using claim_ready by (intro started_ok_keep [OF wf ok]) (auto simp: step_done_def started_def split: if_splits)
    with claim_ready live show ?thesis
      by (auto simp: run_inv_def step_done_def intro!: settled_self_upd dest: not_all_done_upd)
  next
    case (complete k skip)
    let ?st = "\<lambda>j. if j \<in> skip \<and> open_state (vw_step v j) then Step_SKIPPED
            else if j = k then Step_COMPLETED else vw_step v j"
    have "started_ok S ?st"
      using complete by (intro started_ok_keep [OF wf ok]) (auto simp: step_done_def started_def open_state_def split: if_splits)
    moreover have "\<forall>s \<in> set S. ?st (sp_key s) \<notin> {Step_FAILED, Step_CANCELLED}"
      using complete live by auto
    ultimately show ?thesis using wake_inv [OF wf complete(4)] by blast
  next
    case (retry k)
    have "started_ok S ((vw_step v)(k := Step_READY))"
      using retry by (intro started_ok_keep [OF wf ok]) (auto simp: step_done_def started_def split: if_splits)
    with retry live show ?thesis
      by (auto simp: run_inv_def step_done_def intro!: settled_self_upd dest: not_all_done_upd)
  next
    case (fail k)
    have "started_ok S ((vw_step v)(k := Step_FAILED))"
      using fail by (intro started_ok_keep [OF wf ok]) (auto simp: step_done_def started_def split: if_splits)
    with fail show ?thesis by (auto simp: run_inv_def)
  next
    case pause
    with live show ?thesis by (auto simp: run_inv_def)
  next
    case resume
    with live show ?thesis by (intro wake_inv [OF wf resume(2) ok]) auto
  next
    case cancel
    have "started_ok S (\<lambda>j. if open_state (vw_step v j) \<and> j \<in> sp_key ` set S then Step_CANCELLED else vw_step v j)"
      by (intro started_ok_keep [OF wf ok]) (auto simp: step_done_def started_def open_state_def split: if_splits)
    with cancel show ?thesis by (auto simp: run_inv_def open_state_def)
  qed
qed

text \<open>A running run always has a step to claim or a step being executed.\<close>

lemma run_inv_progress:
  assumes wf: "graph_wf S" and inv: "run_inv S v" and run: "vw_run v = Run_RUNNING"
  shows "\<exists>s \<in> set S. vw_step v (sp_key s) \<in> {Step_READY, Step_RUNNING}"
proof (rule ccontr)
  assume no: "\<not> ?thesis"
  let ?st = "vw_step v"
  have "step_done (?st (sp_key s))" if "s \<in> set S" for s
  proof (rule graph_wf_induct [where P = "\<lambda>k. step_done (?st k)", OF wf _ that])
    fix s assume s: "s \<in> set S" and IH: "\<And>d. d \<in> set (sp_depends_on s) \<Longrightarrow> step_done (?st d)"
    from IH have "resolution ?st s \<noteq> None" by (simp add: resolution_None_iff)
    then have "?st (sp_key s) \<noteq> Step_PENDING"
      using inv run s by (auto simp: run_inv_def settled_self)
    then show "step_done (?st (sp_key s))"
      using inv run no s by (cases "?st (sp_key s)") (auto simp: run_inv_def step_done_def)
  qed
  then have "all_done S ?st" by (simp add: all_done_def list_all_iff)
  with inv run show False by (simp add: run_inv_def)
qed

section \<open>The run as a transition system\<close>

interpretation run_sys: transition_system
  "\<lambda>v. graph_wf S \<and> run_start S v" "run_step S" "\<lambda>v. graph_wf S \<and> run_inv S v" for S
  by unfold_locales (auto intro: run_start_inv run_step_inv)

lemma run_step_terminal: "run_step S v v' \<Longrightarrow> \<not> workflow_terminal (vw_run v)"
  by (erule run_stepE) (auto simp: workflow_terminal_def)

end
