(* ===== verification/Workflow_Advance.thy ===== *)
theory Workflow_Advance
  imports Workflow_Store Workflow_Run_Spec
begin

text \<open>
  The fixpoint loop of \<^verbatim>\<open>WorkflowRepository._advance\<close>: over step rows sorted by key, with a
  dict of states updated on the way, repeated until a pass changes nothing. It returns
  without error on the rows of a published workflow and leaves every row in its settled
  state, whatever the order the keys sort in.
\<close>

definition settle_row :: "time \<Rightarrow> (string \<rightharpoonup> step_state) \<Rightarrow> step_run_row \<Rightarrow> step_run_row" where
  "settle_row now st r =
     (case st (sr_step_key r) of
        Some t \<Rightarrow> if sr_state r = Step_PENDING \<and> t \<noteq> Step_PENDING
                  then r\<lparr>sr_state := t, sr_updated_at := now\<rparr> else r
      | None \<Rightarrow> r)"

definition tracks :: "(string \<rightharpoonup> step_state) \<Rightarrow> step_run_row list \<Rightarrow> bool" where
  "tracks st rows \<longleftrightarrow> distinct (map sr_step_key rows) \<and> (\<forall>r \<in> set rows. st (sr_step_key r) = Some (sr_state r))"

definition grows :: "(string \<rightharpoonup> step_state) \<Rightarrow> (string \<rightharpoonup> step_state) \<Rightarrow> bool" where
  "grows st st' \<longleftrightarrow> (\<forall>k. st k \<noteq> Some Step_PENDING \<longrightarrow> st' k = st k) \<and>
     (\<forall>k. st k = Some Step_PENDING \<longrightarrow> st' k \<in> {Some Step_PENDING, Some Step_READY, Some Step_SKIPPED})"

definition lookups :: "(string \<rightharpoonup> step_state) \<Rightarrow> string list \<Rightarrow> wf_error + step_state list" where
  "lookups st ks = mapE (\<lambda>k. of_option KeyError (st k)) ks"

definition resolves :: "(string \<rightharpoonup> step_spec) \<Rightarrow> (string \<rightharpoonup> step_state) \<Rightarrow> string \<Rightarrow> step_state option \<Rightarrow> bool" where
  "resolves specs st k t \<longleftrightarrow> (\<exists>spec ds. specs k = Some spec \<and> lookups st (sp_depends_on spec) = Inr ds \<and>
     resolve_pending_step ds (sp_dependency_mode spec) = t)"

lemma grows_refl [simp]: "grows st st"
  by (simp add: grows_def)

lemma grows_trans: "grows a b \<Longrightarrow> grows b c \<Longrightarrow> grows a c"
  unfolding grows_def by (metis insertE insertI1 insertI2 option.inject singletonD step_state.distinct)

lemma lookups_Inr: "lookups st ks = Inr ds \<longleftrightarrow> map st ks = map Some ds"
  by (induction ks arbitrary: ds) (auto simp: lookups_def)

lemma resolve_grows:
  assumes "lookups st ks = Inr ds" and "resolve_pending_step ds m = Some t" and "grows st st'"
  shows "lookups st' ks = Inr ds"
proof -
  have "map st ks = map Some ds" using assms(1) by (simp add: lookups_Inr)
  moreover have "\<forall>d \<in> set ds. step_done d"
    using assms(2) by (auto simp: resolve_pending_step_def list_ex_iff split: if_splits)
  ultimately have "map st' ks = map Some ds"
    using assms(3)
    by (auto simp: list_eq_iff_nth_eq grows_def step_done_def) (metis nth_mem option.inject step_state.distinct)+
  then show ?thesis by (simp add: lookups_Inr)
qed


lemma resolves_grows: "resolves specs st k (Some t) \<Longrightarrow> grows st st' \<Longrightarrow> resolves specs st' k (Some t)"
  unfolding resolves_def by (metis resolve_grows)

text \<open>One step of the pass, by the three ways a row can be treated.\<close>

lemma advance_pass_Cons:
  assumes "advance_pass specs now (row # rows) states = Inr (rows', states', moved, changed)"
  obtains (skip) rest where "sr_state row \<noteq> Step_PENDING" "rows' = row # rest"
      "advance_pass specs now rows states = Inr (rest, states', moved, changed)"
  | (wait) rest where "sr_state row = Step_PENDING" "rows' = row # rest"
      "resolves specs states (sr_step_key row) None"
      "advance_pass specs now rows states = Inr (rest, states', moved, changed)"
  | (move) rest moved' c t where "sr_state row = Step_PENDING" "changed"
      "rows' = row\<lparr>sr_state := t, sr_updated_at := now\<rparr> # rest" "moved = (row, t) # moved'"
      "resolves specs states (sr_step_key row) (Some t)"
      "advance_pass specs now rows (states(sr_step_key row \<mapsto> t)) = Inr (rest, states', moved', c)"
proof (cases "sr_state row = Step_PENDING")
  case False
  with assms skip show thesis by (auto split: prod.splits)
next
  case True
  with assms obtain spec ds where sp: "specs (sr_step_key row) = Some spec"
    and ds: "lookups states (sp_depends_on spec) = Inr ds"
    by (auto simp: lookups_def)
  show thesis
  proof (cases "resolve_pending_step ds (sp_dependency_mode spec)")
    case None
    with sp ds have "resolves specs states (sr_step_key row) None" by (auto simp: resolves_def)
    with assms True sp ds None wait show thesis by (auto simp: lookups_def split: prod.splits)
  next
    case (Some t)
    with sp ds have "resolves specs states (sr_step_key row) (Some t)" by (auto simp: resolves_def)
    with assms True sp ds Some move show thesis by (auto simp: lookups_def split: prod.splits)
  qed
qed

declare advance_pass.simps(2) [simp del]

lemma resolves_target: "resolves specs st k (Some t) \<Longrightarrow> t = Step_READY \<or> t = Step_SKIPPED"
  unfolding resolves_def using resolve_Some_cases by blast

lemma grows_upd:
  "st k = Some Step_PENDING \<Longrightarrow> t = Step_READY \<or> t = Step_SKIPPED \<Longrightarrow> grows st (st(k \<mapsto> t))"
  by (auto simp: grows_def)

lemma tracks_Cons:
  "tracks st (r # rows) \<longleftrightarrow>
     sr_step_key r \<notin> sr_step_key ` set rows \<and> st (sr_step_key r) = Some (sr_state r) \<and> tracks st rows"
  by (auto simp: tracks_def)

lemma tracks_upd: "k \<notin> sr_step_key ` set rows \<Longrightarrow> tracks (st(k \<mapsto> t)) rows \<longleftrightarrow> tracks st rows"
  by (auto simp: tracks_def)

lemma advance_pass_frame:
  assumes "advance_pass specs now rows states = Inr (rows', states', moved, changed)"
    and "tracks states rows"
  shows "grows states states'" and "\<And>k. k \<notin> sr_step_key ` set rows \<Longrightarrow> states' k = states k"
    and "rows' = map (settle_row now states') rows"
  using assms
proof (induction rows arbitrary: states rows' states' moved changed)
  case (Cons row rows)
  { case 1
    then show ?case
    proof (cases rule: advance_pass_Cons)
      case (move rest moved' c t)
      with 1 have "grows states (states(sr_step_key row \<mapsto> t))"
        by (intro grows_upd) (auto simp: tracks_Cons dest: resolves_target)
      moreover have "tracks (states(sr_step_key row \<mapsto> t)) rows"
        using 1 by (simp add: tracks_Cons tracks_upd)
      then have "grows (states(sr_step_key row \<mapsto> t)) states'"
        by (rule Cons.IH(1) [OF move(6)])
      ultimately show ?thesis by (rule grows_trans)
    qed (use Cons.IH(1) 1 in \<open>auto simp: tracks_Cons\<close>)
  next
    case 2
    from 2(2) show ?case
    proof (cases rule: advance_pass_Cons)
      case (move rest moved' c t)
      have tr: "tracks (states(sr_step_key row \<mapsto> t)) rows"
        using 2 by (simp add: tracks_Cons tracks_upd)
      show ?thesis using 2 Cons.IH(2) [OF _ move(6) tr] by simp
    qed (use Cons.IH(2) 2 in \<open>auto simp: tracks_Cons\<close>)
  next
    case 3
    from 3(1) show ?case
    proof (cases rule: advance_pass_Cons)
      case (skip rest)
      then show ?thesis using 3 Cons.IH(3)
        by (auto simp: tracks_Cons settle_row_def split: option.splits)
    next
      case (wait rest)
      then have "states' (sr_step_key row) = states (sr_step_key row)"
        using Cons.IH(2) [OF _ wait(4)] 3 by (simp add: tracks_Cons)
      then show ?thesis using wait 3 Cons.IH(3) [OF wait(4)] by (auto simp: tracks_Cons settle_row_def)
    next
      case (move rest moved' c t)
      have tr: "tracks (states(sr_step_key row \<mapsto> t)) rows"
        using 3 by (simp add: tracks_Cons tracks_upd)
      have "states' (sr_step_key row) = Some t"
        using Cons.IH(2) [OF _ move(6) tr] 3 by (simp add: tracks_Cons)
      then show ?thesis
        using move(1,3) Cons.IH(3) [OF move(6) tr] resolves_target [OF move(5)]
        by (auto simp: settle_row_def)
    qed
  }
qed simp_all

text \<open>
  What a pass establishes: a row that moved is resolved by the states at the end of the
  pass, and when nothing moved every pending row is still waiting.
\<close>

lemma advance_pass_moved:
  assumes "advance_pass specs now rows states = Inr (rows', states', moved, changed)"
    and "tracks states rows" and "r \<in> set rows" and "sr_state r = Step_PENDING"
    and "states' (sr_step_key r) \<noteq> Some Step_PENDING"
  shows "\<exists>t. states' (sr_step_key r) = Some t \<and> resolves specs states' (sr_step_key r) (Some t)"
  using assms
proof (induction rows arbitrary: states rows' states' moved changed)
  case (Cons row rows)
  from Cons.prems(1) show ?case
  proof (cases rule: advance_pass_Cons)
    case (skip rest)
    with Cons.prems Cons.IH [OF skip(3)] show ?thesis by (auto simp: tracks_Cons)
  next
    case (wait rest)
    have "states' (sr_step_key row) = Some Step_PENDING"
      using advance_pass_frame(2) [OF wait(4)] Cons.prems(2) wait(1) by (simp add: tracks_Cons)
    with wait Cons.prems Cons.IH [OF wait(4)] show ?thesis by (auto simp: tracks_Cons)
  next
    case (move rest moved' c t)
    have tr: "tracks (states(sr_step_key row \<mapsto> t)) rows"
      using Cons.prems(2) by (simp add: tracks_Cons tracks_upd)
    show ?thesis
    proof (cases "r = row")
      case True
      have "states' (sr_step_key row) = Some t"
        using advance_pass_frame(2) [OF move(6) tr] Cons.prems(2) by (simp add: tracks_Cons)
      moreover have "grows states states'"
        using advance_pass_frame(1) [OF Cons.prems(1,2)] .
      ultimately show ?thesis using True move(5) resolves_grows by blast
    next
      case False
      with Cons.prems show ?thesis by (intro Cons.IH [OF move(6) tr]) auto
    qed
  qed
qed simp

lemma advance_pass_stuck:
  assumes "advance_pass specs now rows states = Inr (rows', states', moved, False)"
  shows "rows' = rows \<and> states' = states \<and> moved = [] \<and>
    (\<forall>r \<in> set rows. sr_state r = Step_PENDING \<longrightarrow> resolves specs states (sr_step_key r) None)"
  using assms
proof (induction rows arbitrary: rows')
  case (Cons row rows)
  from Cons.prems show ?case
    by (cases rule: advance_pass_Cons) (use Cons.IH in auto)
qed simp

text \<open>The transitions a pass records are exactly the pending rows that left that state.\<close>

definition moves :: "step_run_row list \<Rightarrow> (string \<rightharpoonup> step_state) \<Rightarrow> (step_run_row \<times> step_state) set" where
  "moves rows st = {(r, t). r \<in> set rows \<and> sr_state r = Step_PENDING \<and>
     st (sr_step_key r) = Some t \<and> t \<noteq> Step_PENDING}"

lemma advance_pass_moves:
  assumes "advance_pass specs now rows states = Inr (rows', states', moved, changed)"
    and "tracks states rows"
  shows "set moved = moves rows states' \<and> distinct (map (\<lambda>m. sr_step_key (fst m)) moved)"
  using assms
proof (induction rows arbitrary: states rows' states' moved changed)
  case (Cons row rows)
  have notin: "sr_step_key row \<notin> sr_step_key ` set rows" and trs: "tracks states rows"
    and st: "states (sr_step_key row) = Some (sr_state row)"
    using Cons.prems(2) by (simp_all add: tracks_Cons)
  from Cons.prems(1) show ?case
  proof (cases rule: advance_pass_Cons)
    case (skip rest)
    then show ?thesis using Cons.IH [OF skip(3) trs] by (auto simp: moves_def)
  next
    case (wait rest)
    have "states' (sr_step_key row) = Some Step_PENDING"
      using advance_pass_frame(2) [OF wait(4) trs notin] st wait(1) by simp
    then show ?thesis using Cons.IH [OF wait(4) trs] by (auto simp: moves_def)
  next
    case (move rest moved' c t)
    have tr: "tracks (states(sr_step_key row \<mapsto> t)) rows"
      using trs notin by (simp add: tracks_upd)
    have "states' (sr_step_key row) = Some t"
      using advance_pass_frame(2) [OF move(6) tr notin] by simp
    moreover have "set moved' = moves rows states'" "distinct (map (\<lambda>m. sr_step_key (fst m)) moved')"
      using Cons.IH [OF move(6) tr] by simp_all
    moreover have "t \<noteq> Step_PENDING" using resolves_target [OF move(5)] by auto
    moreover have "moves (row # rows) states' = insert (row, t) (moves rows states')"
      using calculation(1,4) move(1) by (auto simp: moves_def)
    moreover have "sr_step_key row \<notin> (\<lambda>m. sr_step_key (fst m)) ` moves rows states'"
      using notin by (auto simp: moves_def)
    ultimately show ?thesis using move(4) by simp
  qed
qed (simp add: moves_def)

lemma settle_row_keep [simp]:
  "sr_step_key (settle_row now st r) = sr_step_key r" "sr_id (settle_row now st r) = sr_id r"
  "sr_org (settle_row now st r) = sr_org r" "sr_run_id (settle_row now st r) = sr_run_id r"
  "sr_version_step_id (settle_row now st r) = sr_version_step_id r"
  "sr_attempt_count (settle_row now st r) = sr_attempt_count r"
  "sr_max_attempts (settle_row now st r) = sr_max_attempts r"
  "sr_execution_owner_id (settle_row now st r) = sr_execution_owner_id r"
  "sr_claim_token (settle_row now st r) = sr_claim_token r"
  "sr_next_eligible_at (settle_row now st r) = sr_next_eligible_at r"
  "sr_output (settle_row now st r) = sr_output r"
  by (simp_all add: settle_row_def split: option.splits)

lemma settle_row_state:
  assumes "tracks a rows" and "grows a b" and "r \<in> set rows"
  shows "b (sr_step_key r) = Some (sr_state (settle_row now b r))"
proof -
  have "a (sr_step_key r) = Some (sr_state r)" using assms by (simp add: tracks_def)
  with assms(2) show ?thesis by (cases "sr_state r = Step_PENDING") (auto simp: grows_def settle_row_def)
qed

lemma settle_row_pending:
  assumes "sr_state (settle_row now b r) = Step_PENDING"
  shows "settle_row now b r = r"
proof (cases "b (sr_step_key r)")
  case (Some t)
  show ?thesis
  proof (cases "sr_state r = Step_PENDING \<and> t \<noteq> Step_PENDING")
    case True
    with Some have "sr_state (settle_row now b r) = t" by (simp add: settle_row_def)
    with assms True show ?thesis by simp
  next
    case False
    have "settle_row now b r = (if sr_state r = Step_PENDING \<and> t \<noteq> Step_PENDING
        then r\<lparr>sr_state := t, sr_updated_at := now\<rparr> else r)"
      unfolding settle_row_def Some by (rule option.case)
    also have "\<dots> = r" using False by (rule if_not_P)
    finally show ?thesis .
  qed
qed (simp add: settle_row_def)

lemma settle_row_trans:
  assumes "tracks a rows" and "grows a b" and "grows b c" and "r \<in> set rows"
  shows "settle_row now c (settle_row now b r) = settle_row now c r"
proof (cases "sr_state (settle_row now b r) = Step_PENDING")
  case True
  then have "settle_row now b r = r" by (rule settle_row_pending)
  then show ?thesis by simp
next
  case False
  define t where "t = sr_state (settle_row now b r)"
  have t: "b (sr_step_key r) = Some t" "t \<noteq> Step_PENDING"
    unfolding t_def by (rule settle_row_state [OF assms(1,2,4)], rule False)
  with assms(3) have "c (sr_step_key r) = Some t" by (simp add: grows_def)
  with t show ?thesis by (simp add: settle_row_def)
qed

lemma tracks_settle:
  assumes "tracks a rows" and "grows a b"
  shows "tracks b (map (settle_row now b) rows)"
  using assms settle_row_state [OF assms] by (auto simp: tracks_def o_def)

definition settles :: "(string \<rightharpoonup> step_spec) \<Rightarrow> (string \<rightharpoonup> step_state) \<Rightarrow> step_run_row \<Rightarrow> bool" where
  "settles specs st r \<longleftrightarrow> (\<exists>t. resolves specs st (sr_step_key r) t \<and>
     st (sr_step_key r) = Some (case t of None \<Rightarrow> Step_PENDING | Some u \<Rightarrow> u))"

lemma settles_grows:
  assumes "settles specs st r" and "st (sr_step_key r) \<noteq> Some Step_PENDING" and "grows st st'"
  shows "settles specs st' r"
proof -
  from assms(1,2) obtain t where "resolves specs st (sr_step_key r) (Some t)" "st (sr_step_key r) = Some t"
    unfolding settles_def by (auto split: option.splits)
  moreover have "st' (sr_step_key r) = st (sr_step_key r)" using assms(2,3) by (simp add: grows_def)
  ultimately show ?thesis unfolding settles_def using resolves_grows [OF _ assms(3)] by force
qed

lemma moves_split:
  assumes "tracks a rows" and "grows a b" and "grows b c"
  shows "moves rows c = moves rows b \<union> moves (map (settle_row now b) rows) c"
    and "(\<lambda>m. sr_step_key (fst m)) ` moves rows b \<inter> (\<lambda>m. sr_step_key (fst m)) ` moves (map (settle_row now b) rows) c = {}"
proof -
  have b: "b (sr_step_key r) = Some (sr_state (settle_row now b r))" if "r \<in> set rows" for r
    using settle_row_state [OF assms(1,2) that] .
  have again: "moves (map (settle_row now b) rows) c =
      {(r, t). r \<in> set rows \<and> sr_state r = Step_PENDING \<and> b (sr_step_key r) = Some Step_PENDING \<and>
        c (sr_step_key r) = Some t \<and> t \<noteq> Step_PENDING}"
  proof (intro set_eqI iffI; clarify)
    fix r t assume "(r, t) \<in> moves (map (settle_row now b) rows) c"
    then obtain r0 where r0: "r0 \<in> set rows" "r = settle_row now b r0" "sr_state r = Step_PENDING"
      "c (sr_step_key r) = Some t" "t \<noteq> Step_PENDING"
      by (auto simp: moves_def)
    with settle_row_pending have "r = r0" by metis
    with r0 b show "r \<in> set rows \<and> sr_state r = Step_PENDING \<and> b (sr_step_key r) = Some Step_PENDING \<and>
        c (sr_step_key r) = Some t \<and> t \<noteq> Step_PENDING" by metis
  next
    fix r t assume r: "r \<in> set rows" "sr_state r = Step_PENDING" "b (sr_step_key r) = Some Step_PENDING"
      "c (sr_step_key r) = Some t" "t \<noteq> Step_PENDING"
    have "settle_row now b r = r"
      using b [OF r(1)] r(3) by (intro settle_row_pending) simp
    with r show "(r, t) \<in> moves (map (settle_row now b) rows) c" by (force simp: moves_def)
  qed
  have cb: "c k = b k" if "b k \<noteq> Some Step_PENDING" for k using assms(3) that by (simp add: grows_def)
  show "moves rows c = moves rows b \<union> moves (map (settle_row now b) rows) c"
    unfolding again unfolding moves_def using cb by fastforce
  show "(\<lambda>m. sr_step_key (fst m)) ` moves rows b \<inter> (\<lambda>m. sr_step_key (fst m)) ` moves (map (settle_row now b) rows) c = {}"
    unfolding again unfolding moves_def by auto
qed

lemma advance_loop_result:
  assumes "advance_loop specs now rows states = Inr (rows', moved)" and "tracks states rows"
  shows "\<exists>st'. grows states st' \<and> rows' = map (settle_row now st') rows \<and>
    (\<forall>k. k \<notin> sr_step_key ` set rows \<longrightarrow> st' k = states k) \<and>
    (\<forall>r \<in> set rows. sr_state r = Step_PENDING \<longrightarrow> settles specs st' r) \<and>
    set moved = moves rows st' \<and> distinct (map (\<lambda>m. sr_step_key (fst m)) moved)"
  using assms
proof (induction specs now rows states arbitrary: rows' moved rule: advance_loop.induct)
  case (1 specs now rows states)
  from 1(2) obtain rows1 st1 mv1 ch where pass: "advance_pass specs now rows states = Inr (rows1, st1, mv1, ch)"
    by (cases "advance_pass specs now rows states") (auto simp: advance_loop.simps [of specs now rows states])
  note frame = advance_pass_frame [OF pass 1(3)]
  show ?case
  proof (cases ch)
    case False
    with pass have stuck: "advance_pass specs now rows states = Inr (rows1, st1, mv1, False)" by simp
    have "rows1 = rows" "st1 = states"
      and wait: "\<forall>r \<in> set rows. sr_state r = Step_PENDING \<longrightarrow> resolves specs states (sr_step_key r) None"
      using advance_pass_stuck [OF stuck] by blast+
    with 1(2) pass False have "rows' = map (settle_row now states) rows"
      using frame(3) by (simp add: advance_loop.simps [of specs now rows states])
    moreover have "settles specs states r" if "r \<in> set rows" "sr_state r = Step_PENDING" for r
      using that wait 1(3) unfolding settles_def tracks_def by force
    moreover have "moved = mv1"
      using 1(2) pass False by (simp add: advance_loop.simps [of specs now rows states])
    moreover have "set mv1 = moves rows states" "distinct (map (\<lambda>m. sr_step_key (fst m)) mv1)"
      using advance_pass_moves [OF pass 1(3)] \<open>st1 = states\<close> by simp_all
    ultimately show ?thesis by (intro exI [of _ states]) simp
  next
    case True
    with 1(2) pass obtain mv2 where loop: "advance_loop specs now rows1 st1 = Inr (rows', mv2)"
      and mv: "moved = mv1 @ mv2"
      by (auto simp: advance_loop.simps [of specs now rows states])
    have tr1: "tracks st1 rows1" using tracks_settle [OF 1(3) frame(1)] frame(3) by simp
    obtain st' where st': "grows st1 st'" "rows' = map (settle_row now st') rows1"
      "\<forall>k. k \<notin> sr_step_key ` set rows1 \<longrightarrow> st' k = st1 k"
      and rest: "\<forall>r \<in> set rows1. sr_state r = Step_PENDING \<longrightarrow> settles specs st' r"
      and mv2: "set mv2 = moves rows1 st'" "distinct (map (\<lambda>m. sr_step_key (fst m)) mv2)"
      using 1(1) [OF pass refl refl refl True loop tr1] by blast
    have g: "grows states st'" using frame(1) st'(1) by (rule grows_trans)
    have "rows' = map (settle_row now st') rows"
      using st'(2) settle_row_trans [OF 1(3) frame(1) st'(1)] by (simp add: frame(3))
    moreover have "settles specs st' r" if r: "r \<in> set rows" "sr_state r = Step_PENDING" for r
    proof (cases "st1 (sr_step_key r) = Some Step_PENDING")
      case True
      let ?r = "settle_row now st1 r"
      have "?r \<in> set rows1" using r(1) by (simp add: frame(3))
      moreover have "sr_state ?r = Step_PENDING" using r True by (simp add: settle_row_def)
      ultimately have "settles specs st' ?r" using rest by blast
      then show ?thesis by (simp add: settles_def)
    next
      case False
      then have "settles specs st1 r"
        using advance_pass_moved [OF pass 1(3) r False] unfolding settles_def by force
      then show ?thesis using False st'(1) by (rule settles_grows)
    qed
    moreover have "st' k = states k" if "k \<notin> sr_step_key ` set rows" for k
      using st'(3) frame(2,3) that by (simp add: image_image)
    moreover have "set moved = moves rows st'" "distinct (map (\<lambda>m. sr_step_key (fst m)) moved)"
      using moves_split [OF 1(3) frame(1) st'(1)] advance_pass_moves [OF pass 1(3)] mv mv2
      by (simp_all add: frame(3) image_Un [symmetric])
    ultimately show ?thesis using g by blast
  qed
qed

lemma grows_dom: "grows st st' \<Longrightarrow> dom st \<subseteq> dom st'"
  unfolding grows_def dom_def by (auto, metis insertE option.distinct(1) singletonD)

definition lookups_ok :: "(string \<rightharpoonup> step_spec) \<Rightarrow> (string \<rightharpoonup> step_state) \<Rightarrow> step_run_row list \<Rightarrow> bool" where
  "lookups_ok specs st rows \<longleftrightarrow> (\<forall>r \<in> set rows. \<exists>spec. specs (sr_step_key r) = Some spec \<and>
     set (sp_depends_on spec) \<subseteq> dom st)"

lemma lookups_total: "set ks \<subseteq> dom st \<Longrightarrow> \<exists>ds. lookups st ks = Inr ds"
  by (induction ks) (auto simp: lookups_def)

lemma advance_pass_total:
  "lookups_ok specs states rows \<Longrightarrow> \<exists>res. advance_pass specs now rows states = Inr res"
proof (induction rows arbitrary: states)
  case (Cons row rows)
  then obtain spec ds where sp: "specs (sr_step_key row) = Some spec"
    and ds: "mapE (\<lambda>k. of_option KeyError (states k)) (sp_depends_on spec) = Inr ds"
    using lookups_total unfolding lookups_ok_def lookups_def by (metis list.set_intros(1))
  have rest: "\<exists>a b c d. advance_pass specs now rows st = Inr (a, b, c, d)" if "dom states \<subseteq> dom st" for st
  proof -
    have "lookups_ok specs st rows" using Cons.prems that unfolding lookups_ok_def by fastforce
    from Cons.IH [OF this] show ?thesis by auto
  qed
  obtain r1 where "advance_pass specs now rows states = Inr r1" using rest [of states] by auto
  moreover obtain r2 where "advance_pass specs now rows
      (states(sr_step_key row \<mapsto> the (resolve_pending_step ds (sp_dependency_mode spec)))) = Inr r2"
    using rest [of "states(sr_step_key row \<mapsto> the (resolve_pending_step ds (sp_dependency_mode spec)))"]
    by auto
  ultimately show ?case
    using sp ds by (cases r1, cases r2) (auto simp: advance_pass.simps(2) split: option.splits)
qed auto

lemma advance_loop_total:
  assumes "lookups_ok specs states rows" and "tracks states rows"
  shows "\<exists>res. advance_loop specs now rows states = Inr res"
  using assms
proof (induction specs now rows states rule: advance_loop.induct)
  case (1 specs now rows states)
  obtain rows1 st1 mv1 ch where pass: "advance_pass specs now rows states = Inr (rows1, st1, mv1, ch)"
    using advance_pass_total [OF 1(2)] by (metis prod_cases4)
  note frame = advance_pass_frame [OF pass 1(3)]
  show ?case
  proof (cases ch)
    case True
    have "lookups_ok specs st1 rows1"
      using 1(2) grows_dom [OF frame(1)] unfolding lookups_ok_def frame(3) by fastforce
    moreover have "tracks st1 rows1" using tracks_settle [OF 1(3) frame(1)] frame(3) by simp
    ultimately obtain res where "advance_loop specs now rows1 st1 = Inr res"
      using 1(1) [OF pass refl refl refl True] by blast
    with pass True show ?thesis
      by (cases res) (simp add: advance_loop.simps [of specs now rows states])
  qed (use pass in \<open>simp add: advance_loop.simps [of specs now rows states]\<close>)
qed

end
