(* ===== verification/Workflow_Engine.thy ===== *)
theory Workflow_Engine
  imports Workflow_Advance
begin

text \<open>
  The repository operations implement the contract of \<^verbatim>\<open>Workflow_Run_Spec\<close>. A store is
  related to the contract by reading each run's state and its step rows' states; every
  operation that touches a run is one of the contract's moves on that run and leaves all
  other runs, of every tenant, as they are.
\<close>

section \<open>Reading a run\<close>

definition state_of :: "step_run_row list \<Rightarrow> string \<Rightarrow> step_state" where
  "state_of rows k =
     (case map_of (map (\<lambda>r. (sr_step_key r, sr_state r)) rows) k of None \<Rightarrow> Step_PENDING | Some s \<Rightarrow> s)"

definition run_specs :: "workflow_db \<Rightarrow> run_row \<Rightarrow> step_spec list" where
  "run_specs db run = version_specs db (rn_org run) (rn_version_id run)"

definition run_rows :: "workflow_db \<Rightarrow> run_row \<Rightarrow> step_run_row list" where
  "run_rows db run = run_steps db (rn_org run) (rn_id run)"

definition run_view_of :: "workflow_db \<Rightarrow> run_row \<Rightarrow> run_view" where
  "run_view_of db run = \<lparr>vw_run = rn_state run, vw_step = state_of (run_rows db run)\<rparr>"

lemma state_of_row:
  "distinct (map sr_step_key rows) \<Longrightarrow> r \<in> set rows \<Longrightarrow> state_of rows (sr_step_key r) = sr_state r"
  unfolding state_of_def by (subst map_of_is_SomeI [where y = "sr_state r"]) (auto simp: o_def)

lemma state_of_other: "k \<notin> sr_step_key ` set rows \<Longrightarrow> state_of rows k = Step_PENDING"
  unfolding state_of_def by (subst map_of_eq_None_iff [THEN iffD2]) (auto simp: image_image)

lemma state_of_eqI:
  assumes "distinct (map sr_step_key rows)"
    and "\<And>r. r \<in> set rows \<Longrightarrow> h (sr_step_key r) = sr_state r"
    and "\<And>k. k \<notin> sr_step_key ` set rows \<Longrightarrow> h k = Step_PENDING"
  shows "state_of rows = h"
proof
  fix k show "state_of rows k = h k"
  proof (cases "k \<in> sr_step_key ` set rows")
    case True
    then show ?thesis using assms(1,2) state_of_row by auto
  qed (use assms(3) state_of_other in simp)
qed

section \<open>Updates of one run\<close>

definition in_run :: "uuid \<Rightarrow> uuid \<Rightarrow> step_run_row \<Rightarrow> bool" where
  "in_run org rid r \<longleftrightarrow> sr_org r = org \<and> sr_run_id r = rid"

definition keeps_run :: "(run_row \<Rightarrow> run_row) \<Rightarrow> bool" where
  "keeps_run g \<longleftrightarrow> (\<forall>r. rn_id (g r) = rn_id r \<and> rn_org (g r) = rn_org r \<and>
     rn_version_id (g r) = rn_version_id r \<and> rn_idempotency_key (g r) = rn_idempotency_key r \<and>
     rn_request_fingerprint (g r) = rn_request_fingerprint r \<and> rn_input (g r) = rn_input r)"

definition keeps_step :: "(step_run_row \<Rightarrow> step_run_row) \<Rightarrow> bool" where
  "keeps_step f \<longleftrightarrow> (\<forall>r. sr_id (f r) = sr_id r \<and> sr_org (f r) = sr_org r \<and>
     sr_run_id (f r) = sr_run_id r \<and> sr_version_step_id (f r) = sr_version_step_id r \<and>
     sr_step_key (f r) = sr_step_key r \<and> sr_max_attempts (f r) = sr_max_attempts r)"

text \<open>\<open>db'\<close> is \<open>db\<close> with run \<open>rid\<close> changed by \<open>g\<close> and its steps by \<open>f\<close>.\<close>

definition run_update ::
  "workflow_db \<Rightarrow> uuid \<Rightarrow> uuid \<Rightarrow> (run_row \<Rightarrow> run_row) \<Rightarrow> (step_run_row \<Rightarrow> step_run_row) \<Rightarrow> workflow_db \<Rightarrow> bool" where
  "run_update db org rid g f db' \<longleftrightarrow> keeps_run g \<and> keeps_step f \<and>
     wf_definitions db' = wf_definitions db \<and> wf_versions db' = wf_versions db \<and>
     wf_version_steps db' = wf_version_steps db \<and>
     wf_runs db' = update_where (\<lambda>r. rn_id r = rid) g (wf_runs db) \<and>
     wf_step_runs db' = update_where (in_run org rid) f (wf_step_runs db) \<and>
     wf_next_id db \<le> wf_next_id db'"

lemma keeps_run_id [simp]: "keeps_run (\<lambda>r. r)"
  by (simp add: keeps_run_def)

lemma keeps_step_id [simp]: "keeps_step (\<lambda>r. r)"
  by (simp add: keeps_step_def)

lemma keeps_step_if [simp]: "keeps_step f \<Longrightarrow> keeps_step (\<lambda>r. if p r then f r else r)"
  by (simp add: keeps_step_def)

lemma keeps_step_settle [simp]: "keeps_step (settle_row now st)"
  by (simp add: keeps_step_def)

lemma update_where_ident [simp]: "update_where p (\<lambda>r. r) rows = rows"
  by (simp add: update_where_def)

lemma run_update_trans:
  assumes "run_update db org rid g1 f1 db1" and "run_update db1 org rid g2 f2 db2"
  shows "run_update db org rid (\<lambda>r. g2 (g1 r)) (\<lambda>r. f2 (f1 r)) db2"
  using assms unfolding run_update_def
  by (auto simp: update_where_def keeps_run_def keeps_step_def in_run_def)

lemma run_update_history:
  "run_update db org rid (\<lambda>r. r) (\<lambda>r. r) (db\<lparr>wf_history := h\<rparr>)"
  by (simp add: run_update_def)

lemma run_update_refl: "run_update db org rid (\<lambda>r. r) (\<lambda>r. r) db"
  by (simp add: run_update_def)

lemma run_steps_in_run: "run_steps db org rid = filter (in_run org rid) (wf_step_runs db)"
  by (simp add: run_steps_def in_run_def [abs_def])

lemma run_update_steps:
  assumes "run_update db org rid g f db'"
  shows "run_steps db' org rid = map f (run_steps db org rid)"
    and "(org', rid') \<noteq> (org, rid) \<Longrightarrow> run_steps db' org' rid' = run_steps db org' rid'"
proof -
  have f: "in_run o' i' (f r) = in_run o' i' r" for o' i' r
    using assms by (simp add: run_update_def keeps_step_def in_run_def)
  have s: "wf_step_runs db' = update_where (in_run org rid) f (wf_step_runs db)"
    using assms by (simp add: run_update_def)
  show "run_steps db' org rid = map f (run_steps db org rid)"
    unfolding run_steps_in_run s filter_update_where [where q = "in_run org rid", OF f]
    by (simp add: update_where_def)
  assume ne: "(org', rid') \<noteq> (org, rid)"
  show "run_steps db' org' rid' = run_steps db org' rid'"
    unfolding run_steps_in_run s filter_update_where [where q = "in_run org' rid'", OF f]
    using ne by (intro update_where_id) (auto simp: in_run_def)
qed


section \<open>The invariant of a store\<close>

definition row_ok :: "step_run_row \<Rightarrow> bool" where
  "row_ok r \<longleftrightarrow> sr_next_eligible_at r = None \<and> 0 \<le> sr_attempt_count r \<and>
     sr_attempt_count r \<le> sr_max_attempts r \<and>
     (open_state (sr_state r) \<longrightarrow> sr_attempt_count r < sr_max_attempts r) \<and>
     (sr_state r = Step_RUNNING \<longrightarrow> sr_execution_owner_id r \<noteq> None \<and> sr_claim_token r \<noteq> None) \<and>
     (sr_state r = Step_COMPLETED \<longrightarrow> sr_output r \<noteq> None)"

text \<open>The version step row a step run points to is the specification of its own key.\<close>

definition linked :: "workflow_db \<Rightarrow> run_row \<Rightarrow> step_run_row \<Rightarrow> bool" where
  "linked db run r \<longleftrightarrow> (\<exists>s \<in> set (run_specs db run).
     spec_for_step db (rn_org run) (sr_version_step_id r) = Inr s \<and> sp_key s = sr_step_key r \<and>
     sr_max_attempts r = rp_max_attempts (sp_retry s))"

definition run_struct :: "workflow_db \<Rightarrow> run_row \<Rightarrow> bool" where
  "run_struct db run \<longleftrightarrow> graph_wf (run_specs db run) \<and>
     distinct (map sr_step_key (run_rows db run)) \<and>
     sr_step_key ` set (run_rows db run) = sp_key ` set (run_specs db run) \<and>
     (\<forall>r \<in> set (run_rows db run). linked db run r)"

definition run_ok :: "workflow_db \<Rightarrow> run_row \<Rightarrow> bool" where
  "run_ok db run \<longleftrightarrow> run_struct db run \<and> (\<forall>s \<in> set (run_specs db run). step_spec_valid s) \<and> (\<forall>r \<in> set (run_rows db run). row_ok r) \<and>
     run_inv (run_specs db run) (run_view_of db run)"

definition ids_ok :: "workflow_db \<Rightarrow> bool" where
  "ids_ok db \<longleftrightarrow>
     distinct (map rn_id (wf_runs db)) \<and> distinct (map sr_id (wf_step_runs db)) \<and>
     distinct (map vs_id (wf_version_steps db)) \<and> distinct (map vr_id (wf_versions db)) \<and>
     (\<forall>r \<in> set (wf_runs db). rn_id r < wf_next_id db \<and> rn_version_id r < wf_next_id db) \<and>
     (\<forall>r \<in> set (wf_step_runs db). sr_id r < wf_next_id db \<and> sr_run_id r < wf_next_id db \<and>
        (\<forall>t. sr_claim_token r = Some t \<longrightarrow> t < wf_next_id db)) \<and>
     (\<forall>v \<in> set (wf_version_steps db). vs_id v < wf_next_id db \<and> vs_version_id v < wf_next_id db) \<and>
     (\<forall>v \<in> set (wf_versions db). vr_id v < wf_next_id db) \<and>
     distinct (map df_id (wf_definitions db)) \<and> (\<forall>d \<in> set (wf_definitions db). df_id d < wf_next_id db)"

definition published_ok :: "workflow_db \<Rightarrow> bool" where
  "published_ok db \<longleftrightarrow>
     (\<forall>d \<in> set (wf_definitions db). \<forall>s \<in> set (df_draft_steps d). step_spec_valid s) \<and>
     (\<forall>v \<in> set (wf_versions db). graph_wf (version_specs db (vr_org v) (vr_id v)) \<and>
        (\<forall>s \<in> set (version_specs db (vr_org v) (vr_id v)). step_spec_valid s))"

definition store_inv :: "workflow_db \<Rightarrow> bool" where
  "store_inv db \<longleftrightarrow> ids_ok db \<and> published_ok db \<and> (\<forall>run \<in> set (wf_runs db). run_ok db run)"

lemma run_update_specs:
  assumes "run_update db org rid g f db'"
  shows "version_specs db' = version_specs db" and "spec_for_step db' = spec_for_step db"
  using assms by (auto simp: run_update_def fun_eq_iff version_specs_def version_step_rows_def spec_for_step_def)

lemma run_update_ids:
  assumes upd: "run_update db org rid g f db'" and ids: "ids_ok db"
    and tok: "\<And>r t. r \<in> set (run_steps db org rid) \<Longrightarrow> sr_claim_token (f r) = Some t \<Longrightarrow>
      sr_claim_token r = Some t \<or> t < wf_next_id db'"
  shows "ids_ok db'"
proof -
  have le: "wf_next_id db \<le> wf_next_id db'" using upd by (simp add: run_update_def)
  have "map rn_id (wf_runs db') = map rn_id (wf_runs db)"
    "map sr_id (wf_step_runs db') = map sr_id (wf_step_runs db)"
    using upd by (simp_all add: run_update_def keeps_run_def keeps_step_def map_update_where)
  moreover have "rn_id r < wf_next_id db' \<and> rn_version_id r < wf_next_id db'"
    if "r \<in> set (wf_runs db')" for r
  proof -
    from that upd obtain r0 where "r0 \<in> set (wf_runs db)" "rn_id r = rn_id r0" "rn_version_id r = rn_version_id r0"
      by (auto simp: run_update_def set_update_where keeps_run_def split: if_splits)
    with ids le show ?thesis by (auto simp: ids_ok_def)
  qed
  moreover have "sr_id r < wf_next_id db' \<and> sr_run_id r < wf_next_id db' \<and>
      (\<forall>t. sr_claim_token r = Some t \<longrightarrow> t < wf_next_id db')" if "r \<in> set (wf_step_runs db')" for r
  proof -
    from that upd obtain r0 where r0: "r0 \<in> set (wf_step_runs db)" "sr_id r = sr_id r0" "sr_run_id r = sr_run_id r0"
      "r = r0 \<or> (in_run org rid r0 \<and> r = f r0)"
      by (auto simp: run_update_def set_update_where keeps_step_def split: if_splits)
    then have lt: "sr_id r0 < wf_next_id db" "sr_run_id r0 < wf_next_id db"
      and old: "sr_claim_token r0 = Some t \<Longrightarrow> t < wf_next_id db" for t
      using ids by (auto simp: ids_ok_def)
    have "t < wf_next_id db'" if "sr_claim_token r = Some t" for t
      using that tok [of r0 t] old [of t] le r0 by (auto simp: run_steps_in_run)
    with r0 lt le show ?thesis by auto
  qed
  ultimately show ?thesis using ids upd le
    by (auto simp: ids_ok_def run_update_def)
qed

lemma run_update_struct:
  assumes upd: "run_update db org rid g f db'" and ok: "run_struct db run"
    and same: "rn_org run' = rn_org run" "rn_id run' = rn_id run" "rn_version_id run' = rn_version_id run"
  shows "run_struct db' run'"
proof -
  have specs: "run_specs db' run' = run_specs db run"
    using run_update_specs(1) [OF upd] same by (simp add: run_specs_def)
  have ks: "keeps_step f" using upd by (simp add: run_update_def)
  show ?thesis
  proof (cases "(rn_org run, rn_id run) = (org, rid)")
    case True
    then have rr: "run_rows db' run' = map f (run_rows db run)"
      using run_update_steps(1) [OF upd] same by (simp add: run_rows_def)
    have "linked db' run' (f x)" if "x \<in> set (run_rows db run)" for x
      using ok that ks run_update_specs(2) [OF upd] same specs
      unfolding run_struct_def linked_def by (auto simp: keeps_step_def)
    then show ?thesis using ok ks unfolding run_struct_def rr specs
      by (auto simp: keeps_step_def image_image o_def)
  next
    case False
    then have rr: "run_rows db' run' = run_rows db run"
      using run_update_steps(2) [OF upd] same by (simp add: run_rows_def)
    show ?thesis using ok run_update_specs(2) [OF upd] same
      unfolding run_struct_def rr specs linked_def by simp
  qed
qed

text \<open>
  The frame rule: an update that keeps the rows of its run sound and takes the run by moves
  of the contract keeps the invariant of the whole store.
\<close>

lemma run_update_inv:
  assumes upd: "run_update db org (rn_id run) g f db'" and inv: "store_inv db"
    and run: "run \<in> set (wf_runs db)" and org: "rn_org run = org"
    and rows: "\<And>r. r \<in> set (run_rows db run) \<Longrightarrow> row_ok (f r)"
    and tok: "\<And>r t. r \<in> set (run_rows db run) \<Longrightarrow> sr_claim_token (f r) = Some t \<Longrightarrow>
      sr_claim_token r = Some t \<or> t < wf_next_id db'"
    and step: "(run_step (run_specs db run))\<^sup>*\<^sup>* (run_view_of db run)
      \<lparr>vw_run = rn_state (g run), vw_step = state_of (map f (run_rows db run))\<rparr>"
  shows "store_inv db'"
proof -
  note specs = run_update_specs [OF upd]
  have ids: "ids_ok db'"
    using upd inv tok by (intro run_update_ids [OF upd]) (auto simp: store_inv_def run_rows_def org)
  have kr: "keeps_run g" and ks: "keeps_step f" using upd by (auto simp: run_update_def)
  have "published_ok db'"
    using inv upd specs by (simp add: store_inv_def published_ok_def run_update_def)
  moreover have "run_ok db' r" if "r \<in> set (wf_runs db')" for r
  proof -
    from that upd obtain r0 where r0: "r0 \<in> set (wf_runs db)"
      and r: "r = (if rn_id r0 = rn_id run then g r0 else r0)"
      by (auto simp: run_update_def set_update_where)
    have same: "rn_org r = rn_org r0" "rn_id r = rn_id r0" "run_specs db' r = run_specs db r0"
      using r kr specs by (auto simp: keeps_run_def run_specs_def)
    have ok: "run_ok db r0" using inv r0 by (simp add: store_inv_def)
    show ?thesis
    proof (cases "rn_id r0 = rn_id run")
      case True
      then have eq: "r0 = run" using inv r0 run by (auto simp: store_inv_def ids_ok_def dest: distinct_map_inj)
      have rr: "run_rows db' r = map f (run_rows db run)"
        using run_update_steps(1) [OF upd] same eq org by (simp add: run_rows_def)
      have "graph_wf (run_specs db run)" using ok eq by (simp add: run_ok_def run_struct_def)
      then have "run_inv (run_specs db run) \<lparr>vw_run = rn_state (g run), vw_step = state_of (map f (run_rows db run))\<rparr>"
        using run_sys.steps_inv [OF step] ok eq by (simp add: run_ok_def)
      moreover have "run_struct db' r"
        using ok eq same kr r by (intro run_update_struct [OF upd, of run]) (auto simp: run_ok_def keeps_run_def)
      ultimately show ?thesis
        using ok rows same rr r True unfolding run_ok_def eq by (auto simp: run_view_of_def)
    next
      case False
      then have rr: "run_rows db' r = run_rows db r0"
        using run_update_steps(2) [OF upd] same by (simp add: run_rows_def)
      have "r = r0" using r False by simp
      then have "run_struct db' r"
        using ok by (intro run_update_struct [OF upd, of r0]) (auto simp: run_ok_def)
      with ok \<open>r = r0\<close> same rr show ?thesis unfolding run_ok_def run_view_of_def by simp
    qed
  qed
  ultimately show ?thesis using ids by (simp add: store_inv_def)
qed


section \<open>The building blocks of the operations\<close>

lemma add_transition_simps [db_simps]:
  "wf_runs (add_transition run st a b c d e db) = wf_runs db"
  "wf_step_runs (add_transition run st a b c d e db) = wf_step_runs db"
  "wf_definitions (add_transition run st a b c d e db) = wf_definitions db"
  "wf_versions (add_transition run st a b c d e db) = wf_versions db"
  "wf_version_steps (add_transition run st a b c d e db) = wf_version_steps db"
  "wf_next_id (add_transition run st a b c d e db) = wf_next_id db"
  by (simp_all add: add_transition_def)

lemma record_moves_simps [db_simps]:
  "wf_runs (record_moves run now mv db) = wf_runs db"
  "wf_step_runs (record_moves run now mv db) = wf_step_runs db"
  "wf_definitions (record_moves run now mv db) = wf_definitions db"
  "wf_versions (record_moves run now mv db) = wf_versions db"
  "wf_version_steps (record_moves run now mv db) = wf_version_steps db"
  "wf_next_id (record_moves run now mv db) = wf_next_id db"
  by (induction run now mv db rule: record_moves.induct) (simp_all add: db_simps)

lemma put_step:
  assumes "distinct (map sr_id (wf_step_runs db))" and "row \<in> set (run_steps db org rid)"
    and "keeps_step u"
  shows "put_rows sr_id [u row] (wf_step_runs db) =
    update_where (in_run org rid) (\<lambda>r. if sr_id r = sr_id row then u r else r) (wf_step_runs db)"
proof -
  have row: "row \<in> set (wf_step_runs db)" "in_run org rid row"
    using assms(2) by (auto simp: run_steps_in_run)
  then have "r = row" if "r \<in> set (wf_step_runs db)" "sr_id r = sr_id row" for r
    using that assms(1) by (metis distinct_map_inj)
  then show ?thesis using assms(3) row
    by (auto simp: put_rows_def update_where_def keeps_step_def)
qed

definition moved_run :: "run_state \<Rightarrow> string \<Rightarrow> time \<Rightarrow> run_row \<Rightarrow> run_row" where
  "moved_run target reason now row =
     (let row1 = row\<lparr>rn_state := target, rn_state_version := rn_state_version row + 1,
             rn_updated_at := now,
             rn_error_code := (if target = Run_FAILED then Some reason else rn_error_code row)\<rparr>
      in if target \<in> {Run_COMPLETED, Run_FAILED, Run_CANCELLED}
         then row1\<lparr>rn_ended_at := Some now, rn_terminal_reason := Some reason\<rparr> else row1)"

lemma moved_run_simps [simp]:
  "rn_id (moved_run t why now r) = rn_id r" "rn_org (moved_run t why now r) = rn_org r"
  "rn_version_id (moved_run t why now r) = rn_version_id r"
  "rn_idempotency_key (moved_run t why now r) = rn_idempotency_key r"
  "rn_request_fingerprint (moved_run t why now r) = rn_request_fingerprint r"
  "rn_input (moved_run t why now r) = rn_input r"
  "rn_state (moved_run t why now r) = t"
  "rn_state_version (moved_run t why now r) = rn_state_version r + 1"
  by (simp_all add: moved_run_def Let_def)

lemma transition_run_row_eq:
  "transition_run_row db row target reason now =
     bindE (require_workflow_transition (rn_state row) target) (\<lambda>_.
       Inr (add_transition (moved_run target reason now row) None (Some (run_state_value (rn_state row)))
              (run_state_value target) reason ''ENGINE'' now
              (db\<lparr>wf_runs := put_rows rn_id [moved_run target reason now row] (wf_runs db)\<rparr>),
            moved_run target reason now row))"
  by (simp only: transition_run_row_def moved_run_def Let_def)

lemma transition_run_row_update:
  assumes ids: "distinct (map rn_id (wf_runs db))" and r0: "r0 \<in> set (wf_runs db)" and h: "keeps_run h"
    and tr: "transition_run_row db (h r0) target reason now = Inr (db', row')"
  shows "row' = moved_run target reason now (h r0)"
    and "target \<in> set (workflow_transitions (rn_state (h r0)))"
    and "run_update db org (rn_id r0) (\<lambda>r. moved_run target reason now (h r)) (\<lambda>r. r) db'"
proof -
  show "row' = moved_run target reason now (h r0)" "target \<in> set (workflow_transitions (rn_state (h r0)))"
    using tr by (auto simp: transition_run_row_eq require_workflow_transition_def split: if_splits)
  have hr0: "rn_id (h r0) = rn_id r0" using h by (simp add: keeps_run_def)
  have "r = r0" if "r \<in> set (wf_runs db)" "rn_id r = rn_id r0" for r
    using that ids r0 by (metis distinct_map_inj)
  then have "put_rows rn_id [moved_run target reason now (h r0)] (wf_runs db) =
      update_where (\<lambda>r. rn_id r = rn_id r0) (\<lambda>r. moved_run target reason now (h r)) (wf_runs db)"
    using hr0 by (auto simp: put_rows_def update_where_def)
  moreover have "keeps_run (\<lambda>r. moved_run target reason now (h r))"
    using h by (simp add: keeps_run_def)
  ultimately show "run_update db org (rn_id r0) (\<lambda>r. moved_run target reason now (h r)) (\<lambda>r. r) db'"
    using tr by (auto simp: transition_run_row_eq run_update_def db_simps)
qed


definition mark :: "step_state \<Rightarrow> time \<Rightarrow> step_run_row \<Rightarrow> step_run_row" where
  "mark target now r = r\<lparr>sr_state := target, sr_updated_at := now\<rparr>"

lemma mark_simps [simp]:
  "sr_id (mark t now r) = sr_id r" "sr_org (mark t now r) = sr_org r" "sr_run_id (mark t now r) = sr_run_id r"
  "sr_version_step_id (mark t now r) = sr_version_step_id r" "sr_step_key (mark t now r) = sr_step_key r"
  "sr_max_attempts (mark t now r) = sr_max_attempts r" "sr_state (mark t now r) = t"
  "sr_attempt_count (mark t now r) = sr_attempt_count r" "sr_claim_token (mark t now r) = sr_claim_token r"
  "sr_execution_owner_id (mark t now r) = sr_execution_owner_id r" "sr_output (mark t now r) = sr_output r"
  "sr_next_eligible_at (mark t now r) = sr_next_eligible_at r"
  by (simp_all add: mark_def)

lemma keeps_step_mark [simp]: "keeps_step (mark t now)"
  by (simp add: keeps_step_def)

lemma skip_rows_frame [db_simps]:
  "wf_runs (skip_rows run why t now rs db) = wf_runs db"
  "wf_definitions (skip_rows run why t now rs db) = wf_definitions db"
  "wf_versions (skip_rows run why t now rs db) = wf_versions db"
  "wf_version_steps (skip_rows run why t now rs db) = wf_version_steps db"
  "wf_next_id (skip_rows run why t now rs db) = wf_next_id db"
  by (induction run why t now rs db rule: skip_rows.induct) (simp_all add: db_simps)

lemma skip_rows_steps:
  assumes "distinct (map sr_id (wf_step_runs db))" and "distinct (map sr_id rs)"
    and "set rs \<subseteq> set (wf_step_runs db)"
  shows "wf_step_runs (skip_rows run why t now rs db) =
    map (\<lambda>r. if sr_id r \<in> sr_id ` set rs then mark t now r else r) (wf_step_runs db)"
  using assms
proof (induction rs arbitrary: db)
  case (Cons row rs)
  let ?put = "put_rows sr_id [mark t now row] (wf_step_runs db)"
  have uniq: "r = row" if "r \<in> set (wf_step_runs db)" "sr_id r = sr_id row" for r
    using that Cons.prems by (metis distinct_map_inj list.set_intros(1) subsetD)
  have put: "?put = map (\<lambda>r. if sr_id r = sr_id row then mark t now r else r) (wf_step_runs db)"
    using uniq by (auto simp: put_rows_def)
  have "map sr_id ?put = map sr_id (wf_step_runs db)" unfolding put by simp
  moreover have "set rs \<subseteq> set ?put"
  proof
    fix r assume r: "r \<in> set rs"
    with Cons.prems(2) have "sr_id r \<noteq> sr_id row" by (metis distinct.simps(2) imageI list.simps(9) set_map)
    with r Cons.prems(3) show "r \<in> set ?put" unfolding put by force
  qed
  ultimately have "wf_step_runs (skip_rows run why t now (row # rs) db) =
      map (\<lambda>r. if sr_id r \<in> sr_id ` set rs then mark t now r else r) ?put"
    using Cons by (simp add: db_simps mark_def [symmetric])
  also have "\<dots> = map (\<lambda>r. if sr_id r \<in> sr_id ` set (row # rs) then mark t now r else r) (wf_step_runs db)"
    using Cons.prems(2) unfolding put by auto
  finally show ?case .
qed simp

lemma skip_rows_update:
  assumes ids: "distinct (map sr_id (wf_step_runs db))"
  shows "run_update db org rid (\<lambda>r. r) (\<lambda>r. if p r then mark t now r else r)
    (skip_rows run why t now (filter p (run_steps db org rid)) db)"
proof -
  let ?rs = "filter p (run_steps db org rid)"
  have sub: "set ?rs \<subseteq> set (wf_step_runs db)" and d: "distinct (map sr_id ?rs)"
    using ids by (auto simp: run_steps_in_run distinct_map inj_on_def)
  have "sr_id r \<in> sr_id ` set ?rs \<longleftrightarrow> in_run org rid r \<and> p r" if "r \<in> set (wf_step_runs db)" for r
    using that ids by (auto simp: run_steps_in_run dest: distinct_map_inj)
  then have "wf_step_runs (skip_rows run why t now ?rs db) =
      update_where (in_run org rid) (\<lambda>r. if p r then mark t now r else r) (wf_step_runs db)"
    unfolding skip_rows_steps [OF ids d sub] update_where_def by auto
  then show ?thesis by (simp add: run_update_def db_simps)
qed

section \<open>Advancing refines settling\<close>

lemma row_specs_map_of:
  assumes "row_specs db org rows = Inr specs" and "distinct (map sr_step_key rows)" and "r \<in> set rows"
    and "spec_for_step db org (sr_version_step_id r) = Inr s"
  shows "map_of specs (sr_step_key r) = Some s"
proof -
  have l: "list_all2 (\<lambda>r e. bindE (spec_for_step db org (sr_version_step_id r))
      (\<lambda>s. Inr (sr_step_key r, s)) = Inr e) rows specs"
    using assms(1) by (simp add: row_specs_def mapE_Inr)
  then have "map fst specs = map sr_step_key rows"
    by (induction rule: list_all2_induct) auto
  then have "distinct (map fst specs)" using assms(2) by simp
  moreover have "(sr_step_key r, s) \<in> set specs"
    using l assms(3,4) by (induction rule: list_all2_induct) auto
  ultimately show ?thesis by simp
qed

lemma row_specs_total:
  assumes "run_struct db run"
  shows "\<exists>specs. row_specs db (rn_org run) (run_rows db run) = Inr specs"
  unfolding row_specs_def
proof (rule mapE_total)
  fix r assume "r \<in> set (run_rows db run)"
  then obtain s where "spec_for_step db (rn_org run) (sr_version_step_id r) = Inr s"
    using assms by (auto simp: run_struct_def linked_def)
  then show "\<exists>y. bindE (spec_for_step db (rn_org run) (sr_version_step_id r))
      (\<lambda>s. Inr (sr_step_key r, s)) = Inr y" by simp
qed

lemma tracks_rows:
  assumes "distinct (map sr_step_key rows)"
  shows "tracks (map_of (map (\<lambda>r. (sr_step_key r, sr_state r)) rows)) (sort_key sr_step_key rows)"
  using assms by (auto simp: tracks_def distinct_map o_def intro!: map_of_is_SomeI)

lemma put_rows_settle:
  assumes "distinct (map sr_id (wf_step_runs db))"
  shows "put_rows sr_id (map (settle_row now st) (sort_key sr_step_key (run_steps db org rid))) (wf_step_runs db)
    = update_where (in_run org rid) (settle_row now st) (wf_step_runs db)"
  using assms by (intro put_rows_update_where) (auto simp: run_steps_in_run)

text \<open>The rows the loop leaves are the settled states of the contract.\<close>

lemma advance_loop_settled:
  assumes struct: "run_struct db run" and specs: "row_specs db (rn_org run) (run_rows db run) = Inr specs"
    and st0: "states = map_of (map (\<lambda>r. (sr_step_key r, sr_state r)) (run_rows db run))"
    and loop: "advance_loop (map_of specs) now (sort_key sr_step_key (run_rows db run)) states = Inr (rows, moved)"
  obtains st' where "rows = map (settle_row now st') (sort_key sr_step_key (run_rows db run))"
    and "settled (run_specs db run) (state_of (run_rows db run))
           (state_of (map (settle_row now st') (run_rows db run)))"
    and "set moved = moves (run_rows db run) st'" and "distinct (map (\<lambda>m. sr_step_key (fst m)) moved)"
    and "\<And>r. r \<in> set (run_rows db run) \<Longrightarrow> st' (sr_step_key r) = Some (sr_state (settle_row now st' r))"
    and "\<And>r t. r \<in> set (run_rows db run) \<Longrightarrow> sr_state r = Step_PENDING \<Longrightarrow> st' (sr_step_key r) = Some t \<Longrightarrow>
      t \<in> {Step_PENDING, Step_READY, Step_SKIPPED}"
proof -
  let ?rs = "run_rows db run"
  have d: "distinct (map sr_step_key ?rs)" using struct by (simp add: run_struct_def)
  then have tr: "tracks states (sort_key sr_step_key ?rs)" unfolding st0 by (rule tracks_rows)
  then obtain st' where g: "grows states st'"
    and rows: "rows = map (settle_row now st') (sort_key sr_step_key ?rs)"
    and done': "\<forall>r \<in> set ?rs. sr_state r = Step_PENDING \<longrightarrow> settles (map_of specs) st' r"
    and mv: "set moved = moves (sort_key sr_step_key ?rs) st'" "distinct (map (\<lambda>m. sr_step_key (fst m)) moved)"
    using advance_loop_result [OF loop tr] by auto
  have st': "st' (sr_step_key r) = Some (sr_state (settle_row now st' r))" if "r \<in> set ?rs" for r
    using settle_row_state [OF tr g] that by simp
  let ?st' = "state_of (map (settle_row now st') ?rs)"
  have view: "?st' (sr_step_key r) = sr_state (settle_row now st' r)" if "r \<in> set ?rs" for r
    using state_of_row [of "map (settle_row now st') ?rs" "settle_row now st' r"] d that by (simp add: o_def)
  have "?st' (sp_key s) = settled_state (state_of ?rs) ?st' s" if s: "s \<in> set (run_specs db run)" for s
  proof -
    have "sp_key s \<in> sr_step_key ` set ?rs" using struct s by (simp add: run_struct_def)
    then obtain r where r: "r \<in> set ?rs" "sr_step_key r = sp_key s" by (metis imageE)
    have old: "state_of ?rs (sp_key s) = sr_state r" using state_of_row [OF d r(1)] r(2) by simp
    show ?thesis
    proof (cases "sr_state r = Step_PENDING")
      case True
      obtain t where "resolves (map_of specs) st' (sr_step_key r) t"
        and t: "st' (sr_step_key r) = Some (case t of None \<Rightarrow> Step_PENDING | Some u \<Rightarrow> u)"
        using done' r(1) True unfolding settles_def by blast
      then obtain sp ds where sp: "map_of specs (sr_step_key r) = Some sp"
        and ds: "lookups st' (sp_depends_on sp) = Inr ds"
        and res: "resolve_pending_step ds (sp_dependency_mode sp) = t"
        unfolding resolves_def by blast
      have "sp = s"
      proof -
        obtain s' where s': "s' \<in> set (run_specs db run)" "sp_key s' = sr_step_key r"
          "spec_for_step db (rn_org run) (sr_version_step_id r) = Inr s'"
          using struct r(1) by (auto simp: run_struct_def linked_def)
        have "distinct (map sp_key (run_specs db run))"
          using struct by (simp add: run_struct_def graph_wf_keys)
        then have "s' = s" using s' s r(2) by (metis distinct_map_inj)
        moreover have "map_of specs (sr_step_key r) = Some s'"
          using row_specs_map_of [OF specs d r(1) s'(3)] .
        ultimately show ?thesis using sp by simp
      qed
      have "ds = map ?st' (sp_depends_on s)"
      proof (rule nth_equalityI)
        have e: "map st' (sp_depends_on s) = map Some ds" using ds \<open>sp = s\<close> by (simp add: lookups_Inr)
        then show len: "length ds = length (map ?st' (sp_depends_on s))"
          by (metis length_map)
        fix i assume i: "i < length ds"
        then have "sp_depends_on s ! i \<in> set (sp_depends_on s)" using len by simp
        then have "sp_depends_on s ! i \<in> sr_step_key ` set ?rs"
          using struct s by (simp add: run_struct_def graph_wf_deps)
        then obtain q where q: "q \<in> set ?rs" "sr_step_key q = sp_depends_on s ! i" by (metis imageE)
        have "st' (sp_depends_on s ! i) = Some (ds ! i)"
          using arg_cong [OF e, of "\<lambda>l. l ! i"] i len by simp
        with st' [OF q(1)] view [OF q(1)] q(2) i len show "ds ! i = map ?st' (sp_depends_on s) ! i" by simp
      qed
      with res \<open>sp = s\<close> have "resolution ?st' s = t" by (simp add: resolution_def)
      moreover have "?st' (sp_key s) = (case t of None \<Rightarrow> Step_PENDING | Some u \<Rightarrow> u)"
        using view [OF r(1)] st' [OF r(1)] t r(2) by simp
      ultimately show ?thesis using old True by (simp add: settled_state_def)
    next
      case False
      then have "sr_state (settle_row now st' r) = sr_state r"
        by (simp add: settle_row_def split: option.splits)
      then show ?thesis using view [OF r(1)] r(2) old False by (simp add: settled_state_def)
    qed
  qed
  then have "settled (run_specs db run) (state_of ?rs) ?st'" by (simp add: settled_def)
  moreover have "set moved = moves ?rs st'" using mv(1) by (simp add: moves_def)
  moreover have "t \<in> {Step_PENDING, Step_READY, Step_SKIPPED}"
    if "r \<in> set ?rs" "sr_state r = Step_PENDING" "st' (sr_step_key r) = Some t" for r t
  proof -
    have "states (sr_step_key r) = Some Step_PENDING" using tr that by (simp add: tracks_def)
    with g have "st' (sr_step_key r) \<in> {Some Step_PENDING, Some Step_READY, Some Step_SKIPPED}"
      unfolding grows_def by blast
    with that show ?thesis by simp
  qed
  ultimately show thesis using that rows mv(2) st' by blast
qed


lemma settle_row_empty [simp]: "settle_row now Map.empty = (\<lambda>r. r)"
  by (simp add: settle_row_def fun_eq_iff)

lemma all_done_rows:
  assumes "run_struct db run" and "keeps_step f"
  shows "list_all (\<lambda>r. step_done (sr_state (f r))) (sort_key sr_step_key (run_rows db run)) \<longleftrightarrow>
    all_done (run_specs db run) (state_of (map f (run_rows db run)))"
proof -
  let ?rs = "run_rows db run"
  have d: "distinct (map sr_step_key ?rs)" and k: "sr_step_key ` set ?rs = sp_key ` set (run_specs db run)"
    using assms(1) by (auto simp: run_struct_def)
  have "state_of (map f ?rs) (sr_step_key r) = sr_state (f r)" if "r \<in> set ?rs" for r
    using state_of_row [of "map f ?rs" "f r"] assms(2) d that by (simp add: o_def keeps_step_def)
  then have "(\<forall>r \<in> set ?rs. step_done (sr_state (f r))) \<longleftrightarrow>
      (\<forall>k \<in> sr_step_key ` set ?rs. step_done (state_of (map f ?rs) k))" by simp
  then show ?thesis unfolding k by (simp add: list_all_iff all_done_def)
qed

lemma advance_update:
  assumes ids: "ids_ok db" and run: "run \<in> set (wf_runs db)" and struct: "run_struct db run"
    and adv: "advance db (rn_org run) run now = Inr (db', run')"
  obtains g st' where "run_update db (rn_org run) (rn_id run) g (settle_row now st') db'" and "run' = g run"
    and "rn_state run \<noteq> Run_RUNNING \<Longrightarrow> st' = Map.empty \<and> run' = run"
    and "rn_state run = Run_RUNNING \<Longrightarrow> wake (run_specs db run) Run_RUNNING (state_of (run_rows db run))
        \<lparr>vw_run = rn_state run', vw_step = state_of (map (settle_row now st') (run_rows db run))\<rparr>"
    and "wf_next_id db' = wf_next_id db"
    and "\<And>r t. r \<in> set (run_rows db run) \<Longrightarrow> sr_state r = Step_PENDING \<Longrightarrow> st' (sr_step_key r) = Some t \<Longrightarrow>
      t \<in> {Step_PENDING, Step_READY, Step_SKIPPED}"
proof (cases "rn_state run = Run_RUNNING")
  case False
  with adv have "db' = db" "run' = run" by (auto simp: advance_def Let_def)
  then show thesis using False run_update_refl by (intro that [of "\<lambda>r. r" Map.empty]) simp_all
next
  case True
  let ?rs = "run_rows db run"
  let ?st = "map_of (map (\<lambda>r. (sr_step_key r, sr_state r)) ?rs)"
  from adv True obtain specs rows moved where specs: "row_specs db (rn_org run) ?rs = Inr specs"
    and loop: "advance_loop (map_of specs) now (sort_key sr_step_key ?rs) ?st = Inr (rows, moved)"
    by (auto simp: advance_def Let_def run_rows_def)
  obtain st' where rows: "rows = map (settle_row now st') (sort_key sr_step_key ?rs)"
    and set: "settled (run_specs db run) (state_of ?rs) (state_of (map (settle_row now st') ?rs))"
    and tgt: "\<And>r t. r \<in> set ?rs \<Longrightarrow> sr_state r = Step_PENDING \<Longrightarrow> st' (sr_step_key r) = Some t \<Longrightarrow>
      t \<in> {Step_PENDING, Step_READY, Step_SKIPPED}"
    using advance_loop_settled [OF struct specs refl loop] by blast
  let ?db1 = "record_moves run now moved (db\<lparr>wf_step_runs := put_rows sr_id rows (wf_step_runs db)\<rparr>)"
  let ?h = "\<lambda>r. r\<lparr>rn_output := Some (run_outputs rows)\<rparr>"
  have ds: "distinct (map sr_id (wf_step_runs db))" and dr: "distinct (map rn_id (wf_runs db))"
    using ids by (auto simp: ids_ok_def)
  have upd1: "run_update db (rn_org run) (rn_id run) (\<lambda>r. r) (settle_row now st') ?db1"
    using put_rows_settle [OF ds] by (simp add: run_update_def db_simps rows run_rows_def)
  have done': "list_all (\<lambda>r. step_done (sr_state r)) rows \<longleftrightarrow>
      all_done (run_specs db run) (state_of (map (settle_row now st') ?rs))"
    unfolding all_done_rows [OF struct keeps_step_settle, symmetric] rows by (simp add: list_all_iff)
  show thesis
  proof (cases "list_all (\<lambda>r. step_done (sr_state r)) rows")
    case True
    then have tr: "transition_run_row ?db1 (?h run) Run_COMPLETED ''WORKFLOW_COMPLETED'' now = Inr (db', run')"
      using adv \<open>rn_state run = Run_RUNNING\<close> specs loop by (simp add: advance_def Let_def run_rows_def)
    have h: "keeps_run ?h" by (simp add: keeps_run_def)
    have "distinct (map rn_id (wf_runs ?db1))" "run \<in> set (wf_runs ?db1)"
      using dr run by (simp_all add: db_simps)
    note t = transition_run_row_update [OF this h tr]
    have "run_update db (rn_org run) (rn_id run)
        (\<lambda>r. moved_run Run_COMPLETED ''WORKFLOW_COMPLETED'' now (?h r)) (settle_row now st') db'"
      using run_update_trans [OF upd1 t(3)] by simp
    moreover have "wf_next_id db' = wf_next_id db"
      using tr by (auto simp: transition_run_row_eq db_simps)
    moreover have "wake (run_specs db run) Run_RUNNING (state_of ?rs)
        \<lparr>vw_run = Run_COMPLETED, vw_step = state_of (map (settle_row now st') ?rs)\<rparr>"
      using set done' True by (intro wake_complete) simp_all
    ultimately show thesis using t(1) \<open>rn_state run = Run_RUNNING\<close>
      by (intro that [of "\<lambda>r. moved_run Run_COMPLETED ''WORKFLOW_COMPLETED'' now (?h r)" st'])
        (simp_all add: tgt [simplified])
  next
    case False
    then have "db' = ?db1" "run' = run"
      using adv \<open>rn_state run = Run_RUNNING\<close> specs loop by (auto simp: advance_def Let_def run_rows_def)
    moreover have "wake (run_specs db run) Run_RUNNING (state_of ?rs)
        \<lparr>vw_run = Run_RUNNING, vw_step = state_of (map (settle_row now st') ?rs)\<rparr>"
      using set done' False by (intro wake_on) simp_all
    ultimately show thesis using upd1 \<open>rn_state run = Run_RUNNING\<close>
      by (intro that [of "\<lambda>r. r" st']) (simp_all add: db_simps tgt [simplified])
  qed
qed

lemma advance_total:
  assumes struct: "run_struct db run"
  shows "\<exists>res. advance db (rn_org run) run now = Inr res"
proof -
  let ?rs = "run_rows db run"
  let ?st = "map_of (map (\<lambda>r. (sr_step_key r, sr_state r)) ?rs)"
  obtain specs where specs: "row_specs db (rn_org run) ?rs = Inr specs"
    using row_specs_total [OF struct] by blast
  have d: "distinct (map sr_step_key ?rs)" using struct by (simp add: run_struct_def)
  have dom: "dom ?st = sr_step_key ` set ?rs" by (simp add: dom_map_of_conv_image_fst image_image)
  have "lookups_ok (map_of specs) ?st (sort_key sr_step_key ?rs)"
    unfolding lookups_ok_def
  proof
    fix r assume "r \<in> set (sort_key sr_step_key ?rs)"
    then have r: "r \<in> set ?rs" by simp
    then obtain s where s: "s \<in> set (run_specs db run)" "spec_for_step db (rn_org run) (sr_version_step_id r) = Inr s"
      using struct by (auto simp: run_struct_def linked_def)
    then have "set (sp_depends_on s) \<subseteq> dom ?st"
      using struct unfolding dom run_struct_def by (auto dest: graph_wf_deps)
    with row_specs_map_of [OF specs d r s(2)]
    show "\<exists>spec. map_of specs (sr_step_key r) = Some spec \<and> set (sp_depends_on spec) \<subseteq> dom ?st" by blast
  qed
  then obtain rows moved where loop: "advance_loop (map_of specs) now (sort_key sr_step_key ?rs) ?st = Inr (rows, moved)"
    using advance_loop_total [OF _ tracks_rows [OF d]] by fastforce
  show ?thesis
  proof (cases "rn_state run = Run_RUNNING")
    case True
    then have "\<exists>res. transition_run_row db1 (run\<lparr>rn_output := out\<rparr>) Run_COMPLETED ''WORKFLOW_COMPLETED'' now = Inr res"
      for db1 out
      by (simp add: transition_run_row_eq require_workflow_transition_def)
    with specs loop True show ?thesis
      by (simp add: advance_def Let_def run_rows_def)
  qed (use specs in \<open>simp add: advance_def Let_def run_rows_def\<close>)
qed


section \<open>Every operation is a move of the contract\<close>

text \<open>What one operation may do to one step row; \<open>lo\<close> and \<open>hi\<close> bound the fresh tokens.\<close>

definition row_step :: "uuid \<Rightarrow> uuid \<Rightarrow> step_run_row \<Rightarrow> step_run_row \<Rightarrow> bool" where
  "row_step lo hi r r' \<longleftrightarrow> (row_ok r \<longrightarrow> row_ok r') \<and>
     (sr_state r' = sr_state r \<or> sr_state r' \<in> set (step_transitions (sr_state r))) \<and>
     (\<forall>t. sr_claim_token r' = Some t \<longrightarrow> sr_claim_token r = Some t \<or> lo \<le> t \<and> t < hi) \<and>
     (sr_state r = Step_COMPLETED \<longrightarrow> sr_output r' = sr_output r) \<and>
     sr_attempt_count r \<le> sr_attempt_count r'"

definition run_move :: "workflow_db \<Rightarrow> run_row \<Rightarrow> workflow_db \<Rightarrow> bool" where
  "run_move db run db' \<longleftrightarrow> (\<exists>g f. run_update db (rn_org run) (rn_id run) g f db' \<and>
     (\<forall>r \<in> set (run_rows db run). row_step (wf_next_id db) (wf_next_id db') r (f r)) \<and>
     run_step (run_specs db run) (run_view_of db run)
       \<lparr>vw_run = rn_state (g run), vw_step = state_of (map f (run_rows db run))\<rparr>)"

lemma run_moveI:
  assumes "run_update db (rn_org run) (rn_id run) g f db'"
    and "\<And>r. r \<in> set (run_rows db run) \<Longrightarrow> row_step (wf_next_id db) (wf_next_id db') r (f r)"
    and "run_step (run_specs db run) (run_view_of db run)
       \<lparr>vw_run = rn_state (g run), vw_step = state_of (map f (run_rows db run))\<rparr>"
  shows "run_move db run db'"
  using assms unfolding run_move_def by blast

lemma run_move_inv:
  assumes "run_move db run db'" and "store_inv db" and "run \<in> set (wf_runs db)"
  shows "store_inv db'"
proof -
  from assms(1) obtain g f where upd: "run_update db (rn_org run) (rn_id run) g f db'"
    and rows: "\<And>r. r \<in> set (run_rows db run) \<Longrightarrow> row_step (wf_next_id db) (wf_next_id db') r (f r)"
    and st: "run_step (run_specs db run) (run_view_of db run)
       \<lparr>vw_run = rn_state (g run), vw_step = state_of (map f (run_rows db run))\<rparr>"
    unfolding run_move_def by blast
  have "row_ok r" if "r \<in> set (run_rows db run)" for r
    using assms(2,3) that by (simp add: store_inv_def run_ok_def)
  with rows st show ?thesis
    by (intro run_update_inv [OF upd assms(2,3) refl]) (auto simp: row_step_def)
qed

lemma row_step_refl [simp]: "row_step lo hi r r"
  by (simp add: row_step_def)

lemma row_step_settle:
  assumes "\<And>t. st (sr_step_key r) = Some t \<Longrightarrow> sr_state r = Step_PENDING \<Longrightarrow> t \<in> {Step_PENDING, Step_READY, Step_SKIPPED}"
  shows "row_step lo hi r (settle_row now st r)"
proof (cases "sr_state (settle_row now st r) = sr_state r")
  case True
  then show ?thesis by (simp add: row_step_def row_ok_def)
next
  case False
  then obtain t where t: "st (sr_step_key r) = Some t" "sr_state r = Step_PENDING" "t \<noteq> Step_PENDING"
    by (auto simp: settle_row_def split: option.splits if_splits)
  then have "sr_state (settle_row now st r) = t" by (simp add: settle_row_def)
  with t assms [OF t(1,2)] show ?thesis
    by (auto simp: row_step_def row_ok_def open_state_def)
qed

lemma in_run_rows: "r \<in> set (run_rows db run) \<longleftrightarrow>
    r \<in> set (wf_step_runs db) \<and> sr_org r = rn_org run \<and> sr_run_id r = rn_id run"
  by (auto simp: run_rows_def run_steps_def)

lemma rows_distinct_ids: "ids_ok db \<Longrightarrow> distinct (map sr_id (run_rows db run))"
  by (auto simp: ids_ok_def run_rows_def run_steps_def distinct_map inj_on_def)

lemma state_of_one:
  assumes "distinct (map sr_step_key rows)" and "distinct (map sr_id rows)" and "row \<in> set rows"
    and "keeps_step u"
  shows "state_of (map (\<lambda>r. if sr_id r = sr_id row then u r else r) rows) =
    (state_of rows)(sr_step_key row := sr_state (u row))"
proof (rule state_of_eqI)
  note ks = keeps_step_if [OF assms(4), of "\<lambda>r. sr_id r = sr_id row", unfolded keeps_step_def, rule_format]
  then show "distinct (map sr_step_key (map (\<lambda>r. if sr_id r = sr_id row then u r else r) rows))"
    using assms(1) by (simp add: o_def)
  fix r assume "r \<in> set (map (\<lambda>r. if sr_id r = sr_id row then u r else r) rows)"
  then obtain r0 where r0: "r0 \<in> set rows" "r = (if sr_id r0 = sr_id row then u r0 else r0)" by auto
  show "((state_of rows)(sr_step_key row := sr_state (u row))) (sr_step_key r) = sr_state r"
  proof (cases "sr_id r0 = sr_id row")
    case True
    with assms(2,3) r0 have "r0 = row" by (metis distinct_map_inj)
    with r0 ks [of row] show ?thesis by simp
  next
    case False
    then have "sr_step_key r0 \<noteq> sr_step_key row" using assms(1,3) r0(1) by (metis distinct_map_inj)
    with False r0 state_of_row [OF assms(1)] show ?thesis by simp
  qed
next
  fix k assume "k \<notin> sr_step_key ` set (map (\<lambda>r. if sr_id r = sr_id row then u r else r) rows)"
  moreover have "sr_step_key ` set (map (\<lambda>r. if sr_id r = sr_id row then u r else r) rows) = sr_step_key ` set rows"
    using keeps_step_if [OF assms(4), of "\<lambda>r. sr_id r = sr_id row"]
    by (simp only: keeps_step_def set_map image_image)
  ultimately have "k \<notin> sr_step_key ` set rows" by simp
  then show "((state_of rows)(sr_step_key row := sr_state (u row))) k = Step_PENDING"
    using assms(3) state_of_other by auto
qed

text \<open>Replacing one step row by hand.\<close>

lemma put_step_update:
  assumes ids: "ids_ok db" and row: "row \<in> set (run_rows db run)" and "keeps_step u"
    and "wf_step_runs db' = put_rows sr_id [u row] (wf_step_runs db)" and "wf_next_id db \<le> wf_next_id db'"
    and "wf_runs db' = wf_runs db" "wf_definitions db' = wf_definitions db" "wf_versions db' = wf_versions db"
      "wf_version_steps db' = wf_version_steps db"
  shows "run_update db (rn_org run) (rn_id run) (\<lambda>r. r) (\<lambda>r. if sr_id r = sr_id row then u r else r) db'"
  using put_step [of db row "rn_org run" "rn_id run" u] assms
  by (simp add: run_update_def ids_ok_def run_rows_def)

definition claimed :: "uuid \<Rightarrow> uuid \<Rightarrow> time \<Rightarrow> step_run_row \<Rightarrow> step_run_row" where
  "claimed owner token now r = r\<lparr>sr_state := Step_RUNNING, sr_attempt_count := sr_attempt_count r + 1,
     sr_execution_owner_id := Some owner, sr_claim_token := Some token, sr_claimed_at := Some now,
     sr_updated_at := now\<rparr>"

lemma get_run_row_D:
  "get_run_row db org rid = Some run \<Longrightarrow> run \<in> set (wf_runs db) \<and> rn_org run = org \<and> rn_id run = rid"
  unfolding get_run_row_def by (drule find_Some_D) simp

lemma claim_candidates_D:
  "claim_candidates db org rid now = row # rest \<Longrightarrow>
     row \<in> set (run_steps db org rid) \<and> sr_state row = Step_READY"
proof -
  assume "claim_candidates db org rid now = row # rest"
  then have "row \<in> set (claim_candidates db org rid now)" by simp
  then show ?thesis by (simp add: claim_candidates_def)
qed

lemma claim_D:
  assumes "claim db org rid owner now = Inr (db', Some c)"
  obtains run row where "get_run_row db org rid = Some run" "rn_state run = Run_RUNNING"
    "row \<in> set (run_rows db run)" "sr_state row = Step_READY"
    "db' = add_transition run (Some row) (Some (step_state_value Step_READY))
       (step_state_value Step_RUNNING) ''STEP_CLAIMED'' ''WORKER'' now
       (db\<lparr>wf_step_runs := put_rows sr_id [claimed owner (wf_next_id db) now row] (wf_step_runs db),
           wf_next_id := Suc (wf_next_id db)\<rparr>)"
    "cl_run c = run" "cl_step c = claimed owner (wf_next_id db) now row"
    "cl_owner_id c = owner" "cl_claim_token c = wf_next_id db"
    "spec_for_step db org (sr_version_step_id row) = Inr (cl_spec c)"
proof -
  from assms obtain run where run: "get_run_row db org rid = Some run" "rn_state run = Run_RUNNING"
    by (auto simp: claim_def split: option.splits if_splits)
  from assms run obtain row rest where row: "claim_candidates db org rid now = row # rest"
    by (auto simp: claim_def split: list.splits)
  have r: "row \<in> set (run_rows db run)" "sr_state row = Step_READY"
    using claim_candidates_D [OF row] get_run_row_D [OF run(1)] by (simp_all add: run_rows_def)
  show thesis
    using assms run row r
    by (intro that [of run row]) (auto simp: claim_def Let_def claimed_def spec_for_step_def db_simps)
qed

lemma keeps_step_claimed [simp]: "keeps_step (claimed owner token now)"
  by (simp add: keeps_step_def claimed_def)

lemma run_ok_D:
  assumes "store_inv db" and "run \<in> set (wf_runs db)"
  shows "run_struct db run" and "ids_ok db" and "distinct (map sr_step_key (run_rows db run))"
    and "distinct (map sr_id (run_rows db run))"
    and "\<And>r. r \<in> set (run_rows db run) \<Longrightarrow> sr_step_key r \<in> sp_key ` set (run_specs db run)"
    and "\<And>r. r \<in> set (run_rows db run) \<Longrightarrow> vw_step (run_view_of db run) (sr_step_key r) = sr_state r"
    and "\<And>r. r \<in> set (run_rows db run) \<Longrightarrow> row_ok r"
proof -
  have ok: "run_ok db run" using assms by (simp add: store_inv_def)
  then show st: "run_struct db run" "\<And>r. r \<in> set (run_rows db run) \<Longrightarrow> row_ok r" by (simp_all add: run_ok_def)
  show "ids_ok db" using assms by (simp add: store_inv_def)
  then show "distinct (map sr_id (run_rows db run))" by (rule rows_distinct_ids)
  show d: "distinct (map sr_step_key (run_rows db run))" using st by (simp add: run_struct_def)
  show "sr_step_key r \<in> sp_key ` set (run_specs db run)" if "r \<in> set (run_rows db run)" for r
  proof -
    have "sr_step_key r \<in> sr_step_key ` set (run_rows db run)" using that by (rule imageI)
    then show ?thesis using st by (simp add: run_struct_def)
  qed
  show "vw_step (run_view_of db run) (sr_step_key r) = sr_state r" if "r \<in> set (run_rows db run)" for r
    using state_of_row [OF d that] by (simp add: run_view_of_def)
qed

text \<open>A claim a worker holds names a step row of the run it was taken on.\<close>

definition genuine :: "workflow_db \<Rightarrow> step_claim \<Rightarrow> bool" where
  "genuine db c \<longleftrightarrow> (\<exists>row \<in> set (wf_step_runs db). sr_id row = sr_id (cl_step c) \<and>
     sr_run_id row = rn_id (cl_run c) \<and> sr_org row = rn_org (cl_run c))"

lemma claim_move:
  assumes inv: "store_inv db" and cl: "claim db org rid owner now = Inr (db', Some c)"
  shows "run_move db (cl_run c) db'" and "cl_run c \<in> set (wf_runs db)" and "rn_org (cl_run c) = org"
    and "rn_id (cl_run c) = rid" and "cl_claim_token c < wf_next_id db'" and "genuine db' c"
proof -
  obtain run row where c: "get_run_row db org rid = Some run" "rn_state run = Run_RUNNING"
    "row \<in> set (run_rows db run)" "sr_state row = Step_READY"
    "db' = add_transition run (Some row) (Some (step_state_value Step_READY))
       (step_state_value Step_RUNNING) ''STEP_CLAIMED'' ''WORKER'' now
       (db\<lparr>wf_step_runs := put_rows sr_id [claimed owner (wf_next_id db) now row] (wf_step_runs db),
           wf_next_id := Suc (wf_next_id db)\<rparr>)"
    "cl_run c = run" "cl_step c = claimed owner (wf_next_id db) now row" "cl_claim_token c = wf_next_id db"
    using cl by (rule claim_D)
  have run: "run \<in> set (wf_runs db)" using get_run_row_D [OF c(1)] by simp
  note D = run_ok_D [OF inv run]
  let ?f = "\<lambda>r. if sr_id r = sr_id row then claimed owner (wf_next_id db) now r else r"
  have upd: "run_update db (rn_org run) (rn_id run) (\<lambda>r. r) ?f db'"
    using c(3) D(2) by (intro put_step_update) (simp_all add: c(5) db_simps)
  have "run_move db run db'"
  proof (rule run_moveI [OF upd])
    fix r assume r: "r \<in> set (run_rows db run)"
    show "row_step (wf_next_id db) (wf_next_id db') r (?f r)"
    proof (cases "sr_id r = sr_id row")
      case True
      then have "r = row" using r c(3) D(4) by (metis distinct_map_inj)
      then show ?thesis using c(4) D(7) [OF c(3)]
        by (simp add: row_step_def row_ok_def claimed_def open_state_def c(5) db_simps)
    qed simp
  next
    have "state_of (map ?f (run_rows db run)) = (state_of (run_rows db run))(sr_step_key row := Step_RUNNING)"
      using state_of_one [OF D(3,4) c(3) keeps_step_claimed] by (simp add: claimed_def)
    then show "run_step (run_specs db run) (run_view_of db run)
        \<lparr>vw_run = rn_state run, vw_step = state_of (map ?f (run_rows db run))\<rparr>"
      using claim_ready [of "run_view_of db run" "sr_step_key row" "run_specs db run"] c(2,4) D(5,6) [OF c(3)]
      by (simp add: run_view_of_def)
  qed
  then show "run_move db (cl_run c) db'" "cl_run c \<in> set (wf_runs db)" using c(6) run by simp_all
  show "rn_org (cl_run c) = org" "rn_id (cl_run c) = rid" using c(6) get_run_row_D [OF c(1)] by simp_all
  show "cl_claim_token c < wf_next_id db'" by (simp add: c(5,8) db_simps)
  have "claimed owner (wf_next_id db) now row \<in> set (wf_step_runs db')"
    using upd c(3) by (auto simp: run_update_def set_update_where in_run_rows in_run_def image_iff intro!: bexI [of _ row])
  then show "genuine db' c"
    unfolding genuine_def using c(3,6,7) by (intro bexI) (auto simp: in_run_rows claimed_def)
qed


lemma pending_origin: "Step_PENDING \<in> set (step_transitions s) \<longleftrightarrow> False"
  by (cases s) simp_all

lemma row_step_then_settle:
  assumes "row_step lo hi r r1"
    and "\<And>t. sr_state r1 = Step_PENDING \<Longrightarrow> st (sr_step_key r1) = Some t \<Longrightarrow> t \<in> {Step_PENDING, Step_READY, Step_SKIPPED}"
  shows "row_step lo hi r (settle_row now st r1)"
proof (cases "sr_state (settle_row now st r1) = sr_state r1")
  case True
  with assms(1) show ?thesis by (simp add: row_step_def row_ok_def)
next
  case False
  then obtain t where "st (sr_step_key r1) = Some t" "sr_state r1 = Step_PENDING"
    by (auto simp: settle_row_def split: option.splits if_splits)
  moreover from this have "sr_state r = Step_PENDING" using assms(1) by (simp add: row_step_def pending_origin)
  moreover have "row_step lo hi r1 (settle_row now st r1)"
    using assms(2) by (intro row_step_settle)
  ultimately show ?thesis using assms(1) by (auto simp: row_step_def)
qed

lemma advance_after:
  assumes inv: "store_inv db" and run: "run \<in> set (wf_runs db)" and live: "rn_state run \<in> {Run_RUNNING, Run_PAUSED}"
    and upd1: "run_update db (rn_org run) (rn_id run) (\<lambda>r. r) f1 db1"
    and ids: "ids_ok db1"
    and rows1: "\<And>r. r \<in> set (run_rows db run) \<Longrightarrow> row_step (wf_next_id db) (wf_next_id db1) r (f1 r)"
    and adv: "advance db1 (rn_org run) run now = Inr (db', run')"
  obtains g f where "run_update db (rn_org run) (rn_id run) g f db'" "run' = g run"
    "\<And>r. r \<in> set (run_rows db run) \<Longrightarrow> row_step (wf_next_id db) (wf_next_id db') r (f r)"
    "wake (run_specs db run) (rn_state run) (state_of (map f1 (run_rows db run)))
       \<lparr>vw_run = rn_state run', vw_step = state_of (map f (run_rows db run))\<rparr>"
    "\<And>r. sr_state (f1 r) \<noteq> Step_PENDING \<Longrightarrow> f r = f1 r"
proof -
  have struct: "run_struct db1 run"
    using run_ok_D(1) [OF inv run] by (intro run_update_struct [OF upd1]) simp_all
  have run1: "run \<in> set (wf_runs db1)" using upd1 run by (simp add: run_update_def)
  have rr: "run_rows db1 run = map f1 (run_rows db run)"
    using run_update_steps(1) [OF upd1] by (simp add: run_rows_def)
  have sp: "run_specs db1 run = run_specs db run" using run_update_specs(1) [OF upd1] by (simp add: run_specs_def)
  obtain g st' where g: "run_update db1 (rn_org run) (rn_id run) g (settle_row now st') db'" "run' = g run"
    "rn_state run \<noteq> Run_RUNNING \<Longrightarrow> st' = Map.empty \<and> run' = run"
    "rn_state run = Run_RUNNING \<Longrightarrow> wake (run_specs db1 run) Run_RUNNING (state_of (run_rows db1 run))
        \<lparr>vw_run = rn_state run', vw_step = state_of (map (settle_row now st') (run_rows db1 run))\<rparr>"
    "wf_next_id db' = wf_next_id db1"
    "\<And>r t. r \<in> set (run_rows db1 run) \<Longrightarrow> sr_state r = Step_PENDING \<Longrightarrow> st' (sr_step_key r) = Some t \<Longrightarrow>
      t \<in> {Step_PENDING, Step_READY, Step_SKIPPED}"
    using advance_update [OF ids run1 struct adv] by blast
  show thesis
  proof (rule that [of g "\<lambda>r. settle_row now st' (f1 r)"])
    show "run_update db (rn_org run) (rn_id run) g (\<lambda>r. settle_row now st' (f1 r)) db'"
      using run_update_trans [OF upd1 g(1)] by simp
    show "row_step (wf_next_id db) (wf_next_id db') r (settle_row now st' (f1 r))"
      if "r \<in> set (run_rows db run)" for r
      using rows1 [OF that] that g(5,6) rr by (intro row_step_then_settle) auto
    show "wake (run_specs db run) (rn_state run) (state_of (map f1 (run_rows db run)))
       \<lparr>vw_run = rn_state run', vw_step = state_of (map (\<lambda>r. settle_row now st' (f1 r)) (run_rows db run))\<rparr>"
    proof (cases "rn_state run = Run_RUNNING")
      case True
      then show ?thesis using g(4) rr sp by (simp add: o_def)
    next
      case False
      then have "rn_state run = Run_PAUSED" using live by simp
      then show ?thesis using g(3) [OF False] wake_paused by simp
    qed
    show "settle_row now st' (f1 r) = f1 r" if "sr_state (f1 r) \<noteq> Step_PENDING" for r
      using that by (simp add: settle_row_def split: option.splits)
  qed (use g in simp)
qed


lemma fenced_D:
  assumes inv: "store_inv db" and gen: "genuine db c"
    and "fenced_run db org c = Inr run" and "fenced_step db org c = Inr row"
  shows "run \<in> set (wf_runs db)" "rn_org run = org" "rn_id run = rn_id (cl_run c)"
    "rn_state run \<in> {Run_RUNNING, Run_PAUSED}" "row \<in> set (run_rows db run)" "sr_state row = Step_RUNNING"
    "sr_id row = sr_id (cl_step c)" "sr_claim_token row = Some (cl_claim_token c)"
    "sr_execution_owner_id row = Some (cl_owner_id c)"
proof -
  from assms(3) have "get_run_row db org (rn_id (cl_run c)) = Some run"
    and st: "rn_state run \<in> {Run_RUNNING, Run_PAUSED}"
    by (auto simp: fenced_run_def split: option.splits if_splits)
  then show R: "run \<in> set (wf_runs db)" "rn_org run = org" "rn_id run = rn_id (cl_run c)"
    using get_run_row_D by auto
  show "rn_state run \<in> {Run_RUNNING, Run_PAUSED}" by (rule st)
  from assms(4) have row: "row \<in> set (wf_step_runs db)" "sr_org row = org" "sr_id row = sr_id (cl_step c)"
    and "sr_state row = Step_RUNNING" "sr_claim_token row = Some (cl_claim_token c)"
      "sr_execution_owner_id row = Some (cl_owner_id c)"
    by (auto simp: fenced_step_def split: option.splits if_splits dest: find_Some_D)
  then show "sr_state row = Step_RUNNING" "sr_claim_token row = Some (cl_claim_token c)"
    "sr_id row = sr_id (cl_step c)" "sr_execution_owner_id row = Some (cl_owner_id c)" by simp_all
  obtain row' where row': "row' \<in> set (wf_step_runs db)" "sr_id row' = sr_id (cl_step c)"
     "sr_run_id row' = rn_id (cl_run c)"
    using gen by (auto simp: genuine_def)
  have "row' = row" using row row' inv unfolding store_inv_def ids_ok_def by (metis distinct_map_inj)
  with row row' R show "row \<in> set (run_rows db run)" by (simp add: in_run_rows)
qed

definition completes :: "(step_run_row \<Rightarrow> step_run_row) \<Rightarrow> bool" where
  "completes u \<longleftrightarrow> keeps_step u \<and> (\<forall>r. sr_state (u r) = Step_COMPLETED \<and> sr_output (u r) \<noteq> None \<and>
     sr_attempt_count (u r) = sr_attempt_count r \<and> sr_claim_token (u r) = sr_claim_token r \<and>
     sr_next_eligible_at (u r) = sr_next_eligible_at r)"

lemma row_step_completes:
  "completes u \<Longrightarrow> sr_state r = Step_RUNNING \<Longrightarrow> row_step lo hi r (u r)"
  by (auto simp: completes_def row_step_def row_ok_def open_state_def keeps_step_def)

lemma row_step_mark:
  assumes "row_step lo hi r r1" and "open_state (sr_state r1)" and "r1 = r" and "t \<in> {Step_SKIPPED, Step_CANCELLED}"
  shows "row_step lo hi r (mark t now r1)"
  using assms by (auto simp: row_step_def row_ok_def open_state_def)

lemma finish_move:
  assumes inv: "store_inv db" and run: "run \<in> set (wf_runs db)" and live: "rn_state run \<in> {Run_RUNNING, Run_PAUSED}"
    and row: "row \<in> set (run_rows db run)" "sr_state row = Step_RUNNING" and u: "completes u"
    and db1: "wf_step_runs db1 = put_rows sr_id [u row] (wf_step_runs db)" "wf_next_id db1 = wf_next_id db"
      "wf_runs db1 = wf_runs db" "wf_definitions db1 = wf_definitions db" "wf_versions db1 = wf_versions db"
      "wf_version_steps db1 = wf_version_steps db"
    and adv: "advance (skip_rows run why Step_SKIPPED now
        (filter (\<lambda>r. sr_step_key r \<in> set ks) (open_steps db1 (rn_org run) (rn_id run))) db1)
        (rn_org run) run now = Inr (db', run')"
  shows "run_move db run db'" and "u row \<in> set (wf_step_runs db')"
    and "wake (run_specs db run) (rn_state run)
      (\<lambda>j. if j \<in> set ks \<inter> sr_step_key ` set (run_rows db run) \<and> open_state (vw_step (run_view_of db run) j)
           then Step_SKIPPED
           else if j = sr_step_key row then Step_COMPLETED else vw_step (run_view_of db run) j)
      (run_view_of db' run')"
    and "rn_org run' = rn_org run" "rn_id run' = rn_id run" "run' \<in> set (wf_runs db')"
proof -
  note D = run_ok_D [OF inv run]
  let ?rows = "run_rows db run"
  let ?p = "\<lambda>r. sr_step_key r \<in> set ks \<and> open_state (sr_state r)"
  let ?f0 = "\<lambda>r. if sr_id r = sr_id row then u r else r"
  let ?f1 = "\<lambda>r. if ?p (?f0 r) then mark Step_SKIPPED now (?f0 r) else ?f0 r"
  let ?db2 = "skip_rows run why Step_SKIPPED now (filter ?p (run_steps db1 (rn_org run) (rn_id run))) db1"
  have ku: "keeps_step u" using u by (simp add: completes_def)
  have upd0: "run_update db (rn_org run) (rn_id run) (\<lambda>r. r) ?f0 db1"
    using row D(2) ku by (intro put_step_update) (simp_all add: db1)
  have ids1: "ids_ok db1"
    using u by (intro run_update_ids [OF upd0 D(2)]) (auto simp: completes_def split: if_splits)
  then have d1: "distinct (map sr_id (wf_step_runs db1))" by (simp add: ids_ok_def)
  have upd1: "run_update db1 (rn_org run) (rn_id run) (\<lambda>r. r) (\<lambda>r. if ?p r then mark Step_SKIPPED now r else r) ?db2"
    by (rule skip_rows_update [OF d1])
  have ids2: "ids_ok ?db2"
    by (intro run_update_ids [OF upd1 ids1]) (auto split: if_splits)
  have upd: "run_update db (rn_org run) (rn_id run) (\<lambda>r. r) ?f1 ?db2"
    using run_update_trans [OF upd0 upd1] by simp
  have same: "r = row" if "r \<in> set ?rows" "sr_id r = sr_id row" for r
    using that row(1) D(4) by (metis distinct_map_inj)
  have ustate: "sr_state (u r) = Step_COMPLETED" for r using u by (simp add: completes_def)
  have rs: "row_step (wf_next_id db) (wf_next_id ?db2) r (?f1 r)" if "r \<in> set ?rows" for r
  proof (cases "sr_id r = sr_id row")
    case True
    then show ?thesis using same [OF that] row(2) u row_step_completes [OF u]
      by (auto simp: ustate open_state_def)
  next
    case False
    then show ?thesis using row_step_mark [of _ _ r r Step_SKIPPED now] by simp
  qed
  have adv': "advance ?db2 (rn_org run) run now = Inr (db', run')"
    using adv by (simp add: open_steps_def open_state_def conj_commute)
  obtain g f where m: "run_update db (rn_org run) (rn_id run) g f db'" "run' = g run"
    "\<And>r. r \<in> set ?rows \<Longrightarrow> row_step (wf_next_id db) (wf_next_id db') r (f r)"
    "wake (run_specs db run) (rn_state run) (state_of (map ?f1 ?rows))
       \<lparr>vw_run = rn_state run', vw_step = state_of (map f ?rows)\<rparr>"
    "\<And>r. sr_state (?f1 r) \<noteq> Step_PENDING \<Longrightarrow> f r = ?f1 r"
    using advance_after [OF inv run live upd ids2 rs adv'] by blast
  have "f row = u row" using m(5) [of row] by (simp add: ustate open_state_def)
  moreover have "f row \<in> set (wf_step_runs db')"
    using m(1) row(1) by (auto simp: run_update_def set_update_where in_run_rows in_run_def image_iff intro!: bexI [of _ row])
  ultimately show "u row \<in> set (wf_step_runs db')" by simp
  let ?skip = "set ks \<inter> sr_step_key ` set ?rows"
  have view: "state_of (map ?f1 ?rows) =
      (\<lambda>j. if j \<in> ?skip \<and> open_state (vw_step (run_view_of db run) j) then Step_SKIPPED
           else if j = sr_step_key row then Step_COMPLETED else vw_step (run_view_of db run) j)"
  proof (rule state_of_eqI)
    have k: "sr_step_key (?f1 r) = sr_step_key r" for r using ku by (simp add: keeps_step_def)
    then show "distinct (map sr_step_key (map ?f1 ?rows))" using D(3) by (simp add: o_def)
    have img: "sr_step_key ` set (map ?f1 ?rows) = sr_step_key ` set ?rows"
      unfolding set_map image_image k ..
    {
      fix r assume "r \<in> set (map ?f1 ?rows)"
      then obtain r0 where r0: "r0 \<in> set ?rows" and r: "r = ?f1 r0" unfolding set_map by (rule imageE)
      have key: "sr_step_key r = sr_step_key r0" unfolding r by (rule k)
      have v: "vw_step (run_view_of db run) (sr_step_key r0) = sr_state r0" using D(6) [OF r0] .
      show "(if sr_step_key r \<in> ?skip \<and> open_state (vw_step (run_view_of db run) (sr_step_key r)) then Step_SKIPPED
           else if sr_step_key r = sr_step_key row then Step_COMPLETED
           else vw_step (run_view_of db run) (sr_step_key r)) = sr_state r"
      proof (cases "r0 = row")
        case True
        then show ?thesis unfolding key v using row(2) by (simp add: r ustate open_state_def)
      next
        case False
        then have "sr_id r0 \<noteq> sr_id row" "sr_step_key r0 \<noteq> sr_step_key row"
          using same [OF r0] D(3) r0 row(1) by (auto dest: distinct_map_inj)
        then show ?thesis unfolding key v using r0 by (simp add: r)
      qed
    next
      fix k assume "k \<notin> sr_step_key ` set (map ?f1 ?rows)"
      then have "k \<notin> sr_step_key ` set ?rows" unfolding img .
      moreover from this have "k \<noteq> sr_step_key row" using row(1) by auto
      ultimately show "(if k \<in> ?skip \<and> open_state (vw_step (run_view_of db run) k) then Step_SKIPPED
           else if k = sr_step_key row then Step_COMPLETED else vw_step (run_view_of db run) k) = Step_PENDING"
        using state_of_other by (simp add: run_view_of_def)
    }
  qed
  show same': "rn_org run' = rn_org run" "rn_id run' = rn_id run"
    using m(1,2) by (simp_all add: run_update_def keeps_run_def)
  show "run' \<in> set (wf_runs db')"
    using m(1,2) run by (auto simp: run_update_def set_update_where image_iff)
  have "run_view_of db' run' = \<lparr>vw_run = rn_state run', vw_step = state_of (map f ?rows)\<rparr>"
    using run_update_steps(1) [OF m(1)] same' by (simp add: run_view_of_def run_rows_def)
  with m(4) view show "wake (run_specs db run) (rn_state run)
      (\<lambda>j. if j \<in> ?skip \<and> open_state (vw_step (run_view_of db run) j) then Step_SKIPPED
           else if j = sr_step_key row then Step_COMPLETED else vw_step (run_view_of db run) j)
      (run_view_of db' run')" by simp
  from view m(4) have "run_step (run_specs db run) (run_view_of db run)
      \<lparr>vw_run = rn_state (g run), vw_step = state_of (map f ?rows)\<rparr>"
    using live D(5,6) [OF row(1)] row(2) m(2)
    by (intro complete [where k = "sr_step_key row" and skip = ?skip]) (simp_all add: run_view_of_def)
  with m(1,3) show "run_move db run db'" by (rule run_moveI)
qed


lemma finish_step_move:
  assumes inv: "store_inv db" and gen: "genuine db c"
    and fin: "finish_step db org c output reference now = Inr (db', run')"
  shows "\<exists>run \<in> set (wf_runs db). rn_id run = rn_id (cl_run c) \<and> rn_org run = org \<and> run_move db run db'"
    and "\<exists>row \<in> set (wf_step_runs db'). sr_id row = sr_id (cl_step c) \<and>
      sr_state row = Step_COMPLETED \<and> sr_output row = Some output"
    and "\<exists>run \<in> set (wf_runs db). \<exists>row \<in> set (run_rows db run). rn_id run = rn_id (cl_run c) \<and>
      rn_org run = org \<and> sr_id row = sr_id (cl_step c) \<and>
      wake (run_specs db run) (rn_state run) ((vw_step (run_view_of db run))(sr_step_key row := Step_COMPLETED))
        (run_view_of db' run')"
proof -
  from fin obtain run row where f: "fenced_run db org c = Inr run" "fenced_step db org c = Inr row"
    by (auto simp: finish_step_def)
  note F = fenced_D [OF inv gen f]
  let ?u = "\<lambda>r. r\<lparr>sr_state := Step_COMPLETED, sr_output := Some output,
      sr_external_ref := reference, sr_updated_at := now\<rparr>"
  let ?db1 = "add_transition run (Some row) (Some (step_state_value Step_RUNNING))
      (step_state_value Step_COMPLETED) ''STEP_COMPLETED'' ''WORKER'' now
      (db\<lparr>wf_step_runs := put_rows sr_id [?u row] (wf_step_runs db)\<rparr>)"
  have cu: "completes ?u" by (simp add: completes_def keeps_step_def)
  have adv: "advance (skip_rows run [] Step_SKIPPED now
      (filter (\<lambda>r. sr_step_key r \<in> set []) (open_steps ?db1 (rn_org run) (rn_id run))) ?db1)
      (rn_org run) run now = Inr (db', run')"
    using fin f F(2) by (simp add: finish_step_def Let_def)
  have M: "run_move db run db'" "?u row \<in> set (wf_step_runs db')"
    "wake (run_specs db run) (rn_state run)
      (\<lambda>j. if j \<in> set [] \<inter> sr_step_key ` set (run_rows db run) \<and> open_state (vw_step (run_view_of db run) j)
           then Step_SKIPPED
           else if j = sr_step_key row then Step_COMPLETED else vw_step (run_view_of db run) j)
      (run_view_of db' run')"
    by (rule finish_move [OF inv F(1,4,5,6) cu _ _ _ _ _ _ adv]; simp add: db_simps)+
  have "wake (run_specs db run) (rn_state run) ((vw_step (run_view_of db run))(sr_step_key row := Step_COMPLETED))
      (run_view_of db' run')"
    using M(3) by (simp add: fun_upd_def)
  with F show "\<exists>run \<in> set (wf_runs db). \<exists>row \<in> set (run_rows db run). rn_id run = rn_id (cl_run c) \<and>
      rn_org run = org \<and> sr_id row = sr_id (cl_step c) \<and>
      wake (run_specs db run) (rn_state run) ((vw_step (run_view_of db run))(sr_step_key row := Step_COMPLETED))
        (run_view_of db' run')" by blast
  from M(1,2) F show "\<exists>run \<in> set (wf_runs db). rn_id run = rn_id (cl_run c) \<and> rn_org run = org \<and> run_move db run db'"
    "\<exists>row \<in> set (wf_step_runs db'). sr_id row = sr_id (cl_step c) \<and>
      sr_state row = Step_COMPLETED \<and> sr_output row = Some output"
    by (blast, intro bexI [of _ "?u row"]) simp_all
qed

lemma finish_condition_move:
  assumes inv: "store_inv db" and gen: "genuine db c"
    and fin: "finish_condition db org c output ks now = Inr (db', run')"
  shows "\<exists>run \<in> set (wf_runs db). rn_id run = rn_id (cl_run c) \<and> rn_org run = org \<and> run_move db run db'"
    and "\<exists>row \<in> set (wf_step_runs db'). sr_id row = sr_id (cl_step c) \<and>
      sr_state row = Step_COMPLETED \<and> sr_output row = Some output"
proof -
  from fin obtain run row where f: "fenced_run db org c = Inr run" "fenced_step db org c = Inr row"
    by (auto simp: finish_condition_def)
  note F = fenced_D [OF inv gen f]
  let ?u = "\<lambda>r. r\<lparr>sr_state := Step_COMPLETED, sr_output := Some output, sr_updated_at := now\<rparr>"
  let ?db1 = "add_transition run (Some row) (Some (step_state_value Step_RUNNING))
      (step_state_value Step_COMPLETED) ''CONDITION_EVALUATED'' ''WORKER'' now
      (db\<lparr>wf_step_runs := put_rows sr_id [?u row] (wf_step_runs db)\<rparr>)"
  have cu: "completes ?u" by (simp add: completes_def keeps_step_def)
  have adv: "advance (skip_rows run ''CONDITION_NOT_SELECTED'' Step_SKIPPED now
      (filter (\<lambda>r. sr_step_key r \<in> set ks) (open_steps ?db1 (rn_org run) (rn_id run))) ?db1)
      (rn_org run) run now = Inr (db', run')"
    using fin f F(2) by (simp add: finish_condition_def Let_def)
  have "run_move db run db'" "?u row \<in> set (wf_step_runs db')"
    by (rule finish_move [OF inv F(1,4,5,6) cu _ _ _ _ _ _ adv]; simp add: db_simps)+
  with F show "\<exists>run \<in> set (wf_runs db). rn_id run = rn_id (cl_run c) \<and> rn_org run = org \<and> run_move db run db'"
    "\<exists>row \<in> set (wf_step_runs db'). sr_id row = sr_id (cl_step c) \<and>
      sr_state row = Step_COMPLETED \<and> sr_output row = Some output"
    by (blast, intro bexI [of _ "?u row"]) simp_all
qed

definition retried :: "string \<Rightarrow> time \<Rightarrow> step_run_row \<Rightarrow> step_run_row" where
  "retried code now r = r\<lparr>sr_state := Step_READY, sr_execution_owner_id := None,
     sr_claim_token := None, sr_error_code := Some code, sr_updated_at := now\<rparr>"

definition failed :: "string \<Rightarrow> time \<Rightarrow> step_run_row \<Rightarrow> step_run_row" where
  "failed code now r = r\<lparr>sr_state := Step_FAILED, sr_error_code := Some code, sr_updated_at := now\<rparr>"

lemma keeps_step_retried [simp]: "keeps_step (retried code now)"
  by (simp add: keeps_step_def retried_def)

lemma keeps_step_failed [simp]: "keeps_step (failed code now)"
  by (simp add: keeps_step_def failed_def)

lemma fail_step_move:
  assumes inv: "store_inv db" and gen: "genuine db c"
    and fail: "fail_step db org c code retryable now = Inr (db', run')"
  shows "\<exists>run \<in> set (wf_runs db). rn_id run = rn_id (cl_run c) \<and> rn_org run = org \<and> run_move db run db'"
    and "\<exists>row \<in> set (wf_step_runs db'). sr_id row = sr_id (cl_step c) \<and>
      (sr_state row = Step_FAILED \<or> sr_state row = Step_READY \<and> sr_claim_token row = None)"
proof -
  from fail obtain run row where f: "fenced_run db org c = Inr run" "fenced_step db org c = Inr row"
    by (auto simp: fail_step_def)
  note F = fenced_D [OF inv gen f]
  note D = run_ok_D [OF inv F(1)]
  have same: "r = row" if "r \<in> set (run_rows db run)" "sr_id r = sr_id row" for r
    using that F(5) D(4) by (metis distinct_map_inj)
  have "run_move db run db' \<and> (\<exists>row' \<in> set (wf_step_runs db'). sr_id row' = sr_id row \<and>
      (sr_state row' = Step_FAILED \<or> sr_state row' = Step_READY \<and> sr_claim_token row' = None))"
  proof (cases "retryable \<and> sr_attempt_count row < sr_max_attempts row")
    case True
    let ?f = "\<lambda>r. if sr_id r = sr_id row then retried code now r else r"
    have db': "db' = add_transition run (Some row) (Some (step_state_value Step_RUNNING))
        (step_state_value Step_READY) ''STEP_RETRY_READY'' ''WORKER'' now
        (db\<lparr>wf_step_runs := put_rows sr_id [retried code now row] (wf_step_runs db)\<rparr>)"
      using fail f True by (auto simp: fail_step_def Let_def retried_def)
    have upd: "run_update db (rn_org run) (rn_id run) (\<lambda>r. r) ?f db'"
      using F(5) D(2) by (intro put_step_update) (simp_all add: db' db_simps)
    have "retried code now row \<in> set (wf_step_runs db')"
      using upd F(5) by (auto simp: run_update_def set_update_where in_run_rows in_run_def image_iff intro!: bexI [of _ row])
    moreover have "run_move db run db'"
    proof (rule run_moveI [OF upd])
      fix r assume r: "r \<in> set (run_rows db run)"
      have "row_step (wf_next_id db) (wf_next_id db') row (retried code now row)"
        using F(6) True D(7) [OF F(5)] by (simp add: row_step_def row_ok_def retried_def open_state_def)
      then show "row_step (wf_next_id db) (wf_next_id db') r (?f r)"
        using same [OF r] by auto
    next
      have "state_of (map ?f (run_rows db run)) = (state_of (run_rows db run))(sr_step_key row := Step_READY)"
        using state_of_one [OF D(3,4) F(5) keeps_step_retried] by (simp add: retried_def)
      then show "run_step (run_specs db run) (run_view_of db run)
          \<lparr>vw_run = rn_state run, vw_step = state_of (map ?f (run_rows db run))\<rparr>"
        using retry [of "run_view_of db run" "sr_step_key row" "run_specs db run"] F(4,6) D(5,6) [OF F(5)]
        by (simp add: run_view_of_def)
    qed
    ultimately show ?thesis by (intro conjI bexI [of _ "retried code now row"]) (simp_all add: retried_def)
  next
    case False
    let ?f = "\<lambda>r. if sr_id r = sr_id row then failed code now r else r"
    let ?db1 = "add_transition run (Some row) (Some (step_state_value Step_RUNNING))
        (step_state_value Step_FAILED) code ''WORKER'' now
        (db\<lparr>wf_step_runs := put_rows sr_id [failed code now row] (wf_step_runs db)\<rparr>)"
    have tr: "transition_run_row ?db1 run Run_FAILED code now = Inr (db', run')"
      using fail f False unfolding fail_step_def failed_def Let_def by (simp split: if_splits)
    have upd1: "run_update db (rn_org run) (rn_id run) (\<lambda>r. r) ?f ?db1"
      using F(5) D(2) by (intro put_step_update) (simp_all add: db_simps)
    have "distinct (map rn_id (wf_runs ?db1))" "run \<in> set (wf_runs ?db1)"
      using D(2) F(1) by (simp_all add: db_simps ids_ok_def)
    note t = transition_run_row_update [OF this keeps_run_id tr]
    have nid: "wf_next_id db' = wf_next_id db" using tr by (auto simp: transition_run_row_eq db_simps)
    have "failed code now row \<in> set (wf_step_runs db')"
      using run_update_trans [OF upd1 t(3)] F(5)
      by (auto simp: run_update_def set_update_where in_run_rows in_run_def image_iff intro!: bexI [of _ row])
    moreover have "run_move db run db'"
    proof (rule run_moveI [OF run_update_trans [OF upd1 t(3)]])
      fix r assume r: "r \<in> set (run_rows db run)"
      have "row_step (wf_next_id db) (wf_next_id db') row (failed code now row)"
        using F(6) D(7) [OF F(5)] by (simp add: row_step_def row_ok_def failed_def open_state_def)
      then show "row_step (wf_next_id db) (wf_next_id db') r (?f r)"
        using same [OF r] by auto
    next
      have "state_of (map ?f (run_rows db run)) = (state_of (run_rows db run))(sr_step_key row := Step_FAILED)"
        using state_of_one [OF D(3,4) F(5) keeps_step_failed] by (simp add: failed_def)
      then show "run_step (run_specs db run) (run_view_of db run)
          \<lparr>vw_run = rn_state (moved_run Run_FAILED code now run), vw_step = state_of (map ?f (run_rows db run))\<rparr>"
        using run_step.fail [of "run_view_of db run" "sr_step_key row" "run_specs db run"] F(4,6) D(5,6) [OF F(5)]
        by (simp add: run_view_of_def)
    qed
    ultimately show ?thesis by (intro conjI bexI [of _ "failed code now row"]) (simp_all add: failed_def)
  qed
  with F show "\<exists>run \<in> set (wf_runs db). rn_id run = rn_id (cl_run c) \<and> rn_org run = org \<and> run_move db run db'"
    "\<exists>row \<in> set (wf_step_runs db'). sr_id row = sr_id (cl_step c) \<and>
      (sr_state row = Step_FAILED \<or> sr_state row = Step_READY \<and> sr_claim_token row = None)"
    by (blast, simp)
qed

lemma resume_move:
  assumes inv: "store_inv db" and run: "run \<in> set (wf_runs db)" and st: "rn_state run = Run_PAUSED"
    and t1: "transition_run_row db run Run_RUNNING reason now = Inr (db1, run1)"
    and adv: "advance db1 (rn_org run) run1 now = Inr (db', run')"
  shows "run_move db run db'"
proof -
  note D = run_ok_D [OF inv run]
  have dr: "distinct (map rn_id (wf_runs db))" using D(2) by (simp add: ids_ok_def)
  note t = transition_run_row_update [OF dr run keeps_run_id t1]
  have nid: "wf_next_id db1 = wf_next_id db" using t1 by (auto simp: transition_run_row_eq db_simps)
  have run1: "rn_org run1 = rn_org run" "rn_id run1 = rn_id run" "rn_version_id run1 = rn_version_id run"
    "rn_state run1 = Run_RUNNING" using t(1) by simp_all
  have rr: "run_rows db1 run1 = run_rows db run"
    using run_update_steps(1) [OF t(3), of "rn_org run"] run1 by (simp add: run_rows_def)
  have sp: "run_specs db1 run1 = run_specs db run"
    using run_update_specs(1) [OF t(3)] run1 by (simp add: run_specs_def)
  have ids: "ids_ok db1" by (intro run_update_ids [OF t(3) D(2)]) simp
  have mem: "run1 \<in> set (wf_runs db1)"
    using t(1) t(3) [of 0] run by (auto simp: run_update_def set_update_where image_iff)
  have struct: "run_struct db1 run1" using D(1) run1 by (intro run_update_struct [OF t(3)])
  have adv': "advance db1 (rn_org run1) run1 now = Inr (db', run')" using adv run1 by simp
  obtain g st' where g: "run_update db1 (rn_org run1) (rn_id run1) g (settle_row now st') db'" "run' = g run1"
    "wake (run_specs db1 run1) Run_RUNNING (state_of (run_rows db1 run1))
        \<lparr>vw_run = rn_state run', vw_step = state_of (map (settle_row now st') (run_rows db1 run1))\<rparr>"
    "wf_next_id db' = wf_next_id db1"
    "\<And>r t. r \<in> set (run_rows db1 run1) \<Longrightarrow> sr_state r = Step_PENDING \<Longrightarrow> st' (sr_step_key r) = Some t \<Longrightarrow>
      t \<in> {Step_PENDING, Step_READY, Step_SKIPPED}"
    using advance_update [OF ids mem struct adv'] run1(4) by metis
  have upd2: "run_update db1 (rn_org run) (rn_id run) g (settle_row now st') db'" using g(1) run1 by simp
  show ?thesis
  proof (rule run_moveI [OF run_update_trans [OF t(3) upd2]])
    fix r assume "r \<in> set (run_rows db run)"
    then show "row_step (wf_next_id db) (wf_next_id db') r (settle_row now st' r)"
      using g(5) rr by (intro row_step_settle) simp
  next
    show "run_step (run_specs db run) (run_view_of db run)
       \<lparr>vw_run = rn_state (g (moved_run Run_RUNNING reason now run)),
        vw_step = state_of (map (settle_row now st') (run_rows db run))\<rparr>"
      using resume [of "run_view_of db run" "run_specs db run"] g(2,3) st rr sp t(1)
      by (simp add: run_view_of_def)
  qed
qed

lemma cancel_move:
  assumes inv: "store_inv db" and run: "run \<in> set (wf_runs db)"
    and st: "rn_state run \<in> {Run_RUNNING, Run_PAUSED}"
    and t1: "transition_run_row db run Run_CANCELLED reason now = Inr (db1, run1)"
    and db': "db' = skip_rows run1 ''WORKFLOW_CANCELLED'' Step_CANCELLED now
        (open_steps db1 (rn_org run) (rn_id run)) db1"
  shows "run_move db run db'"
proof -
  note D = run_ok_D [OF inv run]
  have dr: "distinct (map rn_id (wf_runs db))" using D(2) by (simp add: ids_ok_def)
  note t = transition_run_row_update [OF dr run keeps_run_id t1]
  let ?p = "\<lambda>r. open_state (sr_state r)"
  let ?f = "\<lambda>r. if ?p r then mark Step_CANCELLED now r else r"
  have "distinct (map sr_id (wf_step_runs db1))"
    using D(2) t(3) [of 0] by (simp add: ids_ok_def run_update_def)
  from skip_rows_update [OF this, of "rn_org run" "rn_id run" ?p Step_CANCELLED now run1 "''WORKFLOW_CANCELLED''"]
  have upd2: "run_update db1 (rn_org run) (rn_id run) (\<lambda>r. r) ?f db'"
    unfolding db' open_steps_def open_state_def by simp
  show ?thesis
  proof (rule run_moveI [OF run_update_trans [OF t(3) upd2]])
    fix r assume "r \<in> set (run_rows db run)"
    show "row_step (wf_next_id db) (wf_next_id db') r (?f r)"
      using row_step_mark [of _ _ r r Step_CANCELLED now] by simp
  next
    let ?view = "\<lambda>j. if open_state (vw_step (run_view_of db run) j) \<and> j \<in> sp_key ` set (run_specs db run)
       then Step_CANCELLED else vw_step (run_view_of db run) j"
    have keys: "sr_step_key ` set (run_rows db run) = sp_key ` set (run_specs db run)"
      using D(1) by (simp add: run_struct_def)
    have k: "sr_step_key (?f r) = sr_step_key r" for r by simp
    have "state_of (map ?f (run_rows db run)) = ?view"
    proof (rule state_of_eqI)
      show "distinct (map sr_step_key (map ?f (run_rows db run)))" using D(3) k by (simp only: map_map o_def)
    next
      fix r assume "r \<in> set (map ?f (run_rows db run))"
      then obtain r0 where r0: "r0 \<in> set (run_rows db run)" "r = ?f r0" by auto
      then have "sr_step_key r = sr_step_key r0" by simp
      then show "?view (sr_step_key r) = sr_state r" using r0 D(5,6) [OF r0(1)] by auto
    next
      fix j assume "j \<notin> sr_step_key ` set (map ?f (run_rows db run))"
      then have "j \<notin> sr_step_key ` set (run_rows db run)" unfolding set_map image_image k .
      then show "?view j = Step_PENDING" using state_of_other keys by (simp add: run_view_of_def)
    qed
    then show "run_step (run_specs db run) (run_view_of db run)
        \<lparr>vw_run = rn_state (moved_run Run_CANCELLED reason now run), vw_step = state_of (map ?f (run_rows db run))\<rparr>"
      using run_step.cancel [of "run_view_of db run" "run_specs db run"] st by (simp add: run_view_of_def)
  qed
qed

lemma transition_run_move:
  assumes inv: "store_inv db" and tr: "transition_run db org rid target reason now = Inr (db', Some run')"
    and target: "target \<in> {Run_PAUSED, Run_RUNNING, Run_CANCELLED}"
  shows "\<exists>run \<in> set (wf_runs db). rn_id run = rid \<and> rn_org run = org \<and> run_move db run db'"
proof -
  from tr obtain run where g: "get_run_row db org rid = Some run"
    by (auto simp: transition_run_def split: option.splits)
  then have R: "run \<in> set (wf_runs db)" "rn_org run = org" "rn_id run = rid" using get_run_row_D by auto
  from tr g obtain db1 run1 where t1: "transition_run_row db run target reason now = Inr (db1, run1)"
    by (auto simp: transition_run_def)
  have dr: "distinct (map rn_id (wf_runs db))" using inv by (simp add: store_inv_def ids_ok_def)
  note t = transition_run_row_update [OF dr R(1) keeps_run_id t1]
  have np: "rn_state run \<noteq> Run_PENDING"
    using inv R(1) by (simp add: store_inv_def run_ok_def run_inv_def run_view_of_def)
  consider (pause) "target = Run_PAUSED" "rn_state run = Run_RUNNING"
    | (resume) "target = Run_RUNNING" "rn_state run = Run_PAUSED"
    | (cancel) "target = Run_CANCELLED" "rn_state run \<in> {Run_RUNNING, Run_PAUSED}"
    using target t(2) np by (cases "rn_state run") auto
  then have "run_move db run db'"
  proof cases
    case pause
    then have "db' = db1" using tr g t1 by (simp add: transition_run_def)
    then show ?thesis
      using t(3) run_step.pause [of "run_view_of db run" "run_specs db run"] pause
      by (intro run_moveI [where f = "\<lambda>r. r"]) (auto simp: run_view_of_def)
  next
    case cancel
    then show ?thesis using tr g t1 R
      by (intro cancel_move [OF inv R(1)]) (auto simp: transition_run_def)
  next
    case resume
    then show ?thesis using tr g t1 R
      by (intro resume_move [OF inv R(1)]) (auto simp: transition_run_def)
  qed
  with R show ?thesis by blast
qed

end
