(* ===== verification/Workflow_System.thy ===== *)
theory Workflow_System
  imports Workflow_Engine
begin

text \<open>
  Publishing and starting keep the invariant of the store, so every store the engine can
  reach satisfies it; the properties of the workflow engine follow.
\<close>

section \<open>Publishing a version\<close>

lemma validate_graph_wf:
  assumes valid: "\<And>s. s \<in> set steps \<Longrightarrow> step_spec_valid s" and val: "validate_workflow_graph steps = Inr ks"
    and S: "map sp_key S = ks" "set S \<subseteq> set steps"
  shows "graph_wf S" and "set S = set steps"
proof -
  note V = validate_Inr_D [OF valid val]
  note K = kahn_order_props [OF V(1)]
  have d: "distinct (map sp_key steps)" using V(1) by (simp add: graph_closed_def)
  have dS: "distinct (map sp_key S)" using S(1) V(2) K(1) by simp
  have "card (set S) = length ks" using dS S(1) by (auto simp: distinct_map distinct_card)
  moreover have "card (set steps) = length steps" using d by (simp add: distinct_map distinct_card)
  ultimately show eq: "set S = set steps" using S(2) V(3) by (metis card_subset_eq List.finite_set)
  have "graph_closed S" using V(1) dS eq by (simp add: graph_closed_def)
  moreover have "topo_sorted S (map sp_key S)" using K(3) S(1) V(2) eq by (simp add: topo_sorted_def)
  moreover have "S \<noteq> []" using V(5) eq by auto
  ultimately show "graph_wf S" by (simp add: graph_wf_def)
qed

lemma add_version_steps_rows:
  assumes "add_version_steps org vid steps order ks db = Inr db'"
  obtains rows where "db' = db\<lparr>wf_version_steps := wf_version_steps db @ rows, wf_next_id := wf_next_id db + length ks\<rparr>"
    "map vs_id rows = [wf_next_id db ..< wf_next_id db + length ks]"
    "map vs_topological_order rows = [order ..< order + length ks]"
    "\<And>r. r \<in> set rows \<Longrightarrow> vs_org r = org \<and> vs_version_id r = vid \<and> vs_spec r \<in> set steps"
    "map (\<lambda>r. sp_key (vs_spec r)) rows = ks"
proof -
  have "\<exists>rows. db' = db\<lparr>wf_version_steps := wf_version_steps db @ rows, wf_next_id := wf_next_id db + length ks\<rparr> \<and>
    map vs_id rows = [wf_next_id db ..< wf_next_id db + length ks] \<and>
    map vs_topological_order rows = [order ..< order + length ks] \<and>
    (\<forall>r \<in> set rows. vs_org r = org \<and> vs_version_id r = vid \<and> vs_spec r \<in> set steps) \<and>
    map (\<lambda>r. sp_key (vs_spec r)) rows = ks"
    using assms
  proof (induction ks arbitrary: order db)
    case (Cons k ks)
    from Cons.prems obtain item where item: "map_of (rev (map (\<lambda>s. (sp_key s, s)) steps)) k = Some item"
      by (auto split: option.splits)
    let ?row = "\<lparr>vs_id = wf_next_id db, vs_org = org, vs_version_id = vid, vs_spec = item,
       vs_topological_order = order\<rparr>"
    let ?db1 = "db\<lparr>wf_version_steps := wf_version_steps db @ [?row], wf_next_id := Suc (wf_next_id db)\<rparr>"
    have it: "item \<in> set steps" "sp_key item = k" using map_of_SomeD [OF item] by auto
    have "add_version_steps org vid steps (Suc order) ks ?db1 = Inr db'" using Cons.prems item by simp
    from Cons.IH [OF this] obtain rows where
      "db' = ?db1\<lparr>wf_version_steps := wf_version_steps ?db1 @ rows, wf_next_id := wf_next_id ?db1 + length ks\<rparr>"
      "map vs_id rows = [wf_next_id ?db1 ..< wf_next_id ?db1 + length ks]"
      "map vs_topological_order rows = [Suc order ..< Suc order + length ks]"
      "\<forall>r \<in> set rows. vs_org r = org \<and> vs_version_id r = vid \<and> vs_spec r \<in> set steps"
      "map (\<lambda>r. sp_key (vs_spec r)) rows = ks" by blast
    with it show ?case by (intro exI [of _ "?row # rows"]) (simp add: upt_rec)
  qed simp
  with that show thesis by blast
qed


lemma version_specs_new:
  assumes "map vs_topological_order rows = [order ..< order + n]"
    and "\<And>r. r \<in> set rows \<Longrightarrow> vs_org r = org \<and> vs_version_id r = vid"
    and "\<And>r. r \<in> set (wf_version_steps db) \<Longrightarrow> vs_version_id r < vid"
    and "wf_version_steps db' = wf_version_steps db @ rows"
  shows "version_specs db' org vid = map vs_spec rows"
    and "vid' < vid \<Longrightarrow> version_specs db' org' vid' = version_specs db org' vid'"
proof -
  have old: "filter (\<lambda>r. vs_org r = org \<and> vs_version_id r = vid) (wf_version_steps db) = []"
    using assms(3) by (fastforce simp: filter_empty_conv)
  have new: "filter (\<lambda>r. vs_org r = org \<and> vs_version_id r = vid) rows = rows"
    using assms(2) by (simp add: filter_id_conv)
  have "sort_key vs_topological_order rows = rows"
    by (rule sort_key_id_if_sorted) (simp add: assms(1))
  then show "version_specs db' org vid = map vs_spec rows"
    by (simp add: version_specs_def version_step_rows_def assms(4) old new)
  assume "vid' < vid"
  then have "filter (\<lambda>r. vs_org r = org' \<and> vs_version_id r = vid') rows = []"
    using assms(2) by (auto simp: filter_empty_conv)
  then show "version_specs db' org' vid' = version_specs db org' vid'"
    by (simp add: version_specs_def version_step_rows_def assms(4))
qed

lemma spec_for_step_append:
  assumes "wf_version_steps db' = wf_version_steps db @ rows" and "spec_for_step db org i = Inr s"
  shows "spec_for_step db' org i = Inr s"
proof -
  have "find p (xs @ ys) = (case find p xs of None \<Rightarrow> find p ys | Some x \<Rightarrow> Some x)"
    for p :: "version_step_row \<Rightarrow> bool" and xs ys
    by (induction xs) auto
  with assms show ?thesis by (auto simp: spec_for_step_def)
qed

text \<open>Adding versions and definitions does not touch a run.\<close>

lemma run_ok_frame:
  assumes ok: "run_ok db run" and runs: "wf_step_runs db' = wf_step_runs db"
    and steps: "wf_version_steps db' = wf_version_steps db @ rows"
    and specs: "run_specs db' run = run_specs db run"
  shows "run_ok db' run"
proof -
  have rr: "run_rows db' run = run_rows db run" by (simp add: run_rows_def run_steps_def runs)
  have "linked db' run r" if "linked db run r" for r
    using that spec_for_step_append [OF steps] unfolding linked_def specs by blast
  then show ?thesis using ok unfolding run_ok_def run_struct_def rr specs run_view_of_def by blast
qed

lemma create_definition_inv:
  assumes inv: "store_inv db" and new: "create_definition db org key name descr steps now = Inr (db', d)"
    and valid: "\<And>s. s \<in> set steps \<Longrightarrow> step_spec_valid s"
  shows "store_inv db'"
proof -
  have db': "wf_runs db' = wf_runs db" "wf_step_runs db' = wf_step_runs db" "wf_versions db' = wf_versions db"
    "wf_version_steps db' = wf_version_steps db @ []" "wf_next_id db' = Suc (wf_next_id db)"
    "wf_definitions db' = wf_definitions db @ [d]" "df_draft_steps d = steps" "df_id d = wf_next_id db"
    using new by (auto simp: create_definition_def Let_def split: if_splits)
  have sp: "version_specs db' = version_specs db"
    by (simp add: fun_eq_iff version_specs_def version_step_rows_def db'(4))
  have "ids_ok db'" using inv unfolding store_inv_def ids_ok_def by (fastforce simp: db' less_SucI)
  moreover have "published_ok db'" using inv valid unfolding store_inv_def published_ok_def sp by (auto simp: db')
  moreover have "run_ok db' run" if "run \<in> set (wf_runs db')" for run
    using inv that db' by (intro run_ok_frame [OF _ db'(2,4)]) (auto simp: store_inv_def run_specs_def sp)
  ultimately show ?thesis by (simp add: store_inv_def)
qed

lemma update_definition_inv:
  assumes inv: "store_inv db" and row: "row \<in> set (wf_definitions db)"
    and upd: "update_definition_row db row name descr steps now = (db', d)"
    and valid: "\<And>ss s. steps = Some ss \<Longrightarrow> s \<in> set ss \<Longrightarrow> step_spec_valid s"
  shows "store_inv db'"
proof -
  have db': "wf_runs db' = wf_runs db" "wf_step_runs db' = wf_step_runs db" "wf_versions db' = wf_versions db"
    "wf_version_steps db' = wf_version_steps db @ []" "wf_next_id db' = wf_next_id db"
    "wf_definitions db' = put_rows df_id [d] (wf_definitions db)"
    "df_draft_steps d = (case steps of None \<Rightarrow> df_draft_steps row | Some ss \<Rightarrow> ss)"
    "df_id d = df_id row"
    using upd by (auto simp: update_definition_row_def Let_def split: option.splits)
  have sp: "version_specs db' = version_specs db"
    by (simp add: fun_eq_iff version_specs_def version_step_rows_def db'(4))
  have dv: "\<forall>s \<in> set (df_draft_steps d). step_spec_valid s"
    using inv row valid db'(7) by (auto simp: store_inv_def published_ok_def split: option.splits)
  have "map df_id (put_rows df_id [d] (wf_definitions db)) = map df_id (wf_definitions db)"
    by (intro map_put_rows) simp
  then have dk: "map df_id (wf_definitions db') = map df_id (wf_definitions db)" by (simp add: db'(6))
  have "df_id e < wf_next_id db'" if "e \<in> set (wf_definitions db')" for e
  proof -
    have "df_id e \<in> set (map df_id (wf_definitions db))" unfolding dk [symmetric] using that by simp
    then show ?thesis using inv by (auto simp: store_inv_def ids_ok_def db'(5))
  qed
  with dk have "ids_ok db'" using inv unfolding store_inv_def ids_ok_def by (simp add: db'(1-5))
  moreover have "published_ok db'"
    using inv dv unfolding store_inv_def published_ok_def sp db'(3,6) put_rows_def by auto
  moreover have "run_ok db' run" if "run \<in> set (wf_runs db')" for run
    using inv that db' by (intro run_ok_frame [OF _ db'(2,4)]) (auto simp: store_inv_def run_specs_def sp)
  ultimately show ?thesis by (simp add: store_inv_def)
qed

lemma publish_frame:
  assumes inv: "store_inv db" and pub: "publish_version hash db org row order now = Inr (db', v)"
  shows "wf_runs db' = wf_runs db" "wf_step_runs db' = wf_step_runs db" "wf_next_id db \<le> wf_next_id db'"
    "\<exists>row'. df_id row' = df_id row \<and> df_org row' = df_org row \<and> wf_definitions db' = put_rows df_id [row'] (wf_definitions db)"
    "\<And>o' i. i < wf_next_id db \<Longrightarrow> version_specs db' o' i = version_specs db o' i"
proof -
  from pub obtain n db1 db2 row' where add: "add_version_steps org n (df_draft_steps row) 0 order db1 = Inr db2"
    and n: "n = wf_next_id db" and db1: "wf_runs db1 = wf_runs db" "wf_step_runs db1 = wf_step_runs db"
      "wf_version_steps db1 = wf_version_steps db"
      "wf_next_id db1 = Suc (wf_next_id db)" "wf_definitions db1 = wf_definitions db"
    and db': "db' = db2\<lparr>wf_definitions := put_rows df_id [row'] (wf_definitions db2)\<rparr>"
      "df_id row' = df_id row" "df_org row' = df_org row"
    by (auto simp: publish_version_def Let_def)
  obtain rows where db2: "db2 = db1\<lparr>wf_version_steps := wf_version_steps db1 @ rows, wf_next_id := wf_next_id db1 + length order\<rparr>"
    and ord: "map vs_topological_order rows = [0 ..< 0 + length order]"
    and r: "\<And>r. r \<in> set rows \<Longrightarrow> vs_org r = org \<and> vs_version_id r = n \<and> vs_spec r \<in> set (df_draft_steps row)"
    using add by (rule add_version_steps_rows) blast
  show "wf_runs db' = wf_runs db" "wf_step_runs db' = wf_step_runs db" "wf_next_id db \<le> wf_next_id db'"
    "\<exists>row'. df_id row' = df_id row \<and> df_org row' = df_org row \<and> wf_definitions db' = put_rows df_id [row'] (wf_definitions db)"
    using db' db2 db1 by auto
  have idlt: "vs_version_id q < n" if "q \<in> set (wf_version_steps db)" for q
    using inv that n by (simp add: store_inv_def ids_ok_def)
  have steps: "wf_version_steps db' = wf_version_steps db @ rows" by (simp add: db' db2 db1)
  show "version_specs db' o' i = version_specs db o' i" if "i < wf_next_id db" for o' i
    using r that n by (intro version_specs_new(2) [OF ord _ idlt steps, of org]) auto
qed

lemma publish_version_D:
  assumes inv: "store_inv db" and row: "row \<in> set (wf_definitions db)"
    and val: "validate_workflow_graph (df_draft_steps row) = Inr order"
    and pub: "publish_version hash db org row order now = Inr (db', v)"
  shows "store_inv db'" and "get_version db' org (wv_id v) = Some (v\<lparr>wv_steps := version_specs db' org (wv_id v)\<rparr>)"
    and "set (version_specs db' org (wv_id v)) = set (df_draft_steps row)"
    and "map sp_key (version_specs db' org (wv_id v)) = order"
    and "wv_id v = wf_next_id db"
proof -
  let ?vid = "wf_next_id db"
  let ?ver = "\<lparr>vr_id = ?vid, vr_org = org, vr_definition_id = df_id row,
     vr_version_number = latest_version_number db org (df_id row) + 1,
     vr_content_hash = hash (df_draft_steps row), vr_published_at = now\<rparr>"
  let ?db1 = "db\<lparr>wf_versions := wf_versions db @ [?ver], wf_next_id := Suc ?vid\<rparr>"
  let ?row = "row\<lparr>df_status := Def_ACTIVE, df_updated_at := now\<rparr>"
  from pub obtain db2 where add: "add_version_steps org ?vid (df_draft_steps row) 0 order ?db1 = Inr db2"
    and db': "db' = db2\<lparr>wf_definitions := put_rows df_id [?row] (wf_definitions db2)\<rparr>"
    and v: "v = \<lparr>wv_id = ?vid, wv_org = org, wv_definition_id = df_id row,
       wv_version_number = vr_version_number ?ver, wv_content_hash = vr_content_hash ?ver,
       wv_steps = df_draft_steps row, wv_published_at = now\<rparr>"
    by (auto simp: publish_version_def Let_def)
  obtain rows where db2: "db2 = ?db1\<lparr>wf_version_steps := wf_version_steps ?db1 @ rows,
       wf_next_id := wf_next_id ?db1 + length order\<rparr>"
    and ids: "map vs_id rows = [wf_next_id ?db1 ..< wf_next_id ?db1 + length order]"
    and ord: "map vs_topological_order rows = [0 ..< 0 + length order]"
    and r: "\<And>r. r \<in> set rows \<Longrightarrow> vs_org r = org \<and> vs_version_id r = ?vid \<and> vs_spec r \<in> set (df_draft_steps row)"
    and keys: "map (\<lambda>r. sp_key (vs_spec r)) rows = order"
    using add by (rule add_version_steps_rows) blast
  have idlt: "vs_version_id q < ?vid" if "q \<in> set (wf_version_steps db)" for q
    using inv that by (simp add: store_inv_def ids_ok_def)
  have steps: "wf_version_steps db' = wf_version_steps db @ rows" by (simp add: db' db2)
  note S = version_specs_new [OF ord _ idlt steps, of org]
  have new: "version_specs db' org ?vid = map vs_spec rows" using r by (intro S(1)) auto
  have old: "version_specs db' o' i = version_specs db o' i" if "i < ?vid" for o' i
    using r that by (intro S(2)) auto
  have valid: "\<And>s. s \<in> set (df_draft_steps row) \<Longrightarrow> step_spec_valid s"
    using inv row by (auto simp: store_inv_def published_ok_def)
  have sub: "set (map vs_spec rows) \<subseteq> set (df_draft_steps row)" using r by auto
  have mk: "map sp_key (map vs_spec rows) = order" using keys by (simp add: o_def)
  note G = validate_graph_wf [OF valid val mk sub]
  show "set (version_specs db' org (wv_id v)) = set (df_draft_steps row)" using new G(2) v by simp
  show "map sp_key (version_specs db' org (wv_id v)) = order" using new mk v by simp
  show "wv_id v = wf_next_id db" by (simp add: v)
  have vs: "wf_versions db' = wf_versions db @ [?ver]" by (simp add: db' db2)
  have "find (\<lambda>w. vr_org w = org \<and> vr_id w = ?vid) (wf_versions db') = Some ?ver"
    using inv unfolding vs by (intro find_SomeI) (auto simp: store_inv_def ids_ok_def)
  then show "get_version db' org (wv_id v) = Some (v\<lparr>wv_steps := version_specs db' org (wv_id v)\<rparr>)"
    by (simp add: get_version_def version_of_row_def v)
  have mem: "set (map vs_id rows) = {Suc ?vid ..< Suc ?vid + length order}"
    unfolding ids set_upt by simp
  have "ids_ok db'"
    unfolding ids_ok_def
  proof (intro conjI)
    show "distinct (map vs_id (wf_version_steps db'))"
    proof -
      have "set (map vs_id (wf_version_steps db)) \<inter> set (map vs_id rows) = {}"
        using inv mem by (fastforce simp: store_inv_def ids_ok_def)
      moreover have "distinct (map vs_id rows)" unfolding ids by (rule distinct_upt)
      ultimately show ?thesis using inv by (simp add: steps store_inv_def ids_ok_def)
    qed
    show "\<forall>q \<in> set (wf_version_steps db'). vs_id q < wf_next_id db' \<and> vs_version_id q < wf_next_id db'"
    proof
      fix q assume "q \<in> set (wf_version_steps db')"
      then consider "q \<in> set (wf_version_steps db)" | "q \<in> set rows" by (auto simp: steps)
      then show "vs_id q < wf_next_id db' \<and> vs_version_id q < wf_next_id db'"
      proof cases
        case 1
        then have "vs_id q < ?vid \<and> vs_version_id q < ?vid" using inv by (simp add: store_inv_def ids_ok_def)
        then show ?thesis by (simp add: db' db2)
      next
        case 2
        then have "vs_id q \<in> set (map vs_id rows)" by simp
        with mem r [OF 2] show ?thesis by (simp add: db' db2)
      qed
    qed
    have dk: "map df_id (wf_definitions db') = map df_id (wf_definitions db)"
      unfolding db' db2 by (simp, intro map_put_rows) simp
    then show "distinct (map df_id (wf_definitions db'))" using inv by (simp add: store_inv_def ids_ok_def)
    show "\<forall>d \<in> set (wf_definitions db'). df_id d < wf_next_id db'"
    proof
      fix d assume "d \<in> set (wf_definitions db')"
      then have "df_id d \<in> set (map df_id (wf_definitions db))" unfolding dk [symmetric] by simp
      then have "df_id d < ?vid" using inv by (auto simp: store_inv_def ids_ok_def)
      then show "df_id d < wf_next_id db'" by (simp add: db' db2)
    qed
  qed (use inv in \<open>fastforce simp: db' db2 store_inv_def ids_ok_def\<close>)+
  moreover have "published_ok db'"
  proof -
    have "graph_wf (version_specs db' org ?vid) \<and>
        (\<forall>s \<in> set (version_specs db' org ?vid). step_spec_valid s)"
      using G new valid by simp
    moreover have "vr_id w < ?vid" if "w \<in> set (wf_versions db)" for w
      using inv that by (simp add: store_inv_def ids_ok_def)
    moreover have "\<forall>s \<in> set (df_draft_steps d). step_spec_valid s" if "d \<in> set (wf_definitions db')" for d
    proof -
      from that have "d \<in> set (wf_definitions db) \<or> d = ?row"
        by (auto simp: db' db2 put_rows_def split: if_splits)
      then show ?thesis using inv valid by (auto simp: store_inv_def published_ok_def)
    qed
    ultimately show ?thesis
      using inv old by (auto simp: published_ok_def store_inv_def vs)
  qed
  moreover have "run_ok db' run" if run: "run \<in> set (wf_runs db')" for run
  proof -
    have mem: "run \<in> set (wf_runs db)" using run by (simp add: db' db2)
    then have "rn_version_id run < ?vid" using inv by (simp add: store_inv_def ids_ok_def)
    then show ?thesis using inv mem old
      by (intro run_ok_frame [OF _ _ steps]) (auto simp: store_inv_def run_specs_def db' db2)
  qed
  ultimately show "store_inv db'" by (simp add: store_inv_def)
qed

section \<open>Starting a run\<close>

definition fresh_step :: "run_row \<Rightarrow> (string \<times> uuid) list \<Rightarrow> step_spec \<Rightarrow> step_run_row \<Rightarrow> bool" where
  "fresh_step run ids s r \<longleftrightarrow> sr_org r = rn_org run \<and> sr_run_id r = rn_id run \<and> sr_step_key r = sp_key s \<and>
     map_of ids (sp_key s) = Some (sr_version_step_id r) \<and>
     sr_state r = (if sp_depends_on s = [] then Step_READY else Step_PENDING) \<and>
     sr_attempt_count r = 0 \<and> sr_max_attempts r = rp_max_attempts (sp_retry s) \<and>
     sr_claim_token r = None \<and> sr_next_eligible_at r = None"

lemma add_step_runs_rows:
  assumes "add_step_runs run ids specs now db = Inr db'"
  shows "\<exists>rows hs. wf_step_runs db' = wf_step_runs db @ rows \<and> wf_history db' = wf_history db @ hs \<and>
    wf_next_id db' = wf_next_id db + length specs \<and> wf_runs db' = wf_runs db \<and>
    wf_definitions db' = wf_definitions db \<and> wf_versions db' = wf_versions db \<and>
    wf_version_steps db' = wf_version_steps db \<and>
    map sr_id rows = [wf_next_id db ..< wf_next_id db + length specs] \<and>
    list_all2 (fresh_step run ids) specs rows"
  using assms
proof (induction specs arbitrary: db)
  case (Cons s specs)
  from Cons.prems obtain vsid where v: "map_of ids (sp_key s) = Some vsid" by (auto split: option.splits)
  define row where "row = \<lparr>sr_id = wf_next_id db, sr_org = rn_org run, sr_run_id = rn_id run,
    sr_version_step_id = vsid, sr_step_key = sp_key s, sr_step_type = sp_step_type s,
    sr_state = (if sp_depends_on s = [] then Step_READY else Step_PENDING), sr_attempt_count = 0,
    sr_max_attempts = rp_max_attempts (sp_retry s), sr_execution_owner_id = None, sr_claim_token = None,
    sr_claimed_at = None, sr_next_eligible_at = None, sr_input = [], sr_output = None,
    sr_error_code = None, sr_external_ref = None, sr_created_at = now, sr_updated_at = now\<rparr>"
  define db1 where "db1 = add_transition run (Some row) None (step_state_value (sr_state row))
    (if sr_state row = Step_READY then ''INITIAL_READY'' else ''AWAITING_DEPENDENCIES'') ''ENGINE'' now
    (db\<lparr>wf_step_runs := wf_step_runs db @ [row], wf_next_id := Suc (wf_next_id db)\<rparr>)"
  have row: "sr_id row = wf_next_id db" "fresh_step run ids s row"
    using v by (simp_all add: row_def fresh_step_def)
  have hist: "\<exists>h. wf_history db1 = wf_history db @ [h]" by (simp add: db1_def add_transition_def)
  have db1: "wf_step_runs db1 = wf_step_runs db @ [row]" "wf_next_id db1 = Suc (wf_next_id db)"
    "wf_runs db1 = wf_runs db" "wf_definitions db1 = wf_definitions db" "wf_versions db1 = wf_versions db"
    "wf_version_steps db1 = wf_version_steps db"
    by (simp_all add: db1_def db_simps)
  have "add_step_runs run ids specs now db1 = Inr db'"
    using Cons.prems v by (simp add: Let_def db1_def row_def)
  from Cons.IH [OF this] hist db1 row show ?case
    by (fastforce simp: upt_rec intro: exI [of _ "row # rows" for rows])
qed simp

lemma start_run_rows:
  assumes ids: "ids_ok db" and st: "start_run_row snap db org version input ikey fp corr now = Inr (db', run, True)"
  obtains rows where "wf_runs db' = wf_runs db @ [run]" "wf_step_runs db' = wf_step_runs db @ rows"
    "wf_definitions db' = wf_definitions db" "wf_versions db' = wf_versions db"
    "wf_version_steps db' = wf_version_steps db"
    "wf_next_id db' = Suc (wf_next_id db) + length (wv_steps version)"
    "map sr_id rows = [Suc (wf_next_id db) ..< Suc (wf_next_id db) + length (wv_steps version)]"
    "list_all2 (fresh_step run (version_step_ids db org (wv_id version))) (wv_steps version) rows"
    "rn_id run = wf_next_id db" "rn_org run = org" "rn_version_id run = wv_id version"
    "rn_state run = Run_RUNNING" "rn_idempotency_key run = ikey" "rn_request_fingerprint run = fp"
    "rn_input run = input"
    "\<And>k. ikey = Some k \<Longrightarrow> run_by_idempotency db org (wv_id version) k = None"
proof -
  define run0 where "run0 = \<lparr>rn_id = wf_next_id db, rn_org = org,
      rn_definition_id = wv_definition_id version, rn_version_id = wv_id version,
      rn_state = Run_PENDING, rn_state_version = 1, rn_input = input,
      rn_output = None, rn_idempotency_key = ikey,
      rn_request_fingerprint = fp, rn_correlation_id = corr,
      rn_error_code = None, rn_terminal_reason = None, rn_started_at = now,
      rn_ended_at = None, rn_created_at = now, rn_updated_at = now\<rparr>"
  let ?db1 = "db\<lparr>wf_runs := wf_runs db @ [run0], wf_next_id := Suc (wf_next_id db)\<rparr>"
  from st obtain db2 where tr: "transition_run_row ?db1 run0 Run_RUNNING ''WORKFLOW_STARTED'' now = Inr (db2, run)"
    and add: "add_step_runs run (version_step_ids db2 org (wv_id version)) (wv_steps version) now db2 = Inr db'"
    and key: "\<And>k. ikey = Some k \<Longrightarrow> run_by_idempotency db org (wv_id version) k = None"
    unfolding start_run_row_def run0_def [symmetric] Let_def
    by (auto simp del: add_step_runs.simps split: option.splits if_splits)
  have run: "run = moved_run Run_RUNNING ''WORKFLOW_STARTED'' now run0"
    and db2: "wf_runs db2 = put_rows rn_id [run] (wf_runs db @ [run0])" "wf_step_runs db2 = wf_step_runs db"
      "wf_definitions db2 = wf_definitions db" "wf_versions db2 = wf_versions db"
      "wf_version_steps db2 = wf_version_steps db" "wf_next_id db2 = Suc (wf_next_id db)"
    using tr by (auto simp: transition_run_row_eq db_simps)
  have "rn_id r \<noteq> wf_next_id db" if "r \<in> set (wf_runs db)" for r
    using ids that by (auto simp: ids_ok_def)
  then have runs: "wf_runs db2 = wf_runs db @ [run]"
    unfolding db2(1) by (intro put_rows_last) (auto simp: run run0_def)
  have vsi: "version_step_ids db2 org (wv_id version) = version_step_ids db org (wv_id version)"
    by (simp add: version_step_ids_def version_step_rows_def db2)
  obtain rows where "wf_step_runs db' = wf_step_runs db2 @ rows" "wf_next_id db' = wf_next_id db2 + length (wv_steps version)"
      "wf_runs db' = wf_runs db2" "wf_definitions db' = wf_definitions db2" "wf_versions db' = wf_versions db2"
      "wf_version_steps db' = wf_version_steps db2"
      "map sr_id rows = [wf_next_id db2 ..< wf_next_id db2 + length (wv_steps version)]"
      "list_all2 (fresh_step run (version_step_ids db2 org (wv_id version))) (wv_steps version) rows"
    using add_step_runs_rows [OF add] by blast
  with runs db2 vsi key show thesis
    by (intro that [of rows]) (simp_all add: run run0_def)
qed

lemma version_step_link:
  assumes ids: "ids_ok db" and d: "distinct (map sp_key (version_specs db org vid))"
    and look: "map_of (version_step_ids db org vid) (sp_key s) = Some i" and s: "s \<in> set (version_specs db org vid)"
  shows "spec_for_step db org i = Inr s"
proof -
  let ?rows = "version_step_rows db org vid"
  have set: "set (version_specs db org vid) = vs_spec ` set ?rows" by (simp add: version_specs_def)
  from map_of_SomeD [OF look] obtain r where r: "r \<in> set ?rows" "sp_key (vs_spec r) = sp_key s" "vs_id r = i"
    by (auto simp: version_step_ids_def)
  then have "vs_spec r = s" using d s set by (metis distinct_map_inj imageI)
  moreover have mem: "r \<in> set (wf_version_steps db)" "vs_org r = org" using r(1) by (auto simp: version_step_rows_def)
  moreover have "find (\<lambda>q. vs_org q = org \<and> vs_id q = i) (wf_version_steps db) = Some r"
  proof (rule find_SomeI)
    fix q assume "q \<in> set (wf_version_steps db)" "vs_org q = org \<and> vs_id q = i"
    with mem r(3) ids show "q = r" unfolding ids_ok_def by (metis distinct_map_inj)
  qed (use mem r in simp_all)
  ultimately show ?thesis by (simp add: spec_for_step_def)
qed

lemma start_run_inv:
  assumes inv: "store_inv db" and ver: "get_version db org vid = Some version"
    and st: "start_run_row snap db org version input ikey fp corr now = Inr (db', run, True)"
  shows "store_inv db'" and "run_start (run_specs db' run) (run_view_of db' run)"
proof -
  have ids: "ids_ok db" using inv by (simp add: store_inv_def)
  from ver obtain w where w: "w \<in> set (wf_versions db)" "vr_org w = org" "vr_id w = vid"
    and v: "version = version_of_row db org w"
    unfolding get_version_def by (auto dest: find_Some_D)
  have wid: "wv_id version = vid" and ws: "wv_steps version = version_specs db org vid"
    using w v by (simp_all add: version_of_row_def)
  let ?S = "version_specs db org vid"
  have gS: "graph_wf ?S" and vS: "\<forall>s \<in> set ?S. step_spec_valid s"
    using inv w by (auto simp: store_inv_def published_ok_def)
  then have rS: "\<forall>s \<in> set ?S. 1 \<le> rp_max_attempts (sp_retry s)" by (simp add: step_spec_valid_def)
  have dS: "distinct (map sp_key ?S)" using gS by (rule graph_wf_keys)
  have vlt: "vid < wf_next_id db" using ids w by (auto simp: ids_ok_def)
  let ?n = "wf_next_id db"
  from ids st obtain rows where runs: "wf_runs db' = wf_runs db @ [run]" and stp: "wf_step_runs db' = wf_step_runs db @ rows"
    and oth: "wf_definitions db' = wf_definitions db" "wf_versions db' = wf_versions db"
      "wf_version_steps db' = wf_version_steps db" "wf_next_id db' = Suc ?n + length ?S"
    and rid: "map sr_id rows = [Suc ?n ..< Suc ?n + length ?S]"
    and fr: "list_all2 (fresh_step run (version_step_ids db org vid)) ?S rows"
    and rn: "rn_id run = ?n" "rn_org run = org" "rn_version_id run = vid" "rn_state run = Run_RUNNING"
    unfolding wid [symmetric] ws [symmetric, unfolded wid [symmetric]]
    by (rule start_run_rows) blast
  have len: "length rows = length ?S" using fr by (simp add: list_all2_lengthD)
  have fresh: "\<exists>s \<in> set ?S. fresh_step run (version_step_ids db org vid) s r" if "r \<in> set rows" for r
    using fr that by (metis list_all2_conv_all_nth in_set_conv_nth)
  have sp: "version_specs db' = version_specs db" "spec_for_step db' = spec_for_step db"
    by (simp_all add: fun_eq_iff version_specs_def version_step_rows_def spec_for_step_def oth)
  have lt: "sr_run_id r < ?n" if "r \<in> set (wf_step_runs db)" for r
    using ids that by (simp add: ids_ok_def)
  have rr: "run_rows db' run = rows"
  proof -
    have "filter (\<lambda>r. sr_org r = org \<and> sr_run_id r = ?n) (wf_step_runs db) = []"
      using lt by (fastforce simp: filter_empty_conv)
    moreover have "filter (\<lambda>r. sr_org r = org \<and> sr_run_id r = ?n) rows = rows"
      using fresh rn by (fastforce simp: filter_id_conv fresh_step_def)
    ultimately show ?thesis by (simp add: run_rows_def run_steps_def stp rn)
  qed
  have keys: "map sr_step_key rows = map sp_key ?S"
    using fr by (induction rule: list_all2_induct) (auto simp: fresh_step_def)
  have rs: "run_specs db' run = ?S" by (simp add: run_specs_def sp rn)
  have rid': "sr_id ` set rows = {Suc ?n ..< Suc ?n + length ?S}"
    using rid by (metis set_map set_upt)
  have "ids_ok db'"
    unfolding ids_ok_def
  proof (intro conjI)
    show "distinct (map sr_id (wf_step_runs db'))"
    proof -
      have "set (map sr_id (wf_step_runs db)) \<inter> set (map sr_id rows) = {}"
        using ids rid' by (fastforce simp: ids_ok_def)
      moreover have "distinct (map sr_id rows)" unfolding rid by (rule distinct_upt)
      ultimately show ?thesis using ids by (simp add: stp ids_ok_def)
    qed
    show "\<forall>r \<in> set (wf_step_runs db'). sr_id r < wf_next_id db' \<and> sr_run_id r < wf_next_id db' \<and>
        (\<forall>t. sr_claim_token r = Some t \<longrightarrow> t < wf_next_id db')"
    proof
      fix r assume "r \<in> set (wf_step_runs db')"
      then consider "r \<in> set (wf_step_runs db)" | "r \<in> set rows" by (auto simp: stp)
      then show "sr_id r < wf_next_id db' \<and> sr_run_id r < wf_next_id db' \<and>
        (\<forall>t. sr_claim_token r = Some t \<longrightarrow> t < wf_next_id db')"
      proof cases
        case 1
        then have "sr_id r < ?n \<and> sr_run_id r < ?n \<and> (\<forall>t. sr_claim_token r = Some t \<longrightarrow> t < ?n)"
          using ids by (simp add: ids_ok_def)
        then show ?thesis using oth(4) by fastforce
      next
        case 2
        then have "sr_id r \<in> {Suc ?n ..< Suc ?n + length ?S}" unfolding rid' [symmetric] by simp
        then show ?thesis using fresh [OF 2] rn oth(4) by (auto simp: fresh_step_def)
      qed
    qed
  qed (use ids rn vlt in \<open>fastforce simp: runs oth ids_ok_def\<close>)+
  moreover have "published_ok db'" using inv unfolding store_inv_def published_ok_def sp oth by simp
  moreover have start: "run_start (run_specs db' run) (run_view_of db' run)"
    unfolding run_start_def rs
  proof (intro conjI ballI)
    show "vw_run (run_view_of db' run) = Run_RUNNING" by (simp add: run_view_of_def rn)
    fix s assume "s \<in> set ?S"
    then obtain i where i: "i < length ?S" "s = ?S ! i" by (metis in_set_conv_nth)
    then have f: "fresh_step run (version_step_ids db org vid) s (rows ! i)" "rows ! i \<in> set rows"
      using fr len by (auto simp: list_all2_conv_all_nth)
    have "distinct (map sr_step_key rows)" using keys dS by simp
    from state_of_row [OF this f(2)] f(1)
    show "vw_step (run_view_of db' run) (sp_key s) = (if sp_depends_on s = [] then Step_READY else Step_PENDING)"
      by (simp add: run_view_of_def rr fresh_step_def)
  qed
  moreover have "run_ok db' r" if r: "r \<in> set (wf_runs db')" for r
  proof (cases "r \<in> set (wf_runs db)")
    case True
    then have "rn_id r < ?n" and ok: "run_ok db r" using inv by (auto simp: store_inv_def ids_ok_def)
    then have "filter (\<lambda>q. sr_org q = rn_org r \<and> sr_run_id q = rn_id r) rows = []"
      using fresh rn by (fastforce simp: filter_empty_conv fresh_step_def)
    then have eq: "run_rows db' r = run_rows db r" by (simp add: run_rows_def run_steps_def stp)
    have "run_specs db' r = run_specs db r" by (simp add: run_specs_def sp)
    then show ?thesis using ok
      unfolding run_ok_def run_struct_def linked_def run_view_of_def eq sp by simp
  next
    case False
    then have "r = run" using r runs by simp
    have "row_ok q" "linked db' run q" if q: "q \<in> set rows" for q
    proof -
      from fresh [OF q] obtain s where s: "s \<in> set ?S" "fresh_step run (version_step_ids db org vid) s q" by blast
      show "row_ok q" using s rS by (auto simp: row_ok_def fresh_step_def)
      have "spec_for_step db org (sr_version_step_id q) = Inr s"
        using version_step_link [OF ids dS _ s(1)] s(2) by (simp add: fresh_step_def)
      then show "linked db' run q" unfolding linked_def rs sp using s rn by (auto simp: fresh_step_def)
    qed
    moreover have "sr_step_key ` set rows = sp_key ` set ?S" using keys by (metis set_map)
    ultimately have "run_struct db' run" using gS dS keys by (simp add: run_struct_def rr rs)
    then show ?thesis
      using \<open>r = run\<close> \<open>\<And>q. q \<in> set rows \<Longrightarrow> row_ok q\<close> run_start_inv [OF gS] start vS
      by (simp add: run_ok_def rr rs)
  qed
  ultimately show "store_inv db'" "run_start (run_specs db' run) (run_view_of db' run)"
    by (simp_all add: store_inv_def)
qed

section \<open>The engine as a transition system\<close>

text \<open>
  A state is the store with the claims handed out to workers. Each rule is one committed
  transaction of the organization \<open>org\<close>; a failed one changes nothing. The steps of
  a definition have passed the request schema and \<^verbatim>\<open>validate_workflow_graph\<close>, as the
  service requires before every write, and a worker settles only a claim it was given. What
  a tool, an agent or a condition returns is arbitrary.
\<close>

type_synonym engine = "workflow_db \<times> step_claim set"

inductive engine_step :: "(step_spec list \<Rightarrow> string) \<Rightarrow> uuid \<Rightarrow> engine \<Rightarrow> engine \<Rightarrow> bool" for hash where
  es_create: "list_all step_spec_valid steps \<Longrightarrow> validate_workflow_graph steps = Inr ks \<Longrightarrow>
     create_definition db org key name descr steps now = Inr (db', d) \<Longrightarrow>
     engine_step hash org (db, cs) (db', cs)"
| es_update: "get_definition_row db org did = Some row \<Longrightarrow>
     (\<forall>ss. steps = Some ss \<longrightarrow> list_all step_spec_valid ss) \<Longrightarrow>
     update_definition_row db row name descr steps now = (db', d) \<Longrightarrow>
     engine_step hash org (db, cs) (db', cs)"
| es_publish: "get_definition_row db org did = Some row \<Longrightarrow>
     validate_workflow_graph (df_draft_steps row) = Inr order \<Longrightarrow>
     publish_version hash db org row order now = Inr (db', v) \<Longrightarrow>
     engine_step hash org (db, cs) (db', cs)"
| es_start: "get_version db org vid = Some version \<Longrightarrow>
     start_run_row snap db org version input ikey fp corr now = Inr (db', run, True) \<Longrightarrow>
     engine_step hash org (db, cs) (db', cs)"
| es_claim: "claim db org rid owner now = Inr (db', Some c) \<Longrightarrow>
     engine_step hash org (db, cs) (db', insert c cs)"
| es_finish: "c \<in> cs \<Longrightarrow> finish_step db org c output reference now = Inr (db', run) \<Longrightarrow>
     engine_step hash org (db, cs) (db', cs)"
| es_condition: "c \<in> cs \<Longrightarrow> finish_condition db org c output ks now = Inr (db', run) \<Longrightarrow>
     engine_step hash org (db, cs) (db', cs)"
| es_fail: "c \<in> cs \<Longrightarrow> fail_step db org c code retryable now = Inr (db', run) \<Longrightarrow>
     engine_step hash org (db, cs) (db', cs)"
| es_control: "target \<in> {Run_PAUSED, Run_RUNNING, Run_CANCELLED} \<Longrightarrow>
     transition_run db org rid target reason now = Inr (db', Some run) \<Longrightarrow>
     engine_step hash org (db, cs) (db', cs)"

definition any_step :: "(step_spec list \<Rightarrow> string) \<Rightarrow> engine \<Rightarrow> engine \<Rightarrow> bool" where
  "any_step hash s s' \<longleftrightarrow> (\<exists>org. engine_step hash org s s')"

definition reachable :: "(step_spec list \<Rightarrow> string) \<Rightarrow> engine \<Rightarrow> bool" where
  "reachable hash s \<longleftrightarrow> (any_step hash)\<^sup>*\<^sup>* (empty_workflow_db, {}) s"

definition claims_ok :: "workflow_db \<Rightarrow> step_claim set \<Rightarrow> bool" where
  "claims_ok db cs \<longleftrightarrow> (\<forall>c \<in> cs. genuine db c \<and> cl_claim_token c < wf_next_id db)"

definition engine_inv :: "engine \<Rightarrow> bool" where
  "engine_inv s \<longleftrightarrow> store_inv (fst s) \<and> claims_ok (fst s) (snd s)"

text \<open>What every transaction does to every step row of every tenant.\<close>

definition rows_follow :: "workflow_db \<Rightarrow> workflow_db \<Rightarrow> bool" where
  "rows_follow db db' \<longleftrightarrow> wf_next_id db \<le> wf_next_id db' \<and>
     (\<forall>r \<in> set (wf_step_runs db). \<exists>r' \<in> set (wf_step_runs db'). sr_id r' = sr_id r \<and>
       sr_org r' = sr_org r \<and> sr_run_id r' = sr_run_id r \<and> sr_step_key r' = sr_step_key r \<and>
       row_step (wf_next_id db) (wf_next_id db') r r')"

lemma rows_follow_same:
  "wf_next_id db \<le> wf_next_id db' \<Longrightarrow> set (wf_step_runs db) \<subseteq> set (wf_step_runs db') \<Longrightarrow> rows_follow db db'"
  unfolding rows_follow_def by (blast intro: row_step_refl)

lemma run_move_follow:
  assumes "run_move db run db'"
  shows "rows_follow db db'"
proof -
  from assms obtain g f where upd: "run_update db (rn_org run) (rn_id run) g f db'"
    and rows: "\<And>r. r \<in> set (run_rows db run) \<Longrightarrow> row_step (wf_next_id db) (wf_next_id db') r (f r)"
    unfolding run_move_def by blast
  have "\<exists>r' \<in> set (wf_step_runs db'). sr_id r' = sr_id r \<and> sr_org r' = sr_org r \<and> sr_run_id r' = sr_run_id r \<and>
      sr_step_key r' = sr_step_key r \<and> row_step (wf_next_id db) (wf_next_id db') r r'"
    if r: "r \<in> set (wf_step_runs db)" for r
  proof (intro bexI conjI)
    let ?r = "if in_run (rn_org run) (rn_id run) r then f r else r"
    show "?r \<in> set (wf_step_runs db')"
      using upd r by (auto simp: run_update_def set_update_where)
    show "sr_id ?r = sr_id r" "sr_org ?r = sr_org r" "sr_run_id ?r = sr_run_id r" "sr_step_key ?r = sr_step_key r"
      using upd by (auto simp: run_update_def keeps_step_def)
    show "row_step (wf_next_id db) (wf_next_id db') r ?r"
      using rows r by (auto simp: in_run_rows in_run_def)
  qed
  then show ?thesis using upd by (auto simp: rows_follow_def run_update_def)
qed

lemma claims_ok_follow: "claims_ok db cs \<Longrightarrow> rows_follow db db' \<Longrightarrow> claims_ok db' cs"
  unfolding claims_ok_def rows_follow_def genuine_def by (metis order_less_le_trans)

lemma put_definition_other:
  assumes "ids_ok db" and "row \<in> set (wf_definitions db)" and "df_id d = df_id row" and "df_org row = org"
    and "df_org d = org"
  shows "filter (\<lambda>d. df_org d \<noteq> org) (put_rows df_id [d] (wf_definitions db)) =
    filter (\<lambda>d. df_org d \<noteq> org) (wf_definitions db)"
proof (rule filter_put_rows_other)
  fix r n assume "r \<in> set (wf_definitions db)" "n \<in> set [d]" "df_id n = df_id r"
  then have "r = row" using assms(1-3) unfolding ids_ok_def by (metis distinct_map_inj empty_iff empty_set insertE list.simps(15))
  then show "\<not> df_org r \<noteq> org" using assms(4) by simp
qed (use assms(5) in simp)

text \<open>Every transaction is a move of one run, a new run, or leaves the runs alone.\<close>

lemma engine_step_cases:
  assumes st: "engine_step hash org (db, cs) (db', cs')" and inv: "engine_inv (db, cs)"
  obtains (move) run where "run \<in> set (wf_runs db)" "rn_org run = org" "run_move db run db'"
  | (start) version run snap input ikey fp corr now vid where "get_version db org vid = Some version"
      "start_run_row snap db org version input ikey fp corr now = Inr (db', run, True)" "cs' = cs"
  | (publish) "wf_runs db' = wf_runs db" "wf_step_runs db' = wf_step_runs db" "store_inv db'"
      "wf_next_id db \<le> wf_next_id db'" "cs' = cs"
      "\<And>run. run \<in> set (wf_runs db) \<Longrightarrow> run_specs db' run = run_specs db run"
      "filter (\<lambda>d. df_org d \<noteq> org) (wf_definitions db') = filter (\<lambda>d. df_org d \<noteq> org) (wf_definitions db)"
  using st
proof cases
  case (es_create steps ks key name descr now d)
  have "store_inv db'"
    using inv es_create by (intro create_definition_inv [OF _ es_create(4)]) (auto simp: engine_inv_def list_all_iff)
  moreover have "wf_version_steps db' = wf_version_steps db"
    using es_create(4) by (auto simp: create_definition_def Let_def split: if_splits)
  ultimately show thesis
    using es_create
    by (intro publish) (auto simp: create_definition_def Let_def run_specs_def version_specs_def
        version_step_rows_def split: if_splits)
next
  case (es_update did row steps name descr now d)
  have row: "row \<in> set (wf_definitions db)" "df_org row = org"
    using find_Some_D [OF es_update(2) [unfolded get_definition_row_def]] by auto
  have "store_inv db'"
    using inv es_update(3) row
    by (intro update_definition_inv [OF _ _ es_update(4)]) (auto simp: engine_inv_def list_all_iff)
  moreover have db': "wf_version_steps db' = wf_version_steps db" "wf_definitions db' = put_rows df_id [d] (wf_definitions db)"
    "df_org d = df_org row" "df_id d = df_id row"
    "wf_runs db' = wf_runs db" "wf_step_runs db' = wf_step_runs db" "wf_next_id db' = wf_next_id db"
    using es_update(4) by (auto simp: update_definition_row_def Let_def split: option.splits)
  moreover have "filter (\<lambda>d. df_org d \<noteq> org) (wf_definitions db') = filter (\<lambda>d. df_org d \<noteq> org) (wf_definitions db)"
    unfolding db'(2) by (rule put_definition_other [OF _ row(1)]) (use inv row db' in \<open>auto simp: engine_inv_def store_inv_def\<close>)
  ultimately show thesis
    using es_update(1) by (intro publish) (auto simp: run_specs_def version_specs_def version_step_rows_def)
next
  case (es_publish did row order now v)
  have row: "row \<in> set (wf_definitions db)" "df_org row = org"
    using find_Some_D [OF es_publish(2) [unfolded get_definition_row_def]] by auto
  have sinv: "store_inv db" using inv by (simp add: engine_inv_def)
  note P = publish_version_D [OF sinv row(1) es_publish(3,4)]
  have runs: "wf_runs db' = wf_runs db" "wf_step_runs db' = wf_step_runs db" "wf_next_id db \<le> wf_next_id db'"
      "\<exists>row'. df_id row' = df_id row \<and> df_org row' = df_org row \<and> wf_definitions db' = put_rows df_id [row'] (wf_definitions db)"
    and specs: "\<And>o' i. i < wf_next_id db \<Longrightarrow> version_specs db' o' i = version_specs db o' i"
    using publish_frame [OF sinv es_publish(4)] by blast+
  have "filter (\<lambda>d. df_org d \<noteq> org) (wf_definitions db') = filter (\<lambda>d. df_org d \<noteq> org) (wf_definitions db)"
    using runs(4) row put_definition_other [OF _ row(1)] sinv by (auto simp: store_inv_def)
  moreover have "run_specs db' run = run_specs db run" if "run \<in> set (wf_runs db)" for run
    using specs sinv that by (simp add: run_specs_def store_inv_def ids_ok_def)
  ultimately show thesis using P(1) runs es_publish(1) by (intro publish) auto
next
  case (es_claim rid owner now c)
  then show thesis using claim_move [OF _ es_claim(2)] inv by (intro move) (auto simp: engine_inv_def)
next
  case es_start
  then show thesis using start by blast
qed (use inv in \<open>auto simp: engine_inv_def claims_ok_def intro: move
    dest: finish_step_move(1) finish_condition_move(1) fail_step_move(1) transition_run_move\<close>)

lemma engine_step_follow:
  assumes st: "engine_step hash org (db, cs) (db', cs')" and inv: "engine_inv (db, cs)"
  shows "rows_follow db db'" and "store_inv db'"
proof -
  have sinv: "store_inv db" using inv by (simp add: engine_inv_def)
  from st inv have "rows_follow db db' \<and> store_inv db'"
  proof (cases rule: engine_step_cases)
    case (move run)
    then show ?thesis using run_move_follow run_move_inv [OF _ sinv] by blast
  next
    case (start version run snap input ikey fp corr now vid)
    have ids: "ids_ok db" using sinv by (simp add: store_inv_def)
    obtain rows where "wf_step_runs db' = wf_step_runs db @ rows" "wf_next_id db \<le> wf_next_id db'"
      using start_run_rows [OF ids start(2)] by (metis add.commute le_add2 trans_le_add2 le_SucI add_Suc_right)
    then show ?thesis using start_run_inv(1) [OF sinv start(1,2)] by (auto intro: rows_follow_same)
  next
    case publish
    then show ?thesis by (auto intro: rows_follow_same)
  qed
  then show "rows_follow db db'" "store_inv db'" by auto
qed

lemma engine_step_inv:
  assumes "engine_step hash org s s'" and "engine_inv s"
  shows "engine_inv s'"
proof -
  obtain db cs db' cs' where s: "s = (db, cs)" "s' = (db', cs')" by (metis prod.exhaust)
  note F = engine_step_follow [OF assms [unfolded s]]
  have old: "claims_ok db' cs" using claims_ok_follow F(1) assms(2) s by (auto simp: engine_inv_def)
  have sinv: "store_inv db" using assms(2) s by (simp add: engine_inv_def)
  have "claims_ok db' cs'"
    using assms(1)[unfolded s] old
  proof cases
    case (es_claim rid owner now c)
    then show ?thesis using old claim_move(5,6) [OF sinv es_claim(2)] by (simp add: claims_ok_def)
  qed simp_all
  then show ?thesis using F(2) s by (simp add: engine_inv_def)
qed

lemma empty_engine_inv: "engine_inv (empty_workflow_db, {})"
  by (simp add: engine_inv_def claims_ok_def store_inv_def ids_ok_def published_ok_def empty_workflow_db_def)

interpretation engine_sys: transition_system "\<lambda>s. s = (empty_workflow_db, {})" "any_step hash" engine_inv for hash
  by unfold_locales (auto simp: any_step_def empty_engine_inv intro: engine_step_inv)

lemma reachable_init: "reachable hash (empty_workflow_db, {})"
  by (simp add: reachable_def)

lemma reachable_step: "reachable hash s \<Longrightarrow> engine_step hash org s s' \<Longrightarrow> reachable hash s'"
  unfolding reachable_def any_step_def by (rule rtranclp.rtrancl_into_rtrancl) blast+

lemma reachable_inv: "reachable hash s \<Longrightarrow> engine_inv s"
  unfolding reachable_def by (rule engine_sys.reach_inv [OF refl])

lemma reachable_store: "reachable hash (db, cs) \<Longrightarrow> store_inv db"
  by (drule reachable_inv) (simp add: engine_inv_def)

end
