(* ===== verification/Workflow_Properties.thy ===== *)
theory Workflow_Properties
  imports Workflow_System
begin

text \<open>
  The properties of the workflow engine on the stores it can reach, and a concrete history
  (define, publish, start, claim and settle a workflow of two steps) on which they apply.
\<close>

section \<open>A concrete history\<close>

definition res_db :: "wf_error + (workflow_db \<times> 'a) \<Rightarrow> workflow_db" where
  "res_db x = (case x of Inl _ \<Rightarrow> empty_workflow_db | Inr (db, _) \<Rightarrow> db)"

definition is_ok :: "'e + 'a \<Rightarrow> bool" where
  "is_ok x = (case x of Inl _ \<Rightarrow> False | Inr _ \<Rightarrow> True)"

lemma is_ok_D: "is_ok x \<Longrightarrow> \<exists>r. x = Inr (res_db x, r)"
  by (cases x) (auto simp: is_ok_def res_db_def)

definition demo_graph :: "step_spec list" where
  "demo_graph = [noop_step ''b'' [''a''] Dep_ALL, noop_step ''a'' [] Dep_ALL]"

lemma demo_graph_valid: "list_all step_spec_valid demo_graph"
  by code_simp

lemma validate_demo_graph: "validate_workflow_graph demo_graph = Inr [''a'', ''b'']"
  by code_simp

definition demo_hash :: "step_spec list \<Rightarrow> string" where
  "demo_hash S = ''sha256''"

definition dm_defined :: "step_spec list \<Rightarrow> workflow_db" where
  "dm_defined S = res_db (create_definition empty_workflow_db 7 ''w'' ''W'' None S 0)"

definition dm_row :: "step_spec list \<Rightarrow> definition_row" where
  "dm_row S = hd (wf_definitions (dm_defined S))"

definition dm_order :: "step_spec list \<Rightarrow> string list" where
  "dm_order S = (case validate_workflow_graph S of Inl _ \<Rightarrow> [] | Inr ks \<Rightarrow> ks)"

definition dm_published :: "step_spec list \<Rightarrow> workflow_db" where
  "dm_published S = res_db (publish_version demo_hash (dm_defined S) 7 (dm_row S) (dm_order S) 1)"

definition dm_version :: "step_spec list \<Rightarrow> workflow_version" where
  "dm_version S = the (get_version (dm_published S) 7 1)"

definition dm_start :: "step_spec list \<Rightarrow> wf_error + (workflow_db \<times> run_row \<times> bool)" where
  "dm_start S = start_run_row (dm_published S) (dm_published S) 7 (dm_version S) [] (Some ''k'') ''fp'' None 2"

definition dm_started :: "step_spec list \<Rightarrow> workflow_db" where
  "dm_started S = res_db (dm_start S)"

definition dm_ok :: "step_spec list \<Rightarrow> bool" where
  "dm_ok S \<longleftrightarrow> list_all step_spec_valid S \<and> is_ok (validate_workflow_graph S) \<and>
     is_ok (create_definition empty_workflow_db 7 ''w'' ''W'' None S 0) \<and>
     get_definition_row (dm_defined S) 7 0 = Some (dm_row S) \<and> df_draft_steps (dm_row S) = S \<and>
     is_ok (publish_version demo_hash (dm_defined S) 7 (dm_row S) (dm_order S) 1) \<and>
     get_version (dm_published S) 7 1 = Some (dm_version S) \<and>
     (case dm_start S of Inr (_, _, b) \<Rightarrow> b | Inl _ \<Rightarrow> False)"

lemma dm_reachable:
  assumes "dm_ok S"
  shows "reachable demo_hash (dm_defined S, {})" "reachable demo_hash (dm_published S, {})"
    "reachable demo_hash (dm_started S, {})"
proof -
  have val: "validate_workflow_graph S = Inr (dm_order S)"
    using assms by (auto simp: dm_ok_def is_ok_def dm_order_def split: sum.splits)
  have "engine_step demo_hash 7 (empty_workflow_db, {}) (dm_defined S, {})"
    using assms is_ok_D [of "create_definition empty_workflow_db 7 ''w'' ''W'' None S 0"] es_create [OF _ val]
    unfolding dm_ok_def dm_defined_def by blast
  then show d: "reachable demo_hash (dm_defined S, {})" by (rule reachable_step [OF reachable_init])
  have "engine_step demo_hash 7 (dm_defined S, {}) (dm_published S, {})"
    using assms is_ok_D [of "publish_version demo_hash (dm_defined S) 7 (dm_row S) (dm_order S) 1"] es_publish val
    unfolding dm_ok_def dm_published_def by metis
  then show p: "reachable demo_hash (dm_published S, {})" by (rule reachable_step [OF d])
  have "\<exists>run. dm_start S = Inr (dm_started S, run, True)"
    using assms by (auto simp: dm_ok_def dm_started_def res_db_def split: sum.splits)
  then have "engine_step demo_hash 7 (dm_published S, {}) (dm_started S, {})"
    using assms es_start unfolding dm_ok_def dm_start_def by blast
  then show "reachable demo_hash (dm_started S, {})" by (rule reachable_step [OF p])
qed

lemma demo_graph_ok: "dm_ok demo_graph"
  by code_simp

definition demo_started :: workflow_db where
  "demo_started = dm_started demo_graph"

lemma demo_reachable_started: "reachable demo_hash (demo_started, {})"
  unfolding demo_started_def by (rule dm_reachable(3) [OF demo_graph_ok])

definition demo_run :: run_row where
  "demo_run = hd (wf_runs demo_started)"

definition claim_of :: "wf_error + (workflow_db \<times> step_claim option) \<Rightarrow> step_claim option" where
  "claim_of x = (case x of Inr (_, c) \<Rightarrow> c | Inl _ \<Rightarrow> None)"

definition demo_claimed :: workflow_db where
  "demo_claimed = res_db (claim demo_started 7 4 9 3)"

definition demo_claim :: step_claim where
  "demo_claim = the (claim_of (claim demo_started 7 4 9 3))"

definition demo_finished :: workflow_db where
  "demo_finished = res_db (finish_step demo_claimed 7 demo_claim [] None 4)"

lemma demo_claim_eq: "claim demo_started 7 4 9 3 = Inr (demo_claimed, Some demo_claim)"
  by code_simp

lemma demo_finish_eq: "\<exists>run. finish_step demo_claimed 7 demo_claim [] None 4 = Inr (demo_finished, run)"
proof -
  have "is_ok (finish_step demo_claimed 7 demo_claim [] None 4)" by code_simp
  then show ?thesis unfolding demo_finished_def by (rule is_ok_D)
qed

lemma demo_reachable_claimed: "reachable demo_hash (demo_claimed, {demo_claim})"
  using reachable_step [OF demo_reachable_started es_claim [OF demo_claim_eq]] .

lemma demo_reachable_finished: "reachable demo_hash (demo_finished, {demo_claim})"
  using demo_finish_eq reachable_step [OF demo_reachable_claimed es_finish [OF singletonI]] by blast

section \<open>Dependencies\<close>

lemma run_of_row:
  assumes "store_inv db" and "run \<in> set (wf_runs db)" and "r \<in> set (run_rows db run)"
    and "spec_for_step db (rn_org run) (sr_version_step_id r) = Inr s"
  shows "s \<in> set (run_specs db run)" "sp_key s = sr_step_key r" "sr_max_attempts r = rp_max_attempts (sp_retry s)"
  using run_ok_D(1) [OF assms(1,2)] assms(3,4) by (auto simp: run_struct_def linked_def)

text \<open>
  C5: In every store the engine can reach, a step that is ready, running, completed or
  failed has only finished dependencies: all of them completed when it waits for ALL, at
  least one completed when it waits for ANY (and has any). No interleaving of workers,
  pauses, retries, cancellations and condition branches can start a step too early.
\<close>

theorem engine_dependency_safety:
  assumes "reachable hash (db, cs)" and "run \<in> set (wf_runs db)" and "r \<in> set (run_rows db run)"
    and "sr_state r \<in> {Step_READY, Step_RUNNING, Step_COMPLETED, Step_FAILED}"
    and "spec_for_step db (rn_org run) (sr_version_step_id r) = Inr s"
  shows "(\<forall>d \<in> set (sp_depends_on s). \<exists>q \<in> set (run_rows db run). sr_step_key q = d \<and>
      (sr_state q = Step_COMPLETED \<or> sp_dependency_mode s = Dep_ANY \<and> sr_state q = Step_SKIPPED)) \<and>
    (sp_depends_on s \<noteq> [] \<longrightarrow> (\<exists>q \<in> set (run_rows db run). sr_step_key q \<in> set (sp_depends_on s) \<and>
      sr_state q = Step_COMPLETED))"
proof -
  have inv: "store_inv db" using assms(1) by (rule reachable_store)
  note D = run_ok_D [OF inv assms(2)]
  note S = run_of_row [OF inv assms(2,3,5)]
  let ?st = "vw_step (run_view_of db run)"
  have "run_inv (run_specs db run) (run_view_of db run)" "graph_wf (run_specs db run)"
    using inv assms(2) by (simp_all add: store_inv_def run_ok_def run_struct_def)
  then have "started_ok (run_specs db run) ?st" by (simp add: run_inv_def)
  moreover have "started (?st (sp_key s))" using D(6) [OF assms(3)] S(2) assms(4) by (simp add: started_def)
  ultimately have res: "resolution ?st s = Some Step_READY" using S(1) by (simp add: started_ok_def)
  have row: "\<exists>q \<in> set (run_rows db run). sr_step_key q = d \<and> sr_state q = ?st d" if "d \<in> set (sp_depends_on s)" for d
  proof -
    have "d \<in> sr_step_key ` set (run_rows db run)"
      using D(1) S(1) that by (simp add: run_struct_def graph_wf_deps)
    then show ?thesis using D(6) by auto
  qed
  have all: "step_done (?st d)" if "d \<in> set (sp_depends_on s)" for d
    using resolution_done [OF res that] .
  have comp: "?st d = Step_COMPLETED" if "d \<in> set (sp_depends_on s)" "sp_dependency_mode s \<noteq> Dep_ANY" for d
  proof -
    have "sp_dependency_mode s = Dep_ALL" using that(2) by (cases "sp_dependency_mode s") simp_all
    with res that(1) show ?thesis
      by (auto simp: resolution_def resolve_pending_step_def list_all_iff split: if_splits)
  qed
  have some: "\<exists>d \<in> set (sp_depends_on s). ?st d = Step_COMPLETED" if "sp_depends_on s \<noteq> []"
  proof (cases "sp_dependency_mode s = Dep_ANY")
    case True
    then have "Step_COMPLETED \<in> set (map ?st (sp_depends_on s))"
      using res that by (auto simp: resolution_def resolve_pending_step_def split: if_splits)
    then show ?thesis by (metis imageE set_map)
  next
    case False
    then show ?thesis using comp [of "hd (sp_depends_on s)"] that by (intro bexI) auto
  qed
  show ?thesis
  proof (intro conjI ballI impI)
    fix d assume d: "d \<in> set (sp_depends_on s)"
    from row [OF d] obtain q where q: "q \<in> set (run_rows db run)" "sr_step_key q = d" "sr_state q = ?st d" by blast
    then show "\<exists>q \<in> set (run_rows db run). sr_step_key q = d \<and>
        (sr_state q = Step_COMPLETED \<or> sp_dependency_mode s = Dep_ANY \<and> sr_state q = Step_SKIPPED)"
      using all [OF d] comp [OF d] by (intro bexI [of _ q]) (auto simp: step_done_def)
  next
    assume "sp_depends_on s \<noteq> []"
    then obtain d where "d \<in> set (sp_depends_on s)" "?st d = Step_COMPLETED" using some by blast
    with row [of d] show "\<exists>q \<in> set (run_rows db run). sr_step_key q \<in> set (sp_depends_on s) \<and> sr_state q = Step_COMPLETED"
      by auto
  qed
qed

definition demo_second :: step_run_row where
  "demo_second = wf_step_runs demo_finished ! 1"

theorem engine_dependency_safety_witness:
  "sr_state demo_second = Step_READY \<and>
   (\<exists>q \<in> set (run_rows demo_finished demo_run). sr_step_key q = ''a'' \<and> sr_state q = Step_COMPLETED)"
proof -
  have run: "demo_run \<in> set (wf_runs demo_finished)" and row: "demo_second \<in> set (run_rows demo_finished demo_run)"
    and st: "sr_state demo_second = Step_READY"
    and sp: "spec_for_step demo_finished (rn_org demo_run) (sr_version_step_id demo_second)
      = Inr (noop_step ''b'' [''a''] Dep_ALL)"
    by code_simp+
  from st have st': "sr_state demo_second \<in> {Step_READY, Step_RUNNING, Step_COMPLETED, Step_FAILED}" by simp
  show ?thesis
    using engine_dependency_safety [OF demo_reachable_finished run row st' sp] st
    by (simp add: noop_step_def)
qed

section \<open>Progress\<close>

lemma get_run_row_self:
  assumes "ids_ok db" and "run \<in> set (wf_runs db)"
  shows "get_run_row db (rn_org run) (rn_id run) = Some run"
  unfolding get_run_row_def
proof (rule find_SomeI [OF assms(2)])
  fix r assume "r \<in> set (wf_runs db)" "rn_org r = rn_org run \<and> rn_id r = rn_id run"
  with assms show "r = run" unfolding ids_ok_def by (metis distinct_map_inj)
qed simp

lemma claim_total:
  assumes inv: "store_inv db"
  shows "\<exists>db' c. claim db org rid owner now = Inr (db', c)"
proof (cases "\<exists>run row rest. get_run_row db org rid = Some run \<and> rn_state run = Run_RUNNING \<and>
    claim_candidates db org rid now = row # rest")
  case True
  then obtain run row rest where c: "get_run_row db org rid = Some run" "rn_state run = Run_RUNNING"
    "claim_candidates db org rid now = row # rest" by blast
  have R: "run \<in> set (wf_runs db)" "rn_org run = org" "rn_id run = rid" using get_run_row_D [OF c(1)] by simp_all
  have "row \<in> set (run_rows db run)" using claim_candidates_D [OF c(3)] R by (simp add: run_rows_def)
  then obtain s where s: "spec_for_step db org (sr_version_step_id row) = Inr s"
    using run_ok_D(1) [OF inv R(1)] R by (auto simp: run_struct_def linked_def)
  have "spec_for_step (add_transition a b d e f g h (db\<lparr>wf_step_runs := i, wf_next_id := j\<rparr>)) org
      (sr_version_step_id row) = Inr s" for a b d e f g h i j
    using s by (simp add: spec_for_step_def db_simps)
  then show ?thesis using c by (simp add: claim_def Let_def)
next
  case False
  then show ?thesis
    by (auto simp: claim_def split: option.splits list.splits)
qed

text \<open>
  C6: A running run is never stuck: either some step is being executed, or a worker that
  asks for work, whoever it is and whenever it asks, gets a step to execute.
\<close>

theorem engine_progress:
  assumes "reachable hash (db, cs)" and "run \<in> set (wf_runs db)" and "rn_state run = Run_RUNNING"
  shows "(\<exists>r \<in> set (run_rows db run). sr_state r = Step_RUNNING) \<or>
    (\<exists>db' c. claim db (rn_org run) (rn_id run) owner now = Inr (db', Some c))"
proof -
  have inv: "store_inv db" using assms(1) by (rule reachable_store)
  note D = run_ok_D [OF inv assms(2)]
  have ok: "run_inv (run_specs db run) (run_view_of db run)" "graph_wf (run_specs db run)"
    using inv assms(2) by (simp_all add: store_inv_def run_ok_def run_struct_def)
  have "vw_run (run_view_of db run) = Run_RUNNING" using assms(3) by (simp add: run_view_of_def)
  then obtain s where s: "s \<in> set (run_specs db run)"
    "vw_step (run_view_of db run) (sp_key s) \<in> {Step_READY, Step_RUNNING}"
    using run_inv_progress [OF ok(2,1)] by blast
  have "sp_key s \<in> sr_step_key ` set (run_rows db run)" using D(1) s(1) by (simp add: run_struct_def)
  then obtain r where r: "r \<in> set (run_rows db run)" "sr_step_key r = sp_key s" by auto
  then have st: "sr_state r \<in> {Step_READY, Step_RUNNING}" using s(2) D(6) [OF r(1)] by simp
  show ?thesis
  proof (cases "sr_state r = Step_RUNNING")
    case False
    then have "r \<in> set (claim_candidates db (rn_org run) (rn_id run) now)"
      using st r(1) D(7) [OF r(1)] by (simp add: claim_candidates_def run_rows_def row_ok_def)
    then obtain row rest where "claim_candidates db (rn_org run) (rn_id run) now = row # rest"
      by (cases "claim_candidates db (rn_org run) (rn_id run) now") auto
    moreover obtain db' c where "claim db (rn_org run) (rn_id run) owner now = Inr (db', c)"
      using claim_total [OF inv] by blast
    ultimately show ?thesis
      using get_run_row_self [OF D(2) assms(2)] assms(3) by (auto simp: claim_def Let_def)
  qed (use r in blast)
qed

theorem engine_progress_witness:
  "rn_state demo_run = Run_RUNNING \<and> (\<exists>db' c. claim demo_started 7 4 9 3 = Inr (db', Some c))"
proof -
  have run: "demo_run \<in> set (wf_runs demo_started)" "rn_state demo_run = Run_RUNNING"
    "rn_org demo_run = 7" "rn_id demo_run = 4"
    and no: "\<not> (\<exists>r \<in> set (run_rows demo_started demo_run). sr_state r = Step_RUNNING)"
    by code_simp+
  show ?thesis
    using engine_progress [OF demo_reachable_started run(1,2), of 9 3] no run by simp
qed

section \<open>Fencing\<close>

definition spent :: "workflow_db \<Rightarrow> step_claim \<Rightarrow> bool" where
  "spent db c \<longleftrightarrow> cl_claim_token c < wf_next_id db \<and> (\<exists>row \<in> set (wf_step_runs db). sr_id row = sr_id (cl_step c) \<and>
     (step_terminal (sr_state row) \<or> sr_claim_token row \<noteq> Some (cl_claim_token c)))"

lemma step_terminal_no_transition: "step_terminal s \<Longrightarrow> step_transitions s = []"
  by (cases s) (simp_all add: step_terminal_def)

lemma spent_follow:
  assumes "spent db c" and "rows_follow db db'"
  shows "spent db' c"
proof -
  obtain row where row: "row \<in> set (wf_step_runs db)" "sr_id row = sr_id (cl_step c)"
    "step_terminal (sr_state row) \<or> sr_claim_token row \<noteq> Some (cl_claim_token c)"
    and lt: "cl_claim_token c < wf_next_id db"
    using assms(1) by (auto simp: spent_def)
  obtain row' where row': "row' \<in> set (wf_step_runs db')" "sr_id row' = sr_id row"
    "row_step (wf_next_id db) (wf_next_id db') row row'"
    using assms(2) row(1) unfolding rows_follow_def by blast
  have "step_terminal (sr_state row') \<or> sr_claim_token row' \<noteq> Some (cl_claim_token c)"
  proof (cases "step_terminal (sr_state row)")
    case True
    then show ?thesis using row'(3) step_terminal_no_transition by (auto simp: row_step_def)
  next
    case False
    then show ?thesis using row(3) row'(3) lt by (auto simp: row_step_def)
  qed
  then show ?thesis using row row' lt assms(2) by (auto simp: spent_def rows_follow_def)
qed

lemma spent_fenced:
  assumes "spent db c" and "ids_ok db"
  shows "fenced_step db org c = Inl WorkflowExecutionFencedError"
proof (rule ccontr)
  assume "\<not> ?thesis"
  then obtain row where row: "row \<in> set (wf_step_runs db)" "sr_id row = sr_id (cl_step c)"
    "sr_state row = Step_RUNNING" "sr_claim_token row = Some (cl_claim_token c)"
    by (auto simp: fenced_step_def split: option.splits if_splits dest: find_Some_D)
  obtain row' where row': "row' \<in> set (wf_step_runs db)" "sr_id row' = sr_id (cl_step c)"
    "step_terminal (sr_state row') \<or> sr_claim_token row' \<noteq> Some (cl_claim_token c)"
    using assms(1) by (auto simp: spent_def)
  have "row' = row" using row row' assms(2) unfolding ids_ok_def by (metis distinct_map_inj)
  with row row' show False by (simp add: step_terminal_def)
qed

lemma fenced_run_cases: "fenced_run db org c = Inl WorkflowExecutionFencedError \<or> (\<exists>run. fenced_run db org c = Inr run)"
  by (auto simp: fenced_run_def split: option.splits)

lemma fenced_settle:
  assumes "fenced_step db org c = Inl WorkflowExecutionFencedError"
  shows "finish_step db org c out ref now = Inl WorkflowExecutionFencedError"
    and "finish_condition db org c out ks now = Inl WorkflowExecutionFencedError"
    and "fail_step db org c code retryable now = Inl WorkflowExecutionFencedError"
  using assms fenced_run_cases [of db org c]
  by (auto simp: finish_step_def finish_condition_def fail_step_def)

text \<open>The three ways a worker settles the claim it holds.\<close>

definition settles_claim :: "workflow_db \<Rightarrow> uuid \<Rightarrow> step_claim \<Rightarrow> workflow_db \<Rightarrow> bool" where
  "settles_claim db org c db' \<longleftrightarrow>
     (\<exists>out ref now run. finish_step db org c out ref now = Inr (db', run)) \<or>
     (\<exists>out ks now run. finish_condition db org c out ks now = Inr (db', run)) \<or>
     (\<exists>code retryable now run. fail_step db org c code retryable now = Inr (db', run))"

lemma settles_claim_spent:
  assumes "engine_inv (db, cs)" and "c \<in> cs" and "settles_claim db org c db'"
  shows "spent db' c" and "engine_step hash org (db, cs) (db', cs)"
proof -
  have inv: "store_inv db" and gen: "genuine db c" and lt: "cl_claim_token c < wf_next_id db"
    using assms(1,2) by (auto simp: engine_inv_def claims_ok_def)
  show st: "engine_step hash org (db, cs) (db', cs)"
    using assms(2,3) by (auto simp: settles_claim_def intro: es_finish es_condition es_fail)
  have "wf_next_id db \<le> wf_next_id db'"
    using engine_step_follow(1) [OF st assms(1)] by (simp add: rows_follow_def)
  moreover have "\<exists>row \<in> set (wf_step_runs db'). sr_id row = sr_id (cl_step c) \<and>
     (step_terminal (sr_state row) \<or> sr_claim_token row \<noteq> Some (cl_claim_token c))"
    using assms(3) finish_step_move(2) [OF inv gen] finish_condition_move(2) [OF inv gen] fail_step_move(2) [OF inv gen]
    unfolding settles_claim_def by (fastforce simp: step_terminal_def)
  ultimately show "spent db' c" using lt by (auto simp: spent_def)
qed

text \<open>
  C7: A claim is settled at most once. When a worker has completed, branched or failed the
  step it claimed, every later attempt to settle with the same claim, after any history of
  other transactions and by any tenant, is refused with the fencing error.
\<close>

theorem settled_claim_is_fenced:
  assumes "reachable hash (db, cs)" and "c \<in> cs" and "settles_claim db org c db'"
    and "(any_step hash)\<^sup>*\<^sup>* (db', cs) (db2, cs2)"
  shows "finish_step db2 org2 c out ref now = Inl WorkflowExecutionFencedError \<and>
    finish_condition db2 org2 c out ks now = Inl WorkflowExecutionFencedError \<and>
    fail_step db2 org2 c code retryable now = Inl WorkflowExecutionFencedError"
proof -
  have inv: "engine_inv (db, cs)" using assms(1) by (rule reachable_inv)
  note S = settles_claim_spent [OF inv assms(2,3)]
  have "engine_inv (db', cs)" using engine_step_inv [OF S(2) inv] .
  with assms(4) S(1) have "spent db2 c \<and> engine_inv (db2, cs2)"
  proof (induction "(db2, cs2)" arbitrary: db2 cs2 rule: rtranclp_induct)
    case (step y)
    obtain db3 cs3 where y: "y = (db3, cs3)" by (cases y)
    with step have IH: "spent db3 c" "engine_inv (db3, cs3)" by auto
    from step(2) y obtain org' where e: "engine_step hash org' (db3, cs3) (db2, cs2)" by (auto simp: any_step_def)
    show ?case using spent_follow [OF IH(1) engine_step_follow(1) [OF e IH(2)]] engine_step_inv [OF e IH(2)] by simp
  qed simp
  then have "fenced_step db2 org2 c = Inl WorkflowExecutionFencedError"
    by (intro spent_fenced) (auto simp: engine_inv_def store_inv_def)
  then show ?thesis using fenced_settle by simp
qed

theorem settled_claim_is_fenced_witness:
  "finish_step demo_finished 7 demo_claim [] None 5 = Inl WorkflowExecutionFencedError"
proof -
  have "settles_claim demo_claimed 7 demo_claim demo_finished"
    unfolding settles_claim_def using demo_finish_eq by blast
  then show ?thesis
    using settled_claim_is_fenced [OF demo_reachable_claimed singletonI _ rtranclp.rtrancl_refl] by blast
qed

section \<open>Refinement of the contract\<close>

lemma run_move_view:
  assumes "run_move db run db'" and inv: "store_inv db" and run: "run \<in> set (wf_runs db)" and r: "r \<in> set (wf_runs db)"
  shows "\<exists>r' \<in> set (wf_runs db'). rn_id r' = rn_id r \<and> rn_org r' = rn_org r \<and> run_specs db' r' = run_specs db r \<and>
    (if r = run then run_step (run_specs db r) (run_view_of db r) (run_view_of db' r')
     else r' = r \<and> run_rows db' r' = run_rows db r)"
proof -
  from assms(1) obtain g f where upd: "run_update db (rn_org run) (rn_id run) g f db'"
    and st: "run_step (run_specs db run) (run_view_of db run)
       \<lparr>vw_run = rn_state (g run), vw_step = state_of (map f (run_rows db run))\<rparr>"
    unfolding run_move_def by blast
  have kr: "keeps_run g" using upd by (simp add: run_update_def)
  show ?thesis
  proof (cases "r = run")
    case True
    have "g run \<in> set (wf_runs db')" using upd run by (auto simp: run_update_def set_update_where image_iff)
    moreover have "rn_id (g run) = rn_id run" "rn_org (g run) = rn_org run" "rn_version_id (g run) = rn_version_id run"
      using kr by (simp_all add: keeps_run_def)
    moreover from this have "run_view_of db' (g run) = \<lparr>vw_run = rn_state (g run), vw_step = state_of (map f (run_rows db run))\<rparr>"
      using run_update_steps(1) [OF upd] by (simp add: run_view_of_def run_rows_def)
    ultimately show ?thesis using st True run_update_specs(1) [OF upd]
      by (intro bexI [of _ "g run"]) (simp_all add: run_specs_def)
  next
    case False
    then have ne: "rn_id r \<noteq> rn_id run" using inv run r unfolding store_inv_def ids_ok_def by (metis distinct_map_inj)
    then have "r \<in> set (wf_runs db')" using upd r by (auto simp: run_update_def set_update_where image_iff)
    moreover have "run_rows db' r = run_rows db r"
      using run_update_steps(2) [OF upd] ne by (simp add: run_rows_def)
    ultimately show ?thesis using False run_update_specs(1) [OF upd]
      by (intro bexI [of _ r]) (simp_all add: run_specs_def)
  qed
qed

lemma engine_step_view:
  assumes st: "engine_step hash org (db, cs) (db', cs')" and inv: "engine_inv (db, cs)" and r: "r \<in> set (wf_runs db)"
  shows "\<exists>r' \<in> set (wf_runs db'). rn_id r' = rn_id r \<and> rn_org r' = rn_org r \<and> run_specs db' r' = run_specs db r \<and>
    (r' = r \<and> run_rows db' r' = run_rows db r \<or>
     rn_org r = org \<and> run_step (run_specs db r) (run_view_of db r) (run_view_of db' r'))"
  using st inv
proof (cases rule: engine_step_cases)
  case (move run)
  have "store_inv db" using inv by (simp add: engine_inv_def)
  from run_move_view [OF move(3) this move(1) r] show ?thesis using move(2) by (auto split: if_splits)
next
  case (start version run snap input ikey fp corr now vid)
  have ids: "ids_ok db" and lt: "rn_id r < wf_next_id db" using inv r by (auto simp: engine_inv_def store_inv_def ids_ok_def)
  obtain rows where R: "wf_runs db' = wf_runs db @ [run]" "wf_step_runs db' = wf_step_runs db @ rows"
    "wf_version_steps db' = wf_version_steps db" "rn_id run = wf_next_id db"
    "list_all2 (fresh_step run (version_step_ids db org (wv_id version))) (wv_steps version) rows"
    using ids start(2) by (rule start_run_rows)
  have "sr_run_id q = wf_next_id db" if "q \<in> set rows" for q
    using R(4,5) that by (metis fresh_step_def in_set_conv_nth list_all2_conv_all_nth)
  then have "filter (\<lambda>q. sr_org q = rn_org r \<and> sr_run_id q = rn_id r) rows = []"
    using lt by (auto simp: filter_empty_conv)
  then have "run_rows db' r = run_rows db r" by (simp add: run_rows_def run_steps_def R)
  then show ?thesis using r R
    by (intro bexI [of _ r]) (simp_all add: run_specs_def version_specs_def version_step_rows_def)
next
  case publish
  then show ?thesis using r by (intro bexI [of _ r]) (simp_all add: run_rows_def run_steps_def)
qed

text \<open>
  C8: The repository refines the run contract. Every committed transaction leaves each run
  exactly as it was, row for row, except at most runs of the acting organization, and such
  a run makes one move of the contract, read through its step rows.
\<close>

theorem engine_refines_run_contract:
  assumes "reachable hash (db, cs)" and "engine_step hash org (db, cs) (db', cs')" and "r \<in> set (wf_runs db)"
  shows "\<exists>r' \<in> set (wf_runs db'). rn_id r' = rn_id r \<and>
    (r' = r \<and> run_rows db' r' = run_rows db r \<or>
     rn_org r = org \<and> run_step (run_specs db r) (run_view_of db r) (run_view_of db' r'))"
  using engine_step_view [OF assms(2) reachable_inv [OF assms(1)] assms(3)] by blast

theorem engine_refines_run_contract_witness:
  "\<exists>r' \<in> set (wf_runs demo_claimed). rn_id r' = 4 \<and>
     (r' = demo_run \<and> run_rows demo_claimed r' = run_rows demo_started demo_run \<or>
      rn_org demo_run = 7 \<and>
      run_step (run_specs demo_started demo_run) (run_view_of demo_started demo_run) (run_view_of demo_claimed r'))"
proof -
  have "demo_run \<in> set (wf_runs demo_started)" "rn_id demo_run = 4" by code_simp+
  then show ?thesis
    using engine_refines_run_contract [OF demo_reachable_started es_claim [OF demo_claim_eq]] by metis
qed

text \<open>
  C9: Completing a step propagates exactly as far as one pass in dependency order would:
  the loop over keys in alphabetical order, restarted until nothing changes, gives every
  step of a running run the state the single topological pass \<open>settle\<close> gives it.
\<close>

theorem finish_step_settles_topologically:
  assumes "reachable hash (db, cs)" and "c \<in> cs" and "finish_step db org c output reference now = Inr (db', run')"
    and "run \<in> set (wf_runs db)" and "rn_id run = rn_id (cl_run c)" and "rn_state run = Run_RUNNING"
    and "row \<in> set (run_rows db run)" and "sr_id row = sr_id (cl_step c)" and "s \<in> set (run_specs db run)"
  shows "vw_step (run_view_of db' run') (sp_key s) =
    settle (run_specs db run) ((vw_step (run_view_of db run))(sr_step_key row := Step_COMPLETED)) (sp_key s)"
proof -
  have inv: "store_inv db" and gen: "genuine db c"
    using reachable_inv [OF assms(1)] assms(2) by (auto simp: engine_inv_def claims_ok_def)
  obtain run2 row2 where W: "run2 \<in> set (wf_runs db)" "row2 \<in> set (run_rows db run2)" "rn_id run2 = rn_id (cl_run c)"
    "sr_id row2 = sr_id (cl_step c)"
    "wake (run_specs db run2) (rn_state run2) ((vw_step (run_view_of db run2))(sr_step_key row2 := Step_COMPLETED))
        (run_view_of db' run')"
    using finish_step_move(3) [OF inv gen assms(3)] by blast
  have run: "run2 = run" using W(1,3) assms(4,5) inv unfolding store_inv_def ids_ok_def by (metis distinct_map_inj)
  have "row2 = row"
    using W(2,4) assms(7,8) run run_ok_D(4) [OF inv assms(4)] by (metis distinct_map_inj)
  with W(5) run assms(6) have "settled (run_specs db run)
      ((vw_step (run_view_of db run))(sr_step_key row := Step_COMPLETED)) (vw_step (run_view_of db' run'))"
    by (auto elim!: wakeE)
  moreover have "graph_wf (run_specs db run)" using run_ok_D(1) [OF inv assms(4)] by (simp add: run_struct_def)
  ultimately show ?thesis using settled_unique settle_settled assms(9) by blast
qed

definition demo_first :: step_run_row where
  "demo_first = hd (wf_step_runs demo_claimed)"

definition demo_run_after :: run_row where
  "demo_run_after = hd (wf_runs demo_finished)"

theorem finish_step_settles_topologically_witness:
  "vw_step (run_view_of demo_finished demo_run_after) ''b'' = Step_READY"
proof -
  have fin: "finish_step demo_claimed 7 demo_claim [] None 4 = Inr (demo_finished, demo_run_after)"
    and h: "demo_run \<in> set (wf_runs demo_claimed)" "rn_id demo_run = rn_id (cl_run demo_claim)"
      "rn_state demo_run = Run_RUNNING" "demo_first \<in> set (run_rows demo_claimed demo_run)"
      "sr_id demo_first = sr_id (cl_step demo_claim)"
      "noop_step ''b'' [''a''] Dep_ALL \<in> set (run_specs demo_claimed demo_run)"
    and v: "settle (run_specs demo_claimed demo_run)
      ((vw_step (run_view_of demo_claimed demo_run))(sr_step_key demo_first := Step_COMPLETED)) ''b'' = Step_READY"
    by code_simp+
  show ?thesis
    using finish_step_settles_topologically [OF demo_reachable_claimed singletonI fin h] v
    by (simp add: noop_step_def)
qed

section \<open>Bounds and frozen runs\<close>

text \<open>
  C10: A step is attempted at most as often as its published retry policy allows, which is
  at most 16 times; while it is still waiting or ready it has an attempt left.
\<close>

theorem attempts_bounded:
  assumes "reachable hash (db, cs)" and "run \<in> set (wf_runs db)" and "r \<in> set (run_rows db run)"
    and "spec_for_step db (rn_org run) (sr_version_step_id r) = Inr s"
  shows "0 \<le> sr_attempt_count r \<and> sr_attempt_count r \<le> rp_max_attempts (sp_retry s) \<and>
    rp_max_attempts (sp_retry s) \<le> 16 \<and>
    (sr_state r \<in> {Step_PENDING, Step_READY} \<longrightarrow> sr_attempt_count r < rp_max_attempts (sp_retry s))"
proof -
  have inv: "store_inv db" using assms(1) by (rule reachable_store)
  note S = run_of_row [OF inv assms(2,3,4)]
  have "step_spec_valid s" using inv assms(2) S(1) by (simp add: store_inv_def run_ok_def)
  then show ?thesis
    using run_ok_D(7) [OF inv assms(2,3)] S(3) by (auto simp: row_ok_def open_state_def step_spec_valid_def)
qed

theorem attempts_bounded_witness:
  "sr_attempt_count demo_first = 1 \<and> sr_attempt_count demo_first \<le> rp_max_attempts (sp_retry (noop_step ''a'' [] Dep_ALL))"
proof -
  have h: "demo_run \<in> set (wf_runs demo_claimed)" "demo_first \<in> set (run_rows demo_claimed demo_run)"
    "spec_for_step demo_claimed (rn_org demo_run) (sr_version_step_id demo_first) = Inr (noop_step ''a'' [] Dep_ALL)"
    and n: "sr_attempt_count demo_first = 1"
    by code_simp+
  show ?thesis using attempts_bounded [OF demo_reachable_claimed h] n by simp
qed

text \<open>
  C11: A completed, failed or cancelled run is frozen: no later transaction of any tenant
  changes the run or any of its steps.
\<close>

theorem terminal_run_frozen:
  assumes "reachable hash (db, cs)" and "(any_step hash)\<^sup>*\<^sup>* (db, cs) (db', cs')" and "r \<in> set (wf_runs db)"
    and "workflow_terminal (rn_state r)"
  shows "r \<in> set (wf_runs db') \<and> run_rows db' r = run_rows db r"
proof -
  have "engine_inv (db', cs') \<and> r \<in> set (wf_runs db') \<and> run_rows db' r = run_rows db r"
    using assms(2)
  proof (induction "(db', cs')" arbitrary: db' cs' rule: rtranclp_induct)
    case base
    then show ?case using assms(3) reachable_inv [OF assms(1)] by simp
  next
    case (step y)
    obtain db1 cs1 where y: "y = (db1, cs1)" by (cases y)
    with step have IH: "engine_inv (db1, cs1)" "r \<in> set (wf_runs db1)" "run_rows db1 r = run_rows db r" by auto
    from step(2) y obtain org where e: "engine_step hash org (db1, cs1) (db', cs')" by (auto simp: any_step_def)
    have "\<not> run_step (run_specs db1 r) (run_view_of db1 r) v" for v
      using run_step_terminal [of "run_specs db1 r" "run_view_of db1 r" v] assms(4) by (auto simp: run_view_of_def)
    then have "r \<in> set (wf_runs db') \<and> run_rows db' r = run_rows db1 r"
      using engine_step_view [OF e IH(1,2)] by blast
    then show ?case using engine_step_inv [OF e IH(1)] IH(3) by simp
  qed
  then show ?thesis by blast
qed

definition demo_cancelled :: workflow_db where
  "demo_cancelled = res_db (transition_run demo_started 7 4 Run_CANCELLED ''WORKFLOW_CANCELLED'' 5)"

definition demo_cancelled_run :: run_row where
  "demo_cancelled_run = hd (wf_runs demo_cancelled)"

definition demo_redefined :: workflow_db where
  "demo_redefined = res_db (create_definition demo_cancelled 8 ''o'' ''O'' None demo_graph 6)"

theorem terminal_run_frozen_witness:
  "rn_state demo_cancelled_run = Run_CANCELLED \<and> demo_cancelled_run \<in> set (wf_runs demo_redefined) \<and>
   run_rows demo_redefined demo_cancelled_run = run_rows demo_cancelled demo_cancelled_run"
proof -
  have tr: "transition_run demo_started 7 4 Run_CANCELLED ''WORKFLOW_CANCELLED'' 5 = Inr (demo_cancelled, Some demo_cancelled_run)"
    and h: "demo_cancelled_run \<in> set (wf_runs demo_cancelled)" "rn_state demo_cancelled_run = Run_CANCELLED"
    by code_simp+
  have "engine_step demo_hash 7 (demo_started, {}) (demo_cancelled, {})" using es_control [OF _ tr] by simp
  then have re: "reachable demo_hash (demo_cancelled, {})" using reachable_step [OF demo_reachable_started] by blast
  have ok: "is_ok (create_definition demo_cancelled 8 ''o'' ''O'' None demo_graph 6)" by code_simp
  have "engine_step demo_hash 8 (demo_cancelled, {}) (demo_redefined, {})"
    using is_ok_D [OF ok] es_create [OF demo_graph_valid validate_demo_graph] unfolding demo_redefined_def by blast
  then have "(any_step demo_hash)\<^sup>*\<^sup>* (demo_cancelled, {}) (demo_redefined, {})"
    unfolding any_step_def by (intro r_into_rtranclp) blast
  then show ?thesis using terminal_run_frozen [OF re _ h(1)] h(2) by (simp add: workflow_terminal_def)
qed

section \<open>Errors\<close>

lemma put_step_struct:
  assumes inv: "store_inv db" and run: "run \<in> set (wf_runs db)" and row: "row \<in> set (run_rows db run)" and u: "keeps_step u"
    and db1: "wf_step_runs db1 = put_rows sr_id [u row] (wf_step_runs db)" "wf_next_id db1 = wf_next_id db"
      "wf_runs db1 = wf_runs db" "wf_definitions db1 = wf_definitions db" "wf_versions db1 = wf_versions db"
      "wf_version_steps db1 = wf_version_steps db"
  shows "run_struct db1 run" "distinct (map sr_id (wf_step_runs db1))"
proof -
  note D = run_ok_D [OF inv run]
  have upd: "run_update db (rn_org run) (rn_id run) (\<lambda>r. r) (\<lambda>r. if sr_id r = sr_id row then u r else r) db1"
    using row D(2) u by (intro put_step_update) (simp_all add: db1)
  show "run_struct db1 run" using D(1) by (intro run_update_struct [OF upd]) simp_all
  have "map sr_id (wf_step_runs db1) = map sr_id (wf_step_runs db)"
    unfolding db1(1) using u by (intro map_put_rows) (auto simp: keeps_step_def)
  then show "distinct (map sr_id (wf_step_runs db1))" using D(2) by (simp add: ids_ok_def)
qed

text \<open>
  C12: On the stores the engine reaches, its operations raise only their documented
  errors: asking for work never raises, settling raises only the fencing error, and pausing,
  resuming or cancelling raises only the invalid-state error. The internal failures the code
  could run into (a key missing from a dict, a specification row not found) never happen.
\<close>

theorem engine_errors_documented:
  assumes "reachable hash (db, cs)" and "c \<in> cs"
  shows "claim db org rid owner now \<noteq> Inl e1 \<and>
    (finish_step db org c output reference now = Inl e2 \<longrightarrow> e2 = WorkflowExecutionFencedError) \<and>
    (finish_condition db org c output ks now = Inl e3 \<longrightarrow> e3 = WorkflowExecutionFencedError) \<and>
    (fail_step db org c code retryable now = Inl e4 \<longrightarrow> e4 = WorkflowExecutionFencedError) \<and>
    (transition_run db org rid target reason now = Inl e5 \<longrightarrow> e5 = WorkflowInvalidStateError)"
proof -
  have inv: "store_inv db" and gen: "genuine db c"
    using reachable_inv [OF assms(1)] assms(2) by (auto simp: engine_inv_def claims_ok_def)
  have fence: "fenced_run db org c = Inl e \<Longrightarrow> e = WorkflowExecutionFencedError"
    "fenced_step db org c = Inl e \<Longrightarrow> e = WorkflowExecutionFencedError" for e
    by (auto simp: fenced_run_def fenced_step_def split: option.splits if_splits)
  have "claim db org rid owner now \<noteq> Inl e1" using claim_total [OF inv, of org rid owner now] by auto
  moreover have "e2 = WorkflowExecutionFencedError" if fin: "finish_step db org c output reference now = Inl e2"
  proof (rule ccontr)
    assume "\<not> ?thesis"
    with fin fence obtain run row where f: "fenced_run db org c = Inr run" "fenced_step db org c = Inr row"
      by (cases "fenced_run db org c"; cases "fenced_step db org c") (auto simp: finish_step_def)
    note F = fenced_D [OF inv gen f]
    let ?u = "\<lambda>r. r\<lparr>sr_state := Step_COMPLETED, sr_output := Some output,
      sr_external_ref := reference, sr_updated_at := now\<rparr>"
    let ?db1 = "add_transition run (Some row) (Some (step_state_value Step_RUNNING))
      (step_state_value Step_COMPLETED) ''STEP_COMPLETED'' ''WORKER'' now
      (db\<lparr>wf_step_runs := put_rows sr_id [?u row] (wf_step_runs db)\<rparr>)"
    have "run_struct ?db1 run"
      by (rule put_step_struct(1) [OF inv F(1,5), where u = ?u]) (simp_all add: keeps_step_def db_simps)
    from advance_total [OF this, of now] show False using fin f F(2) by (simp add: finish_step_def Let_def)
  qed
  moreover have "e3 = WorkflowExecutionFencedError" if fin: "finish_condition db org c output ks now = Inl e3"
  proof (rule ccontr)
    assume "\<not> ?thesis"
    with fin fence obtain run row where f: "fenced_run db org c = Inr run" "fenced_step db org c = Inr row"
      by (cases "fenced_run db org c"; cases "fenced_step db org c") (auto simp: finish_condition_def)
    note F = fenced_D [OF inv gen f]
    let ?u = "\<lambda>r. r\<lparr>sr_state := Step_COMPLETED, sr_output := Some output, sr_updated_at := now\<rparr>"
    let ?db1 = "add_transition run (Some row) (Some (step_state_value Step_RUNNING))
      (step_state_value Step_COMPLETED) ''CONDITION_EVALUATED'' ''WORKER'' now
      (db\<lparr>wf_step_runs := put_rows sr_id [?u row] (wf_step_runs db)\<rparr>)"
    let ?p = "\<lambda>r. sr_step_key r \<in> set ks \<and> sr_state r \<in> {Step_PENDING, Step_READY}"
    have S: "run_struct ?db1 run" "distinct (map sr_id (wf_step_runs ?db1))"
      by (rule put_step_struct [OF inv F(1,5), where u = ?u]; simp add: keeps_step_def db_simps)+
    have "run_struct (skip_rows run ''CONDITION_NOT_SELECTED'' Step_SKIPPED now
        (filter ?p (run_steps ?db1 org (rn_id run))) ?db1) run"
      by (rule run_update_struct [OF skip_rows_update [OF S(2)] S(1)]) simp_all
    from advance_total [OF this, of now] show False
      using fin f F(2) by (simp add: finish_condition_def Let_def open_steps_def conj_commute)
  qed
  moreover have "e4 = WorkflowExecutionFencedError" if fl: "fail_step db org c code retryable now = Inl e4"
  proof (rule ccontr)
    assume "\<not> ?thesis"
    with fl fence obtain run row where f: "fenced_run db org c = Inr run" "fenced_step db org c = Inr row"
      by (cases "fenced_run db org c"; cases "fenced_step db org c") (auto simp: fail_step_def)
    note F = fenced_D [OF inv gen f]
    have "Run_FAILED \<in> set (workflow_transitions (rn_state run))" using F(4) by auto
    then show False using fl f
      by (auto simp: fail_step_def Let_def transition_run_row_eq require_workflow_transition_def checkE_def split: if_splits)
  qed
  moreover have "e5 = WorkflowInvalidStateError" if tr: "transition_run db org rid target reason now = Inl e5"
  proof (rule ccontr)
    assume ne: "\<not> ?thesis"
    from tr obtain run where g: "get_run_row db org rid = Some run"
      by (auto simp: transition_run_def split: option.splits)
    have R: "run \<in> set (wf_runs db)" "rn_org run = org" using get_run_row_D [OF g] by simp_all
    from tr g ne obtain db1 run1 where t1: "transition_run_row db run target reason now = Inr (db1, run1)"
      by (cases "transition_run_row db run target reason now")
        (auto simp: transition_run_def transition_run_row_eq require_workflow_transition_def checkE_def split: if_splits)
    have dr: "distinct (map rn_id (wf_runs db))" using inv by (simp add: store_inv_def ids_ok_def)
    note t = transition_run_row_update [OF dr R(1) keeps_run_id t1]
    have "run_struct db1 run1" using run_ok_D(1) [OF inv R(1)] t(1) by (intro run_update_struct [OF t(3)]) simp_all
    from advance_total [OF this, of now] show False
      using tr g t1 t(1) R(2) by (auto simp: transition_run_def split: if_splits)
  qed
  ultimately show ?thesis by blast
qed

theorem engine_errors_documented_witness:
  "fail_step demo_claimed 8 demo_claim ''E'' True 5 = Inl WorkflowExecutionFencedError"
proof -
  have "\<not> is_ok (fail_step demo_claimed 8 demo_claim ''E'' True 5)" by code_simp
  then obtain e where "fail_step demo_claimed 8 demo_claim ''E'' True 5 = Inl e"
    by (cases "fail_step demo_claimed 8 demo_claim ''E'' True 5") (auto simp: is_ok_def)
  then show ?thesis using engine_errors_documented [OF demo_reachable_claimed singletonI] by metis
qed

section \<open>Publishing and starting\<close>



text \<open>
  C14: Starting a run is idempotent: repeating a start with the same idempotency key,
  whatever else the second request says, returns the run of the first one and changes
  nothing; a start that lost a race, having looked before the winner committed, is stopped
  by the unique constraint instead of creating a second run.
\<close>

theorem start_run_idempotent:
  assumes "reachable hash (db, cs)" and "k \<noteq> []"
    and "start_run_row db db org version input (Some k) fp corr now = Inr (db', run, created)"
    and "wv_id version' = wv_id version"
  shows "start_run_row db' db' org version' input' (Some k) fp' corr' now' = Inr (db', run, False) \<and>
    (created \<longrightarrow> start_run_row db db' org version' input' (Some k) fp' corr' now' = Inl IntegrityError)"
proof -
  have ids: "ids_ok db" using reachable_store [OF assms(1)] by (simp add: store_inv_def)
  have "run_by_idempotency db' org (wv_id version) k = Some run \<and>
      (created \<longrightarrow> run_by_idempotency db org (wv_id version) k = None)"
  proof (cases created)
    case True
    with assms(3) have st: "start_run_row db db org version input (Some k) fp corr now = Inr (db', run, True)" by simp
    have R: "wf_runs db' = wf_runs db @ [run] \<and> rn_org run = org \<and> rn_version_id run = wv_id version \<and>
      rn_idempotency_key run = Some k \<and> run_by_idempotency db org (wv_id version) k = None"
      using ids st by (rule start_run_rows) simp
    have "find p (xs @ [x]) = (case find p xs of None \<Rightarrow> if p x then Some x else None | Some y \<Rightarrow> Some y)"
      for p :: "run_row \<Rightarrow> bool" and xs x by (induction xs) auto
    then show ?thesis using R by (simp add: run_by_idempotency_def)
  next
    case False
    then show ?thesis using assms(2,3)
      by (auto simp: start_run_row_def Let_def split: option.splits if_splits)
  qed
  with assms(2,4) show ?thesis by (auto simp: start_run_row_def)
qed

theorem start_run_idempotent_witness:
  "start_run_row demo_started demo_started 7 (dm_version demo_graph) [] (Some ''k'') ''other'' None 9
     = Inr (demo_started, demo_run, False)"
proof -
  have "dm_start demo_graph = Inr (demo_started, demo_run, True)" by code_simp
  then show ?thesis
    using start_run_idempotent [OF dm_reachable(2) [OF demo_graph_ok] _ _ refl] unfolding dm_start_def by blast
qed

section \<open>Tenants\<close>

text \<open>
  C15: Tenant isolation: a transaction of one organization leaves every definition, run and
  step of every other organization exactly as it was.
\<close>

theorem tenant_isolation:
  assumes "reachable hash (db, cs)" and "engine_step hash org (db, cs) (db', cs')" and "other \<noteq> org"
  shows "filter (\<lambda>d. df_org d = other) (wf_definitions db') = filter (\<lambda>d. df_org d = other) (wf_definitions db) \<and>
    filter (\<lambda>r. rn_org r = other) (wf_runs db') = filter (\<lambda>r. rn_org r = other) (wf_runs db) \<and>
    filter (\<lambda>r. sr_org r = other) (wf_step_runs db') = filter (\<lambda>r. sr_org r = other) (wf_step_runs db)"
proof -
  have inv: "engine_inv (db, cs)" using assms(1) by (rule reachable_inv)
  then have ids: "ids_ok db" by (simp add: engine_inv_def store_inv_def)
  have weaken: "filter (\<lambda>d. df_org d = other) xs = filter (\<lambda>d. df_org d = other) (filter (\<lambda>d. df_org d \<noteq> org) xs)" for xs
    using assms(3) by (simp, metis)
  from assms(2) inv show ?thesis
  proof (cases rule: engine_step_cases)
    case (move run)
    obtain g f where upd: "run_update db (rn_org run) (rn_id run) g f db'" using move(3) unfolding run_move_def by blast
    have "filter (\<lambda>r. rn_org r = other) (wf_runs db') = filter (\<lambda>r. rn_org r = other) (wf_runs db)"
    proof -
      have "filter (\<lambda>r. rn_org r = other) (update_where (\<lambda>r. rn_id r = rn_id run) g (wf_runs db)) =
          update_where (\<lambda>r. rn_id r = rn_id run) g (filter (\<lambda>r. rn_org r = other) (wf_runs db))"
        using upd by (intro filter_update_where) (simp add: run_update_def keeps_run_def)
      also have "\<dots> = filter (\<lambda>r. rn_org r = other) (wf_runs db)"
      proof (rule update_where_id)
        fix r assume "r \<in> set (filter (\<lambda>r. rn_org r = other) (wf_runs db))"
        then have "r \<in> set (wf_runs db)" "rn_org r = other" by simp_all
        then show "rn_id r \<noteq> rn_id run" using ids move(1,2) assms(3) unfolding ids_ok_def
          by (metis distinct_map_inj)
      qed
      finally show ?thesis using upd by (simp add: run_update_def)
    qed
    moreover have "filter (\<lambda>r. sr_org r = other) (wf_step_runs db') = filter (\<lambda>r. sr_org r = other) (wf_step_runs db)"
    proof -
      have "filter (\<lambda>r. sr_org r = other) (update_where (in_run (rn_org run) (rn_id run)) f (wf_step_runs db)) =
          update_where (in_run (rn_org run) (rn_id run)) f (filter (\<lambda>r. sr_org r = other) (wf_step_runs db))"
        using upd by (intro filter_update_where) (simp add: run_update_def keeps_step_def)
      also have "\<dots> = filter (\<lambda>r. sr_org r = other) (wf_step_runs db)"
        using move(2) assms(3) by (intro update_where_id) (auto simp: in_run_def)
      finally show ?thesis using upd by (simp add: run_update_def)
    qed
    ultimately show ?thesis using upd by (simp add: run_update_def)
  next
    case (start version run snap input ikey fp corr now vid)
    obtain rows where R: "wf_runs db' = wf_runs db @ [run]" "wf_step_runs db' = wf_step_runs db @ rows"
      "wf_definitions db' = wf_definitions db" "rn_org run = org"
      "list_all2 (fresh_step run (version_step_ids db org (wv_id version))) (wv_steps version) rows"
      using ids start(2) by (rule start_run_rows)
    have "sr_org q = org" if "q \<in> set rows" for q
      using R(4,5) that by (metis fresh_step_def in_set_conv_nth list_all2_conv_all_nth)
    then have "filter (\<lambda>q. sr_org q = other) rows = []" using assms(3) by (auto simp: filter_empty_conv)
    then show ?thesis using R assms(3) by simp
  next
    case publish
    then show ?thesis using weaken by metis
  qed
qed

theorem tenant_isolation_witness:
  "filter (\<lambda>r. rn_org r = 8) (wf_runs demo_claimed) = filter (\<lambda>r. rn_org r = 8) (wf_runs demo_started)"
  using tenant_isolation [OF demo_reachable_started es_claim [OF demo_claim_eq], of 8] by simp

end
