(* ===== verification/Workflow_Service.thy ===== *)
theory Workflow_Service
  imports Workflow_Properties
begin

text \<open>
  \<^verbatim>\<open>workflows/service.py\<close>: the transactions of \<^verbatim>\<open>WorkflowService\<close>, with the events each
  one enqueues in its own transaction. The Tool Engine, the Agent runtime and the registries
  are what the service calls, so they are arguments: any function may stand for them. A
  service call that is several transactions takes the state other workers have produced in
  between as an argument.
\<close>

section \<open>Events\<close>

datatype wf_payload =
    DefinitionPayload (wp_definition_id: uuid) (wp_workflow_key: string)
  | VersionPayload uuid string (wp_version_id: uuid) (wp_version_number: int)
  | RunPayload (wp_run_id: uuid) uuid uuid (wp_state: string) "string option"
  | StepPayload uuid (wp_step_run_id: uuid) (wp_step_key: string) step_type (wp_step_state: string)
      (wp_attempt: int) "string option"

record wf_event =
  we_type :: string
  we_org :: uuid
  we_aggregate_type :: string
  we_aggregate_id :: uuid
  we_payload :: wf_payload

record wf_service =
  sv_db :: workflow_db
  sv_outbox :: "wf_event list"

definition wf_emit :: "uuid \<Rightarrow> string \<Rightarrow> string \<Rightarrow> uuid \<Rightarrow> wf_payload \<Rightarrow> wf_event list \<Rightarrow> wf_event list" where
  "wf_emit org etype atype aid payload outbox =
     outbox @ [\<lparr>we_type = etype, we_org = org, we_aggregate_type = atype, we_aggregate_id = aid,
                we_payload = payload\<rparr>]"

definition run_payload :: "run_row \<Rightarrow> wf_payload" where
  "run_payload run = RunPayload (rn_id run) (rn_definition_id run) (rn_version_id run)
     (run_state_value (rn_state run)) (rn_correlation_id run)"

definition step_payload :: "step_claim \<Rightarrow> string \<Rightarrow> wf_payload" where
  "step_payload c state = StepPayload (rn_id (cl_run c)) (sr_id (cl_step c)) (sr_step_key (cl_step c))
     (sr_step_type (cl_step c)) state (sr_attempt_count (cl_step c)) (rn_correlation_id (cl_run c))"

definition step_run_payload :: "run_row \<Rightarrow> step_run_row \<Rightarrow> wf_payload" where
  "step_run_payload run s = StepPayload (rn_id run) (sr_id s) (sr_step_key s) (sr_step_type s)
     (step_state_value (sr_state s)) (sr_attempt_count s) (rn_correlation_id run)"

section \<open>Definitions and versions\<close>

definition svc_create_definition ::
  "wf_service \<Rightarrow> uuid \<Rightarrow> string \<Rightarrow> string \<Rightarrow> string option \<Rightarrow> step_spec list \<Rightarrow> time \<Rightarrow>
     wf_error + (wf_service \<times> definition_row)" where
  "svc_create_definition sv org key name descr steps now =
     (case validate_workflow_graph steps of
        Inl e \<Rightarrow> Inl (WorkflowInvalidDefinitionError e)
      | Inr _ \<Rightarrow>
          bindE (create_definition (sv_db sv) org key name descr steps now) (\<lambda>(db, d).
          Inr (\<lparr>sv_db = db,
                sv_outbox = wf_emit org ''workflow.definition.created'' ''workflow_definition'' (df_id d)
                  (DefinitionPayload (df_id d) (df_workflow_key d)) (sv_outbox sv)\<rparr>, d)))"

definition svc_get_definition :: "wf_service \<Rightarrow> uuid \<Rightarrow> uuid \<Rightarrow> wf_error + definition_row" where
  "svc_get_definition sv org did = of_option WorkflowNotFoundError (get_definition_row (sv_db sv) org did)"

definition svc_update_definition ::
  "wf_service \<Rightarrow> uuid \<Rightarrow> uuid \<Rightarrow> int \<Rightarrow> string option \<Rightarrow> string option \<Rightarrow> step_spec list option \<Rightarrow> time \<Rightarrow>
     wf_error + (wf_service \<times> definition_row)" where
  "svc_update_definition sv org did expected_revision name descr steps now =
     bindE (case steps of None \<Rightarrow> Inr ()
            | Some ss \<Rightarrow> (case validate_workflow_graph ss of
                Inl e \<Rightarrow> Inl (WorkflowInvalidDefinitionError e) | Inr _ \<Rightarrow> Inr ())) (\<lambda>_.
     bindE (of_option WorkflowNotFoundError (get_definition_row (sv_db sv) org did)) (\<lambda>row.
     if df_status row = Def_ARCHIVED then Inl WorkflowInvalidStateError
     else if df_revision row \<noteq> expected_revision then Inl WorkflowConflictError
     else
       let (db, d) = update_definition_row (sv_db sv) row name descr steps now
       in Inr (sv\<lparr>sv_db := db\<rparr>, d)))"

text \<open>\<open>tools\<close> and \<open>agents\<close> are the registry lookups, raising when there is none.\<close>

fun check_bindings ::
  "(uuid \<Rightarrow> string \<Rightarrow> wf_error + unit) \<Rightarrow> (uuid \<Rightarrow> uuid \<Rightarrow> wf_error + unit) \<Rightarrow> uuid \<Rightarrow> step_spec list \<Rightarrow>
     wf_error + unit" where
  "check_bindings tools agents org [] = Inr ()"
| "check_bindings tools agents org (s # ss) =
     bindE (case sp_config s of
              ToolStepConfig key _ \<Rightarrow> tools org key
            | AgentStepConfig aid _ \<Rightarrow> agents org aid
            | _ \<Rightarrow> Inr ()) (\<lambda>_. check_bindings tools agents org ss)"

text \<open>\<open>sv\<close> is the state the first transaction reads, \<open>sv'\<close> the one the second finds.\<close>

definition svc_publish ::
  "(step_spec list \<Rightarrow> string) \<Rightarrow> (uuid \<Rightarrow> string \<Rightarrow> wf_error + unit) \<Rightarrow> (uuid \<Rightarrow> uuid \<Rightarrow> wf_error + unit) \<Rightarrow>
     wf_service \<Rightarrow> wf_service \<Rightarrow> uuid \<Rightarrow> uuid \<Rightarrow> time \<Rightarrow> wf_error + (wf_service \<times> workflow_version)" where
  "svc_publish hash tools agents sv sv' org did now =
     bindE (of_option WorkflowNotFoundError (get_definition_row (sv_db sv) org did)) (\<lambda>row.
     case validate_workflow_graph (df_draft_steps row) of
       Inl e \<Rightarrow> Inl (WorkflowInvalidDefinitionError e)
     | Inr order \<Rightarrow>
         bindE (check_bindings tools agents org (df_draft_steps row)) (\<lambda>_.
         bindE (of_option WorkflowNotFoundError (get_definition_row (sv_db sv') org did)) (\<lambda>row'.
         if df_draft_steps row \<noteq> df_draft_steps row' then Inl WorkflowConflictError
         else bindE (publish_version hash (sv_db sv') org row' order now) (\<lambda>(db, v).
           Inr (\<lparr>sv_db = db,
                 sv_outbox = wf_emit org ''workflow.version.published'' ''workflow_definition'' did
                   (VersionPayload did (df_workflow_key row') (wv_id v) (wv_version_number v))
                   (sv_outbox sv')\<rparr>, v)))))"

definition svc_get_version :: "wf_service \<Rightarrow> uuid \<Rightarrow> uuid \<Rightarrow> wf_error + workflow_version" where
  "svc_get_version sv org vid = of_option WorkflowVersionNotFoundError (get_version (sv_db sv) org vid)"

definition svc_list_versions :: "wf_service \<Rightarrow> uuid \<Rightarrow> uuid \<Rightarrow> nat \<Rightarrow> wf_error + workflow_version list" where
  "svc_list_versions sv org did limit =
     bindE (svc_get_definition sv org did) (\<lambda>_. Inr (list_versions (sv_db sv) org did limit))"

section \<open>Runs\<close>

fun emit_ready :: "uuid \<Rightarrow> run_row \<Rightarrow> step_run_row list \<Rightarrow> wf_event list \<Rightarrow> wf_event list" where
  "emit_ready org run [] outbox = outbox"
| "emit_ready org run (s # ss) outbox =
     emit_ready org run ss
       (if sr_state s = Step_READY
        then wf_emit org ''workflow.step.ready'' ''workflow_step_run'' (sr_id s) (step_run_payload run s) outbox
        else outbox)"

text \<open>
  \<open>fingerprint\<close> is the SHA-256 of the canonical JSON of the version and the input.
  \<open>snap\<close> is what the lookup of the first transaction sees, and \<open>late\<close> what the second
  transaction sees after the unique constraint refused the insert.
\<close>

definition svc_start_run ::
  "(uuid \<Rightarrow> json_obj \<Rightarrow> string) \<Rightarrow> wf_service \<Rightarrow> wf_service \<Rightarrow> wf_service \<Rightarrow> uuid \<Rightarrow> uuid \<Rightarrow> json_obj \<Rightarrow>
     string option \<Rightarrow> string option \<Rightarrow> time \<Rightarrow> wf_error + (wf_service \<times> run_row)" where
  "svc_start_run fingerprint snap sv late org vid input ikey corr now =
     bindE (svc_get_version sv org vid) (\<lambda>version.
     let fp = fingerprint (wv_id version) input in
     case start_run_row (sv_db snap) (sv_db sv) org version input ikey fp corr now of
       Inr (db, run, created) \<Rightarrow>
         if \<not> created \<and> rn_request_fingerprint run \<noteq> fp then Inl WorkflowConflictError
         else if created then
           Inr (\<lparr>sv_db = db,
                 sv_outbox = emit_ready org run (list_steps db org (rn_id run))
                   (wf_emit org ''workflow.run.started'' ''workflow_run'' (rn_id run) (run_payload run)
                      (sv_outbox sv))\<rparr>, run)
         else Inr (sv\<lparr>sv_db := db\<rparr>, run)
     | Inl IntegrityError \<Rightarrow>
         (case ikey of
            None \<Rightarrow> Inl IntegrityError
          | Some k \<Rightarrow>
              (case run_by_idempotency (sv_db late) org (wv_id version) k of
                 None \<Rightarrow> Inl WorkflowConflictError
               | Some run \<Rightarrow>
                   if rn_request_fingerprint run \<noteq> fp then Inl WorkflowConflictError
                   else Inr (late, run)))
     | Inl e \<Rightarrow> Inl e)"

definition svc_get_run :: "wf_service \<Rightarrow> uuid \<Rightarrow> uuid \<Rightarrow> wf_error + run_row" where
  "svc_get_run sv org rid = of_option WorkflowRunNotFoundError (get_run_row (sv_db sv) org rid)"

definition svc_list_steps :: "wf_service \<Rightarrow> uuid \<Rightarrow> uuid \<Rightarrow> wf_error + step_run_row list" where
  "svc_list_steps sv org rid = bindE (svc_get_run sv org rid) (\<lambda>_. Inr (list_steps (sv_db sv) org rid))"

definition svc_transitions :: "wf_service \<Rightarrow> uuid \<Rightarrow> uuid \<Rightarrow> nat \<Rightarrow> wf_error + transition_row list" where
  "svc_transitions sv org rid limit =
     bindE (svc_get_run sv org rid) (\<lambda>_. Inr (transitions (sv_db sv) org rid limit))"

definition svc_transition ::
  "wf_service \<Rightarrow> uuid \<Rightarrow> uuid \<Rightarrow> run_state \<Rightarrow> string \<Rightarrow> string \<Rightarrow> time \<Rightarrow> wf_error + (wf_service \<times> run_row)" where
  "svc_transition sv org rid target reason etype now =
     bindE (transition_run (sv_db sv) org rid target reason now) (\<lambda>(db, r).
     case r of
       None \<Rightarrow> Inl WorkflowRunNotFoundError
     | Some run \<Rightarrow>
         Inr (\<lparr>sv_db = db,
               sv_outbox = wf_emit org etype ''workflow_run'' (rn_id run) (run_payload run) (sv_outbox sv)\<rparr>,
              run))"

definition pause_run :: "wf_service \<Rightarrow> uuid \<Rightarrow> uuid \<Rightarrow> time \<Rightarrow> wf_error + (wf_service \<times> run_row)" where
  "pause_run sv org rid now =
     svc_transition sv org rid Run_PAUSED ''WORKFLOW_PAUSED'' ''workflow.run.paused'' now"

definition resume_run :: "wf_service \<Rightarrow> uuid \<Rightarrow> uuid \<Rightarrow> time \<Rightarrow> wf_error + (wf_service \<times> run_row)" where
  "resume_run sv org rid now =
     svc_transition sv org rid Run_RUNNING ''WORKFLOW_RESUMED'' ''workflow.run.resumed'' now"

definition cancel_run :: "wf_service \<Rightarrow> uuid \<Rightarrow> uuid \<Rightarrow> time \<Rightarrow> wf_error + (wf_service \<times> run_row)" where
  "cancel_run sv org rid now =
     svc_transition sv org rid Run_CANCELLED ''WORKFLOW_CANCELLED'' ''workflow.run.cancelled'' now"

section \<open>Executing steps\<close>


text \<open>
  What an execution may raise: a placement error, which is re-raised untouched, or another
  \<^verbatim>\<open>NxsError\<close> with its code and its \<^verbatim>\<open>retryable\<close> flag.
\<close>

datatype exec_error =
    Placement string
  | Nxs (nx_code: string) (nx_retryable: bool)

record tool_invocation =
  ti_tool_key :: string
  ti_arguments :: json_obj
  ti_idempotency_key :: "uuid \<times> string"
  ti_correlation_id :: "string option"

record tool_result =
  tl_ok :: bool
  tl_output :: json
  tl_error_code :: "string option"

text \<open>
  The semantic key of a step, \<^verbatim>\<open>wf:{run id}:{step key}\<close>, is kept as the pair it is built
  from. \<open>tool\<close> is \<^verbatim>\<open>ToolEngine.invoke\<close> and \<open>agent\<close> is the session and the turn of
  \<^verbatim>\<open>AgentService\<close>, giving the content, the finish reason and the session identifier.
\<close>

type_synonym tool_engine = "tool_invocation \<Rightarrow> exec_error + tool_result"
type_synonym agent_runtime = "uuid \<Rightarrow> string \<Rightarrow> uuid \<times> string \<Rightarrow> exec_error + (string \<times> string \<times> string)"

definition step_outputs :: "step_run_row list \<Rightarrow> json_obj" where
  "step_outputs rows =
     concat (map (\<lambda>r. case sr_output r of None \<Rightarrow> [] | Some out \<Rightarrow> [(sr_step_key r, JObj out)]) rows)"

definition execute_step ::
  "tool_engine \<Rightarrow> agent_runtime \<Rightarrow> workflow_db \<Rightarrow> uuid \<Rightarrow> step_claim \<Rightarrow>
     exec_error + (json_obj \<times> string option \<times> string list option)" where
  "execute_step tool agent db org c =
     (let key = (rn_id (cl_run c), sr_step_key (cl_step c)) in
      case sp_config (cl_spec c) of
        ToolStepConfig tk args \<Rightarrow>
          bindE (tool \<lparr>ti_tool_key = tk, ti_arguments = args, ti_idempotency_key = key,
                       ti_correlation_id = rn_correlation_id (cl_run c)\<rparr>) (\<lambda>result.
          if \<not> tl_ok result then Inl (Nxs ''NXS_WORKFLOW_STEP_FAILED'' False)
          else Inr (case tl_output result of JObj out \<Rightarrow> out | v \<Rightarrow> [(''result'', v)], None, None))
      | AgentStepConfig aid prompt \<Rightarrow>
          bindE (agent aid prompt key) (\<lambda>(content, finish_reason, session_id).
          Inr ([(''content'', JStr content), (''finish_reason'', JStr finish_reason)], Some session_id, None))
      | ConditionStepConfig cond \<Rightarrow>
          (case get_run_row db org (rn_id (cl_run c)) of
             None \<Rightarrow> Inl (Nxs ''NXS_WORKFLOW_RUN_NOT_FOUND'' False)
           | Some _ \<Rightarrow>
               let selected = evaluate_condition cond (rn_input (cl_run c))
                     (step_outputs (list_steps db org (rn_id (cl_run c))));
                   selected_steps = (if selected then cc_then_steps cond else cc_else_steps cond);
                   skipped = (if selected then cc_else_steps cond else cc_then_steps cond)
               in Inr ([(''selected'', JBool selected), (''selected_steps'', JList (map JStr selected_steps)),
                        (''skipped_steps'', JList (map JStr skipped))], None, Some skipped))
      | NoopStepConfig out \<Rightarrow> Inr (out, None, None))"

text \<open>The \<^verbatim>\<open>NxsError\<close> code of an error the repository raises; the others are not caught.\<close>

fun wf_error_code :: "wf_error \<Rightarrow> string option" where
  "wf_error_code WorkflowExecutionFencedError = Some ''NXS_WORKFLOW_EXECUTION_FENCED''"
| "wf_error_code WorkflowInvalidStateError = Some ''NXS_WORKFLOW_INVALID_STATE''"
| "wf_error_code _ = None"

fun emit_changes :: "uuid \<Rightarrow> run_row \<Rightarrow> (string \<rightharpoonup> step_state) \<Rightarrow> step_run_row list \<Rightarrow> wf_event list \<Rightarrow> wf_event list" where
  "emit_changes org run before [] outbox = outbox"
| "emit_changes org run before (s # ss) outbox =
     emit_changes org run before ss
       (if sr_state s = Step_READY \<and> before (sr_step_key s) \<noteq> Some (sr_state s)
        then wf_emit org ''workflow.step.ready'' ''workflow_step_run'' (sr_id s) (step_run_payload run s) outbox
        else if sr_state s = Step_SKIPPED \<and> before (sr_step_key s) \<noteq> Some (sr_state s)
        then wf_emit org ''workflow.step.skipped'' ''workflow_step_run'' (sr_id s) (step_run_payload run s) outbox
        else outbox)"

definition settle_success ::
  "wf_service \<Rightarrow> uuid \<Rightarrow> uuid \<Rightarrow> step_claim \<Rightarrow> json_obj \<Rightarrow> string option \<Rightarrow> string list option \<Rightarrow> time \<Rightarrow>
     wf_error + (wf_service \<times> run_row)" where
  "settle_success sv org rid c output reference skipped now =
     (let before = map_of (rev (map (\<lambda>r. (sr_step_key r, sr_state r)) (list_steps (sv_db sv) org rid))) in
      bindE (case skipped of
               None \<Rightarrow> finish_step (sv_db sv) org c output reference now
             | Some ks \<Rightarrow> finish_condition (sv_db sv) org c output ks now) (\<lambda>(db, run).
      let out1 = wf_emit org ''workflow.step.completed'' ''workflow_step_run'' (sr_id (cl_step c))
            (step_payload c ''COMPLETED'') (sv_outbox sv);
          out2 = emit_changes org run before (list_steps db org rid) out1;
          out3 = (if rn_state run = Run_COMPLETED
                  then wf_emit org ''workflow.run.completed'' ''workflow_run'' (rn_id run) (run_payload run) out2
                  else out2)
      in Inr (\<lparr>sv_db = db, sv_outbox = out3\<rparr>, run)))"

definition settle_failure ::
  "wf_service \<Rightarrow> uuid \<Rightarrow> uuid \<Rightarrow> step_claim \<Rightarrow> string \<Rightarrow> bool \<Rightarrow> time \<Rightarrow> wf_error + wf_service" where
  "settle_failure sv org rid c code error_retryable now =
     (let retryable = error_retryable \<and> code \<in> set (rp_retryable_codes (sp_retry (cl_spec c))) in
      bindE (fail_step (sv_db sv) org c code retryable now) (\<lambda>(db, run).
      case find (\<lambda>s. sr_id s = sr_id (cl_step c)) (list_steps db org rid) of
        None \<Rightarrow> Inl (WorkflowInvalidDefinitionError StopIteration)
      | Some current \<Rightarrow>
          let out1 = wf_emit org (if sr_state current = Step_READY then ''workflow.step.ready''
                                  else ''workflow.step.failed'') ''workflow_step_run'' (sr_id (cl_step c))
                (step_run_payload run current) (sv_outbox sv);
              out2 = (if rn_state run = Run_FAILED
                      then wf_emit org ''workflow.run.failed'' ''workflow_run'' (rn_id run) (run_payload run) out1
                      else out1)
          in Inr \<lparr>sv_db = db, sv_outbox = out2\<rparr>))"

text \<open>
  The part of \<^verbatim>\<open>execute_next\<close> after the claim: \<open>result\<close> is what the execution gave and
  \<open>sv\<close> the state it is settled in. The state is returned also when the call raises.
\<close>

definition settle_execution ::
  "wf_service \<Rightarrow> uuid \<Rightarrow> uuid \<Rightarrow> step_claim \<Rightarrow>
     exec_error + (json_obj \<times> string option \<times> string list option) \<Rightarrow> time \<Rightarrow>
     wf_service \<times> (wf_error + run_row)" where
  "settle_execution sv org rid c result now =
     (let failing = (\<lambda>code retryable.
            (case settle_failure sv org rid c code retryable now of
               Inl e \<Rightarrow> (sv, Inl e)
             | Inr sv' \<Rightarrow> (sv', Inl (WorkflowStepFailedError code)))) in
      case result of
        Inl (Placement code) \<Rightarrow> (sv, Inl (UpstreamError code))
      | Inl (Nxs code retryable) \<Rightarrow> failing code retryable
      | Inr (output, reference, skipped) \<Rightarrow>
          (case settle_success sv org rid c output reference skipped now of
             Inr (sv', run) \<Rightarrow> (sv', Inr run)
           | Inl e \<Rightarrow>
               (case wf_error_code e of None \<Rightarrow> (sv, Inl e) | Some code \<Rightarrow> failing code False)))"


section \<open>The service stays within the engine\<close>






definition demo_service :: wf_service where
  "demo_service = \<lparr>sv_db = demo_started, sv_outbox = []\<rparr>"


definition no_agent :: agent_runtime where
  "no_agent a p k = Inl (Placement ''NXS_CELL_UNAVAILABLE'')"


section \<open>What an execution leads to\<close>

text \<open>
  C17: A tool step whose tool answers with a failure result is never retried: the run
  fails at once, whatever attempts are left and whatever codes the step's retry policy
  lists. The service turns the result into a \<^verbatim>\<open>WorkflowStepFailedError\<close>, which is not
  retryable, and drops the tool's own code.
\<close>

theorem failed_tool_result_ends_run:
  assumes "reachable hash (sv_db sv, cs)" and "c \<in> cs"
    and "sp_config (cl_spec c) = ToolStepConfig tk args"
    and "\<forall>i. \<exists>r. tool i = Inr r \<and> \<not> tl_ok r"
    and "fenced_run (sv_db sv) org c = Inr run" and "fenced_step (sv_db sv) org c = Inr row"
    and "rn_id run = rid"
  shows "\<exists>sv'. settle_execution sv org rid c (execute_step tool agent db org c) now =
      (sv', Inl (WorkflowStepFailedError ''NXS_WORKFLOW_STEP_FAILED'')) \<and>
    (\<exists>run' \<in> set (wf_runs (sv_db sv')). rn_id run' = rid \<and> rn_state run' = Run_FAILED \<and>
       rn_error_code run' = Some ''NXS_WORKFLOW_STEP_FAILED'')"
proof -
  let ?code = "''NXS_WORKFLOW_STEP_FAILED''"
  have inv: "store_inv (sv_db sv)" and gen: "genuine (sv_db sv) c"
    using reachable_inv [OF assms(1)] assms(2) by (auto simp: engine_inv_def claims_ok_def)
  note F = fenced_D [OF inv gen assms(5,6)]
  obtain r where r: "tool \<lparr>ti_tool_key = tk, ti_arguments = args,
      ti_idempotency_key = (rn_id (cl_run c), sr_step_key (cl_step c)),
      ti_correlation_id = rn_correlation_id (cl_run c)\<rparr> = Inr r" "\<not> tl_ok r"
    using assms(4) by blast
  then have ex: "execute_step tool agent db org c = Inl (Nxs ?code False)"
    using assms(3) by (simp add: execute_step_def Let_def)
  obtain db' run' where fl: "fail_step (sv_db sv) org c ?code False now = Inr (db', run')"
    and run': "run' = moved_run Run_FAILED ?code now run"
  proof -
    have "Run_FAILED \<in> set (workflow_transitions (rn_state run))" using F(4) by auto
    then show thesis using that assms(5,6)
      by (simp add: fail_step_def Let_def transition_run_row_eq require_workflow_transition_def checkE_def)
  qed
  obtain row' where row': "row' \<in> set (wf_step_runs db')" "sr_id row' = sr_id (cl_step c)"
    using fail_step_move(2) [OF inv gen fl] by blast
  have st: "engine_step hash org (sv_db sv, cs) (db', cs)" using es_fail [OF assms(2) fl] .
  have inv': "engine_inv (db', cs)" using engine_step_inv [OF st reachable_inv [OF assms(1)]] .
  then have "genuine db' c" using assms(2) by (auto simp: engine_inv_def claims_ok_def)
  then obtain q where q: "q \<in> set (wf_step_runs db')" "sr_id q = sr_id (cl_step c)" "sr_run_id q = rn_id (cl_run c)"
    "sr_org q = rn_org (cl_run c)" by (auto simp: genuine_def)
  have org: "rn_org (cl_run c) = org"
  proof -
    obtain q0 where "q0 \<in> set (wf_step_runs (sv_db sv))" "sr_id q0 = sr_id (cl_step c)" "sr_org q0 = rn_org (cl_run c)"
      using gen by (auto simp: genuine_def)
    moreover have "row \<in> set (wf_step_runs (sv_db sv))" "sr_org row = org" using F(2,5) by (auto simp: in_run_rows)
    ultimately show ?thesis using F(7) inv unfolding store_inv_def ids_ok_def by (metis distinct_map_inj)
  qed
  have "q \<in> set (list_steps db' org rid)"
    using q org F(3) assms(7) by (simp add: list_steps_def run_steps_def)
  then obtain cur where cur: "find (\<lambda>s. sr_id s = sr_id (cl_step c)) (list_steps db' org rid) = Some cur"
    using q(2) by (cases "find (\<lambda>s. sr_id s = sr_id (cl_step c)) (list_steps db' org rid)") (auto dest: find_None_D)
  obtain sv' where sv': "settle_failure sv org rid c ?code False now = Inr sv'" "sv_db sv' = db'"
    using fl cur by (simp add: settle_failure_def Let_def)
  have "moved_run Run_FAILED ?code now run \<in> set (wf_runs db')"
  proof -
    have "wf_runs db' = put_rows rn_id [moved_run Run_FAILED ?code now run] (wf_runs (sv_db sv))"
      using fl assms(5,6)
      by (auto simp: fail_step_def Let_def transition_run_row_eq require_workflow_transition_def checkE_def db_simps
          split: if_splits)
    then show ?thesis using F(1) by (force simp: put_rows_def)
  qed
  moreover have "rn_error_code (moved_run Run_FAILED ?code now run) = Some ?code" by (simp add: moved_run_def Let_def)
  ultimately show ?thesis using ex sv' assms(7)
    by (intro exI [of _ sv']) (auto simp: settle_execution_def Let_def intro!: bexI [of _ "moved_run Run_FAILED ?code now run"])
qed

text \<open>A workflow of one tool step that may be attempted three times.\<close>

definition tool_graph :: "step_spec list" where
  "tool_graph = [\<lparr>sp_key = ''t'', sp_step_type = Type_TOOL, sp_depends_on = [], sp_dependency_mode = Dep_ALL,
     sp_config = ToolStepConfig ''crm'' [],
     sp_retry = \<lparr>rp_max_attempts = 3, rp_retryable_codes = [''NXS_WORKFLOW_STEP_FAILED'']\<rparr>\<rparr>]"

definition solo_claimed :: "step_spec list \<Rightarrow> workflow_db" where
  "solo_claimed S = res_db (claim (dm_started S) 7 3 9 3)"

definition solo_claim :: "step_spec list \<Rightarrow> step_claim" where
  "solo_claim S = the (claim_of (claim (dm_started S) 7 3 9 3))"

lemma solo_reachable_claimed:
  assumes "dm_ok S" and "claim (dm_started S) 7 3 9 3 = Inr (solo_claimed S, Some (solo_claim S))"
  shows "reachable demo_hash (solo_claimed S, {solo_claim S})"
  using reachable_step [OF dm_reachable(3) [OF assms(1)] es_claim [OF assms(2)]] by simp

definition sad_tool :: tool_engine where
  "sad_tool i = Inr \<lparr>tl_ok = False, tl_output = JNull, tl_error_code = Some ''NXS_WORKFLOW_STEP_FAILED''\<rparr>"

theorem failed_tool_result_ends_run_witness:
  "rp_max_attempts (sp_retry (cl_spec (solo_claim tool_graph))) = 3 \<and>
   (\<exists>sv'. settle_execution \<lparr>sv_db = solo_claimed tool_graph, sv_outbox = []\<rparr> 7 3 (solo_claim tool_graph)
      (execute_step sad_tool no_agent (solo_claimed tool_graph) 7 (solo_claim tool_graph)) 5 =
      (sv', Inl (WorkflowStepFailedError ''NXS_WORKFLOW_STEP_FAILED'')) \<and>
    (\<exists>run' \<in> set (wf_runs (sv_db sv')). rn_id run' = 3 \<and> rn_state run' = Run_FAILED \<and>
       rn_error_code run' = Some ''NXS_WORKFLOW_STEP_FAILED''))"
proof -
  let ?sv = "\<lparr>sv_db = solo_claimed tool_graph, sv_outbox = []\<rparr>" and ?c = "solo_claim tool_graph"
  have "dm_ok tool_graph" by code_simp
  moreover have "claim (dm_started tool_graph) 7 3 9 3 = Inr (solo_claimed tool_graph, Some ?c)" by code_simp
  ultimately have re: "reachable demo_hash (sv_db ?sv, {?c})" using solo_reachable_claimed by simp
  have cfg: "sp_config (cl_spec ?c) = ToolStepConfig ''crm'' []"
    and three: "rp_max_attempts (sp_retry (cl_spec ?c)) = 3" by code_simp+
  have "is_ok (fenced_run (solo_claimed tool_graph) 7 ?c)" "is_ok (fenced_step (solo_claimed tool_graph) 7 ?c)"
    by code_simp+
  then obtain run row where fr: "fenced_run (sv_db ?sv) 7 ?c = Inr run" and fs: "fenced_step (sv_db ?sv) 7 ?c = Inr row"
    by (auto simp: is_ok_def split: sum.splits)
  have "rn_id (cl_run ?c) = 3" by code_simp
  then have id: "rn_id run = 3" using fr
    by (auto simp: fenced_run_def get_run_row_def dest!: find_Some_D split: option.splits if_splits)
  have bad: "\<forall>i. \<exists>r. sad_tool i = Inr r \<and> \<not> tl_ok r" by (simp add: sad_tool_def)
  show ?thesis using failed_tool_result_ends_run [OF re _ cfg bad fr fs id] three by blast
qed

text \<open>
  C18: Resuming a paused run whose steps all finished meanwhile completes it, and the only
  event of that transaction is \<^verbatim>\<open>workflow.run.resumed\<close>, with the state COMPLETED in its
  payload: no \<^verbatim>\<open>workflow.run.completed\<close> is ever sent for such a run.
\<close>

theorem resume_completes_silently:
  assumes "reachable hash (sv_db sv, cs)" and "get_run_row (sv_db sv) org rid = Some run"
    and "rn_state run = Run_PAUSED"
    and "\<forall>r \<in> set (run_steps (sv_db sv) org rid). step_done (sr_state r)"
  shows "\<exists>sv' run'. resume_run sv org rid now = Inr (sv', run') \<and> rn_state run' = Run_COMPLETED \<and>
    rn_id run' = rid \<and>
    sv_outbox sv' = sv_outbox sv @ [\<lparr>we_type = ''workflow.run.resumed'', we_org = org,
      we_aggregate_type = ''workflow_run'', we_aggregate_id = rid, we_payload = run_payload run'\<rparr>]"
proof -
  let ?db = "sv_db sv"
  have inv: "store_inv ?db" using assms(1) by (rule reachable_store)
  have R: "run \<in> set (wf_runs ?db)" "rn_org run = org" "rn_id run = rid" using get_run_row_D [OF assms(2)] by auto
  note D = run_ok_D [OF inv R(1)]
  have dr: "distinct (map rn_id (wf_runs ?db))" using D(2) by (simp add: ids_ok_def)
  obtain db1 run1 where t1: "transition_run_row ?db run Run_RUNNING ''WORKFLOW_RESUMED'' now = Inr (db1, run1)"
    using assms(3) by (simp add: transition_run_row_eq require_workflow_transition_def)
  note t = transition_run_row_update [OF dr R(1) keeps_run_id t1]
  have run1: "rn_org run1 = org" "rn_id run1 = rid" "rn_version_id run1 = rn_version_id run"
    "rn_state run1 = Run_RUNNING" using t(1) R by simp_all
  have rr: "run_rows db1 run1 = run_rows ?db run"
    using run_update_steps(1) [OF t(3), of org] run1 R by (simp add: run_rows_def)
  have ids: "ids_ok db1" by (intro run_update_ids [OF t(3) D(2)]) simp
  have mem: "run1 \<in> set (wf_runs db1)"
    using t(1) t(3) [of 0] R(1) by (auto simp: run_update_def set_update_where image_iff)
  have struct: "run_struct db1 run1" using D(1) run1 R by (intro run_update_struct [OF t(3)]) simp_all
  obtain db2 run2 where adv: "advance db1 org run1 now = Inr (db2, run2)"
    using advance_total [OF struct, of now] run1 by auto
  then have adv': "advance db1 (rn_org run1) run1 now = Inr (db2, run2)" using run1 by simp
  obtain g st' where g: "run_update db1 (rn_org run1) (rn_id run1) g (settle_row now st') db2" "run2 = g run1"
    "wake (run_specs db1 run1) Run_RUNNING (state_of (run_rows db1 run1))
        \<lparr>vw_run = rn_state run2, vw_step = state_of (map (settle_row now st') (run_rows db1 run1))\<rparr>"
    using advance_update [OF ids mem struct adv'] run1(4) by metis
  have "settle_row now st' r = r" if "r \<in> set (run_rows db1 run1)" for r
    using assms(4) that rr R by (auto simp: settle_row_def run_rows_def step_done_def split: option.splits)
  then have keep: "map (settle_row now st') (run_rows db1 run1) = run_rows db1 run1" by (simp add: map_idI)
  have "all_done (run_specs db1 run1) (state_of (run_rows db1 run1))"
    using all_done_rows [OF struct, of "\<lambda>r. r"] assms(4) rr R by (simp add: list_all_iff run_rows_def)
  then have c: "rn_state run2 = Run_COMPLETED" using g(3) unfolding keep by (auto elim: wakeE)
  have "rn_id run2 = rid" using g(1,2) run1 by (simp add: run_update_def keeps_run_def)
  with c show ?thesis using t1 adv assms(2)
    by (simp add: resume_run_def svc_transition_def transition_run_def wf_emit_def)
qed

definition paused_done :: workflow_db where
  "paused_done = res_db (finish_step
     (res_db (transition_run (solo_claimed [noop_step ''a'' [] Dep_ALL]) 7 3 Run_PAUSED ''WORKFLOW_PAUSED'' 4))
     7 (solo_claim [noop_step ''a'' [] Dep_ALL]) [] None 5)"

theorem resume_completes_silently_witness:
  "\<exists>sv' run'. resume_run \<lparr>sv_db = paused_done, sv_outbox = []\<rparr> 7 3 6 = Inr (sv', run') \<and>
     rn_state run' = Run_COMPLETED \<and> map we_type (sv_outbox sv') = [''workflow.run.resumed'']"
proof -
  let ?S = "[noop_step ''a'' [] Dep_ALL]"
  let ?tr = "transition_run (solo_claimed ?S) 7 3 Run_PAUSED ''WORKFLOW_PAUSED'' 4"
  let ?fin = "finish_step (res_db ?tr) 7 (solo_claim ?S) [] None 5"
  have "dm_ok ?S" "claim (dm_started ?S) 7 3 9 3 = Inr (solo_claimed ?S, Some (solo_claim ?S))" by code_simp+
  then have r1: "reachable demo_hash (solo_claimed ?S, {solo_claim ?S})" by (rule solo_reachable_claimed)
  have "is_ok ?tr" "is_ok ?fin" by code_simp+
  then obtain r q where tr: "?tr = Inr (res_db ?tr, r)" and fin: "?fin = Inr (paused_done, q)"
    using is_ok_D [of ?tr] is_ok_D [of ?fin] unfolding paused_done_def by blast
  have "get_run_row (solo_claimed ?S) 7 3 \<noteq> None" by code_simp
  then have "r \<noteq> None" using tr by (auto simp: transition_run_def split: option.splits)
  with tr have "reachable demo_hash (res_db ?tr, {solo_claim ?S})"
    using reachable_step [OF r1 es_control] by blast
  then have re: "reachable demo_hash (sv_db \<lparr>sv_db = paused_done, sv_outbox = []\<rparr>, {solo_claim ?S})"
    using reachable_step [OF _ es_finish [OF _ fin]] by simp
  have "map_option rn_state (get_run_row paused_done 7 3) = Some Run_PAUSED"
    and dn: "\<forall>r \<in> set (run_steps paused_done 7 3). step_done (sr_state r)" by code_simp+
  then obtain run where "get_run_row paused_done 7 3 = Some run" "rn_state run = Run_PAUSED" by auto
  then show ?thesis using resume_completes_silently [OF re, of 7 3 run 6] dn by fastforce
qed

lemma add_step_runs_error: "add_step_runs run ids steps now db \<noteq> Inl IntegrityError"
  by (induction steps arbitrary: db) (auto simp: Let_def split: option.splits)

text \<open>
  C19: \<^verbatim>\<open>start_run\<close> creates one run per idempotency key. After a start succeeded, a repeated
  request, and also one that looked before the first one committed and then hits the unique
  constraint, gets the very run of the first when its version and input have the recorded
  fingerprint, and the conflict error otherwise; it creates no run and sends no event.
\<close>

theorem svc_start_run_once:
  assumes "reachable hash (sv_db sv, cs)" and "k \<noteq> []"
    and "svc_start_run fp sv sv late org vid input (Some k) corr now = Inr (sv1, run)"
    and "snap = sv \<and> sv_db sv1 \<noteq> sv_db sv \<or> snap = sv1"
  shows "svc_start_run fp snap sv1 sv1 org vid input' (Some k) corr' now' =
    (if fp vid input' = fp vid input then Inr (sv1, run) else Inl WorkflowConflictError)"
proof -
  have ids: "ids_ok (sv_db sv)" using reachable_store [OF assms(1)] by (simp add: store_inv_def)
  from assms(3) obtain version where v: "get_version (sv_db sv) org vid = Some version"
    by (auto simp: svc_start_run_def svc_get_version_def of_option_def split: option.splits)
  then have vid: "wv_id version = vid" by (auto simp: get_version_def version_of_row_def dest!: find_Some_D)
  consider (old) "sv1 = sv" "run_by_idempotency (sv_db sv) org vid k = Some run" "rn_request_fingerprint run = fp vid input"
    | (new) "start_run_row (sv_db sv) (sv_db sv) org version input (Some k) (fp vid input) corr now = Inr (sv_db sv1, run, True)"
  proof (cases "run_by_idempotency (sv_db sv) org vid k")
    case (Some r)
    then show thesis using assms(2,3) v vid that(1)
      by (auto simp: svc_start_run_def svc_get_version_def start_run_row_def of_option_def Let_def split: if_splits)
  next
    case None
    have nt: "start_run_row (sv_db sv) (sv_db sv) org version input (Some k) (fp vid input) corr now \<noteq> Inr (db, r, False)" for db r
      using None vid by (auto simp: start_run_row_def Let_def)
    moreover have "start_run_row (sv_db sv) (sv_db sv) org version input (Some k) (fp vid input) corr now \<noteq> Inl IntegrityError"
      using None vid add_step_runs_error
      by (auto simp: start_run_row_def Let_def transition_run_row_eq require_workflow_transition_def checkE_def
          bindE_Inl)
    ultimately show thesis using assms(3) v vid None that(2)
      by (auto simp: svc_start_run_def svc_get_version_def of_option_def Let_def
          split: sum.splits if_splits wf_error.splits prod.splits)
  qed
  then show ?thesis
  proof cases
    case old
    then show ?thesis using assms(2,4) v vid
      by (auto simp: svc_start_run_def svc_get_version_def start_run_row_def of_option_def Let_def)
  next
    case new
    have S: "wf_runs (sv_db sv1) = wf_runs (sv_db sv) @ [run] \<and> wf_versions (sv_db sv1) = wf_versions (sv_db sv) \<and>
        wf_version_steps (sv_db sv1) = wf_version_steps (sv_db sv) \<and> rn_org run = org \<and> rn_version_id run = vid \<and>
        rn_idempotency_key run = Some k \<and> rn_request_fingerprint run = fp vid input \<and>
        run_by_idempotency (sv_db sv) org vid k = None"
      using ids new unfolding vid [symmetric] by (rule start_run_rows) simp
    have "find p (xs @ [x]) = (case find p xs of None \<Rightarrow> if p x then Some x else None | Some y \<Rightarrow> Some y)"
      for p :: "run_row \<Rightarrow> bool" and xs x by (induction xs) auto
    then have found: "run_by_idempotency (sv_db sv1) org vid k = Some run" using S by (simp add: run_by_idempotency_def)
    have "get_version (sv_db sv1) org vid = Some version"
      using v S by (auto simp: get_version_def version_of_row_def version_specs_def version_step_rows_def)
    with found S assms(2,4) vid show ?thesis
      by (auto simp: svc_start_run_def svc_get_version_def start_run_row_def of_option_def Let_def)
  qed
qed

theorem svc_start_run_once_witness:
  "svc_start_run (\<lambda>v i. ''fp'') demo_service demo_service demo_service 7 1 [] (Some ''k'') None 9 =
     Inr (demo_service, demo_run)"
proof -
  have re: "reachable demo_hash (sv_db demo_service, {})" using demo_reachable_started by (simp add: demo_service_def)
  have "svc_start_run (\<lambda>v i. ''fp'') demo_service demo_service demo_service 7 1 [] (Some ''k'') None 8 =
     Inr (demo_service, demo_run)" by code_simp
  from svc_start_run_once [OF re _ this, of demo_service "[]" None 9] show ?thesis by simp
qed

end
