(* ===== verification/Python_Text.thy ===== *)
theory Python_Text
  imports Prelude
begin

text \<open>
  The string functions of Python the modelled code uses beyond splitting and joining:
  stripping, lower case, decimal and hexadecimal rendering. A \<open>string\<close> of the model holds
  code points below 256.
\<close>

section \<open>Stripping and case\<close>

definition code_point :: "char \<Rightarrow> nat" where
  "code_point c = of_char c"

text \<open>\<^verbatim>\<open>str.isspace\<close> below 256, the characters \<^verbatim>\<open>str.strip()\<close> removes.\<close>

definition py_space :: "char \<Rightarrow> bool" where
  "py_space c \<longleftrightarrow> 9 \<le> code_point c \<and> code_point c \<le> 13 \<or> 28 \<le> code_point c \<and> code_point c \<le> 32 \<or>
     code_point c = 133 \<or> code_point c = 160"

text \<open>The character class \<^verbatim>\<open>[\x00-\x1f\x7f]\<close>.\<close>

definition control_char :: "char \<Rightarrow> bool" where
  "control_char c \<longleftrightarrow> code_point c < 32 \<or> code_point c = 127"

definition lstrip_chars :: "(char \<Rightarrow> bool) \<Rightarrow> string \<Rightarrow> string" where
  "lstrip_chars p s = dropWhile p s"

definition py_strip :: "string \<Rightarrow> string" where
  "py_strip s = rev (dropWhile py_space (rev (dropWhile py_space s)))"

definition lower_one :: "char \<Rightarrow> char" where
  "lower_one c = (let n = code_point c in
     if 65 \<le> n \<and> n \<le> 90 \<or> 192 \<le> n \<and> n \<le> 222 \<and> n \<noteq> 215 then char_of (n + 32) else c)"

definition py_lower :: "string \<Rightarrow> string" where
  "py_lower s = map lower_one s"

lemma code_point_less: "code_point c < 256"
  by (simp add: code_point_def)

lemma code_point_char_of: "n < 256 \<Longrightarrow> code_point (char_of n) = n"
  by (simp add: code_point_def)

lemma lower_one_idem [simp]: "lower_one (lower_one c) = lower_one c"
  using code_point_char_of [of "code_point c + 32"]
  by (auto simp: lower_one_def Let_def)

lemma py_lower_idem [simp]: "py_lower (py_lower s) = py_lower s"
  by (simp add: py_lower_def)

lemma lower_one_space: "py_space (lower_one c) \<longleftrightarrow> py_space c"
  using code_point_char_of [of "code_point c + 32"]
  by (auto simp: lower_one_def Let_def py_space_def)

lemma py_strip_hd: "py_strip s \<noteq> [] \<Longrightarrow> \<not> py_space (hd (py_strip s))"
proof -
  assume ne: "py_strip s \<noteq> []"
  let ?t = "dropWhile py_space s"
  have t: "?t \<noteq> []" using ne unfolding py_strip_def by (metis dropWhile.simps(1) rev.simps(1))
  obtain u where u: "?t = py_strip s @ u"
    using takeWhile_dropWhile_id [of py_space "rev ?t"] unfolding py_strip_def
    by (metis rev_append rev_rev_ident)
  have "hd (py_strip s) = hd ?t" using ne u by (metis hd_append2)
  then show ?thesis using hd_dropWhile [of py_space s] t by simp
qed

lemma py_strip_last: "py_strip s \<noteq> [] \<Longrightarrow> \<not> py_space (last (py_strip s))"
  unfolding py_strip_def by (simp only: last_rev rev_is_Nil_conv hd_dropWhile not_False_eq_True)

lemma py_strip_stripped:
  assumes "s \<noteq> []" and "\<not> py_space (hd s)" and "\<not> py_space (last s)"
  shows "py_strip s = s"
proof -
  have "dropWhile py_space s = s" using assms(1,2) by (cases s) auto
  moreover have "dropWhile py_space (rev s) = rev s" using assms(1,3) by (cases s rule: rev_cases) auto
  ultimately show ?thesis by (simp add: py_strip_def)
qed

lemma py_strip_Nil [simp]: "py_strip [] = []"
  by (simp add: py_strip_def)

lemma py_strip_idem [simp]: "py_strip (py_strip s) = py_strip s"
  using py_strip_stripped [of "py_strip s"] py_strip_hd py_strip_last by (cases "py_strip s = []") auto

section \<open>Numbers as text\<close>

text \<open>The \<open>k\<close> digits of a number in base \<open>b\<close>, most significant first, with leading zeros.\<close>

definition digit_of :: "nat \<Rightarrow> char" where
  "digit_of d = ''0123456789abcdef'' ! d"

fun digits_fixed :: "nat \<Rightarrow> nat \<Rightarrow> nat \<Rightarrow> string" where
  "digits_fixed b 0 n = []"
| "digits_fixed b (Suc k) n = digits_fixed b k (n div b) @ [digit_of (n mod b)]"

fun decimal :: "nat \<Rightarrow> string" where
  "decimal n = (if n < 10 then [digit_of n] else decimal (n div 10) @ [digit_of (n mod 10)])"

declare decimal.simps [simp del]

lemma digit_of_inj: "a < 16 \<Longrightarrow> b < 16 \<Longrightarrow> digit_of a = digit_of b \<longleftrightarrow> a = b"
  unfolding digit_of_def by (subst nth_eq_iff_index_eq) auto

lemma digit_of_char: "d < 10 \<Longrightarrow> digit_char (digit_of d)"
  by (auto simp: less_Suc_eq numeral_eq_Suc digit_of_def digit_char_def less_eq_char_def)

lemma length_digits_fixed [simp]: "length (digits_fixed b k n) = k"
  by (induction k arbitrary: n) auto

lemma digits_fixed_inj:
  assumes "b \<le> 16" and "m < b ^ k" and "n < b ^ k"
  shows "digits_fixed b k m = digits_fixed b k n \<longleftrightarrow> m = n"
  using assms(2,3)
proof (induction k arbitrary: m n)
  case (Suc k)
  have b: "0 < b" using Suc.prems by (cases b) auto
  have d: "m div b < b ^ k" "n div b < b ^ k" using Suc.prems b by (auto simp: less_mult_imp_div_less mult.commute)
  have r: "m mod b < 16" "n mod b < 16" using assms(1) b by (meson less_le_trans mod_less_divisor)+
  have "m = n \<longleftrightarrow> m div b = n div b \<and> m mod b = n mod b" by (metis div_mult_mod_eq)
  then show ?case using Suc.IH [OF d] digit_of_inj [OF r] by simp
qed auto

lemma digits_fixed_range: "1 < b \<Longrightarrow> set (digits_fixed b k n) \<subseteq> digit_of ` {..<b}"
  by (induction k arbitrary: n) auto

lemma decimal_digits: "list_all digit_char (decimal n)"
proof (induction n rule: decimal.induct)
  case (1 n)
  then show ?case by (subst decimal.simps) (auto simp: digit_of_char)
qed

text \<open>Every string of \<open>k\<close> decimal digits is the rendering of a number below \<open>10 ^ k\<close>.\<close>

lemma digits_fixed_surj:
  assumes "length s = k" and "list_all digit_char s"
  shows "\<exists>n < 10 ^ k. digits_fixed 10 k n = s"
  using assms
proof (induction k arbitrary: s)
  case (Suc k)
  then obtain t c where s: "s = t @ [c]" by (metis length_0_conv rev_exhaust nat.distinct(1))
  then obtain n where n: "n < 10 ^ k" "digits_fixed 10 k n = t" using Suc by auto
  have "c \<in> digit_of ` {0..<10}"
  proof -
    have "digit_char c" using Suc.prems s by simp
    then have "of_char c \<in> {48..<58::nat}" by (auto simp: digit_char_def less_eq_char_def)
    then have "char_of (of_char c :: nat) \<in> char_of ` {48..<58::nat}" by (rule imageI)
    moreover have "char_of ` {48..<58::nat} = digit_of ` {0..<10}" by code_simp
    ultimately show ?thesis by simp
  qed
  then obtain d where d: "d < 10" "digit_of d = c" by auto
  have "n * 10 + d < 10 ^ Suc k" using n(1) d(1) by simp
  moreover have "digits_fixed 10 (Suc k) (n * 10 + d) = s" using n d s by simp
  ultimately show ?case by blast
qed simp

section \<open>Identifiers as text\<close>

text \<open>\<^verbatim>\<open>str(uuid)\<close>: 32 hexadecimal digits in groups of 8, 4, 4, 4 and 12.\<close>

definition uuid_str :: "uuid \<Rightarrow> string" where
  "uuid_str u = (let h = digits_fixed 16 32 u in
     take 8 h @ ''-'' @ take 4 (drop 8 h) @ ''-'' @ take 4 (drop 12 h) @ ''-'' @ take 4 (drop 16 h) @ ''-'' @ drop 20 h)"

definition uuid_hex :: "uuid \<Rightarrow> string" where
  "uuid_hex u = digits_fixed 16 32 u"

definition uuid_version :: "uuid \<Rightarrow> nat" where
  "uuid_version u = u div 2 ^ 76 mod 16"

end
