(* ===== verification/Identity.thy ===== *)
theory Identity
  imports Python_Text
begin

text \<open>
  \<^verbatim>\<open>domain/auth/identity.py\<close> and \<^verbatim>\<open>domain/customers/normalization.py\<close>: the canonical forms of
  email addresses, phone numbers and external identifiers, on which uniqueness and lookup
  of users, customers and one-time-code destinations rest. Unicode normal form C is the
  identity on the code points of the model; form KC is not, so it is an argument.
\<close>

section \<open>Email addresses\<close>

datatype identity_error =
    EmailMalformed
  | PhoneEmpty
  | PhoneControl
  | PhoneNotE164
  | PhoneAmbiguous
  | ExternalLength
  | ExternalControl

definition alnum_char :: "char \<Rightarrow> bool" where
  "alnum_char c \<longleftrightarrow> upper_char c \<or> lower_char c \<or> digit_char c"

definition newline :: char where
  "newline = CHR 0x0A"

text \<open>\<^verbatim>\<open>$\<close> of a Python pattern matches at the end and also before a final newline.\<close>

definition match_dollar :: "(string \<Rightarrow> bool) \<Rightarrow> string \<Rightarrow> bool" where
  "match_dollar p s \<longleftrightarrow> p s \<or> (s \<noteq> [] \<and> last s = newline \<and> p (butlast s))"

definition local_part :: "string \<Rightarrow> bool" where
  "local_part s \<longleftrightarrow> s \<noteq> [] \<and>
     list_all (\<lambda>c. alnum_char c \<or> c \<in> set ''.!#$%&*+/=?^_`{|}~-'' \<or> c = CHR 0x27) s"

definition domain_label :: "string \<Rightarrow> bool" where
  "domain_label w \<longleftrightarrow> 1 \<le> length w \<and> length w \<le> 63 \<and> alnum_char (hd w) \<and> alnum_char (last w) \<and>
     list_all (\<lambda>c. alnum_char c \<or> c = CHR ''-'') w"

definition domain_name :: "string \<Rightarrow> bool" where
  "domain_name d \<longleftrightarrow> 2 \<le> length (py_split CHR ''.'' d) \<and> list_all domain_label (py_split CHR ''.'' d)"

definition normalize_email :: "string \<Rightarrow> identity_error + string" where
  "normalize_email raw =
     (let candidate = py_lower (py_strip raw) in
      if candidate = [] \<or> length candidate > 254 then Inl EmailMalformed
      else case py_split CHR ''@'' candidate of
        [local, domain] \<Rightarrow>
          if local = [] \<or> length local > 64 \<or> length domain > 255 \<or>
             \<not> match_dollar local_part local \<or> \<not> match_dollar domain_name domain
          then Inl EmailMalformed else Inr candidate
      | _ \<Rightarrow> Inl EmailMalformed)"

datatype password_error = PasswordLength | PasswordControl

definition validate_password :: "string \<Rightarrow> nat \<Rightarrow> nat \<Rightarrow> password_error + string" where
  "validate_password pw min_length max_length =
     (if length pw < min_length \<or> length pw > max_length then Inl PasswordLength
      else if list_ex control_char pw then Inl PasswordControl
      else Inr pw)"

section \<open>Phone numbers and external identifiers\<close>

definition e164_digits :: "string \<Rightarrow> bool" where
  "e164_digits ds \<longleftrightarrow> 8 \<le> length ds \<and> length ds \<le> 15 \<and> list_all digit_char ds"

definition country_code_ok :: "string \<Rightarrow> bool" where
  "country_code_ok cc \<longleftrightarrow>
     (case cc of [] \<Rightarrow> False
      | c # cs \<Rightarrow> digit_char c \<and> c \<noteq> CHR ''0'' \<and> length cs \<le> 2 \<and> list_all digit_char cs)"

definition normalize_phone :: "(string \<Rightarrow> string) \<Rightarrow> string \<Rightarrow> string option \<Rightarrow> identity_error + string" where
  "normalize_phone nfkc raw default_country =
     (let stripped = py_strip (nfkc raw);
          candidate = (if take 2 stripped = ''00'' then CHR ''+'' # drop 2 stripped else stripped) in
      if candidate = [] then Inl PhoneEmpty
      else if list_ex control_char candidate then Inl PhoneControl
      else if hd candidate = CHR ''+'' then
        let digits = filter digit_char (tl candidate) in
        if \<not> e164_digits digits then Inl PhoneNotE164 else Inr (CHR ''+'' # digits)
      else
        let digits = filter digit_char candidate in
        if digits = [] then Inl PhoneEmpty
        else case default_country of
          None \<Rightarrow> Inl PhoneAmbiguous
        | Some cc \<Rightarrow>
            if \<not> country_code_ok cc then Inl PhoneAmbiguous
            else if \<not> e164_digits (cc @ digits) then Inl PhoneNotE164
            else Inr (CHR ''+'' # cc @ digits))"

definition normalize_external_id :: "string \<Rightarrow> identity_error + string" where
  "normalize_external_id raw =
     (let candidate = py_strip raw in
      if candidate = [] \<or> length candidate > 160 then Inl ExternalLength
      else if list_ex control_char candidate then Inl ExternalControl
      else Inr candidate)"

datatype identity_type = Id_EMAIL | Id_PHONE | Id_EXTERNAL_ID

definition normalize_identity_value ::
  "(string \<Rightarrow> string) \<Rightarrow> identity_type \<Rightarrow> string \<Rightarrow> string option \<Rightarrow> identity_error + string" where
  "normalize_identity_value nfkc t raw default_country =
     (case t of
        Id_EMAIL \<Rightarrow> normalize_email raw
      | Id_PHONE \<Rightarrow> normalize_phone nfkc raw default_country
      | Id_EXTERNAL_ID \<Rightarrow> normalize_external_id raw)"

text \<open>Form KC leaves ASCII text alone.\<close>

definition ascii_stable :: "(string \<Rightarrow> string) \<Rightarrow> bool" where
  "ascii_stable nfkc \<longleftrightarrow> (\<forall>s. list_all (\<lambda>c. code_point c < 128) s \<longrightarrow> nfkc s = s)"

section \<open>Canonical forms\<close>

lemma digit_char_code: "digit_char c \<longleftrightarrow> 48 \<le> code_point c \<and> code_point c \<le> 57"
  by (simp add: digit_char_def less_eq_char_def code_point_def)

lemma plus_code [simp]: "code_point CHR ''+'' = 43"
  by code_simp

lemma phone_form_fixed:
  assumes "ascii_stable nfkc" and "e164_digits ds"
  shows "normalize_phone nfkc (CHR ''+'' # ds) cc = Inr (CHR ''+'' # ds)"
proof -
  let ?v = "CHR ''+'' # ds"
  have d: "list_all digit_char ds" and ne: "ds \<noteq> []" using assms(2) by (auto simp: e164_digits_def)
  have "list_all (\<lambda>c. code_point c < 128) ?v"
    using d by (auto simp: list_all_iff digit_char_code)
  then have "nfkc ?v = ?v" using assms(1) by (simp add: ascii_stable_def)
  moreover have "py_strip ?v = ?v"
  proof (rule py_strip_stripped)
    have "digit_char (last ds)" using d ne by (simp add: list_all_iff)
    then show "\<not> py_space (last ?v)" using ne by (auto simp: py_space_def digit_char_code)
  qed (simp_all add: py_space_def)
  moreover have "\<not> list_ex control_char ?v"
    using d by (auto simp: list_ex_iff list_all_iff control_char_def digit_char_code)
  moreover have "filter digit_char ds = ds" using d by (simp add: list_all_iff filter_id_conv)
  ultimately show ?thesis using assms(2) by (simp add: normalize_phone_def Let_def)
qed

lemma normalize_phone_form:
  assumes "normalize_phone nfkc raw cc = Inr v"
  shows "\<exists>ds. v = CHR ''+'' # ds \<and> e164_digits ds"
  using assms by (auto simp: normalize_phone_def Let_def split: if_splits option.splits)

lemma normalize_email_idem:
  assumes "normalize_email raw = Inr v"
  shows "normalize_email v = Inr v"
proof -
  have v: "v = py_lower (py_strip raw)" and ne: "py_strip raw \<noteq> []"
    using assms by (auto simp: normalize_email_def Let_def py_lower_def split: if_splits list.splits)
  have "py_strip v = v"
    using py_strip_hd [OF ne] py_strip_last [OF ne] ne unfolding v py_lower_def
    by (intro py_strip_stripped) (auto simp: hd_map last_map lower_one_space)
  moreover have "py_lower v = v" by (simp add: v)
  ultimately have "py_lower (py_strip v) = py_lower (py_strip raw)" using v by simp
  then have "normalize_email v = normalize_email raw" unfolding normalize_email_def by (simp only:)
  with assms show ?thesis by simp
qed

text \<open>
  C20: Normalization is idempotent: a stored identity, normalized again as any lookup or
  resend does it, and whatever default country comes with it, is itself.
\<close>

theorem normalize_identity_idempotent:
  assumes "ascii_stable nfkc" and "normalize_identity_value nfkc t raw cc = Inr v"
  shows "normalize_identity_value nfkc t v cc' = Inr v"
proof (cases t)
  case Id_EMAIL
  then show ?thesis using assms(2) normalize_email_idem by (simp add: normalize_identity_value_def)
next
  case Id_PHONE
  then obtain ds where "v = CHR ''+'' # ds" "e164_digits ds"
    using assms(2) normalize_phone_form [of nfkc raw cc v] by (auto simp: normalize_identity_value_def)
  then show ?thesis using Id_PHONE phone_form_fixed [OF assms(1)] by (simp add: normalize_identity_value_def)
next
  case Id_EXTERNAL_ID
  then show ?thesis using assms(2)
    by (auto simp: normalize_identity_value_def normalize_external_id_def Let_def split: if_splits)
qed

theorem normalize_identity_idempotent_witness:
  "normalize_identity_value (\<lambda>s. s) Id_PHONE ''+4915112345678'' None = Inr ''+4915112345678''"
proof -
  have "ascii_stable (\<lambda>s. s)" by (simp add: ascii_stable_def)
  moreover have "normalize_identity_value (\<lambda>s. s) Id_PHONE '' 0151 (1234) 5678 '' (Some ''49'') = Inr ''+49015112345678''"
    and "normalize_identity_value (\<lambda>s. s) Id_PHONE ''0049 151-1234 5678'' None = Inr ''+4915112345678''" by code_simp+
  ultimately show ?thesis using normalize_identity_idempotent by blast
qed

text \<open>
  C21: An email address with a newline at the end of its local part is accepted wherever
  the address without it is, and the control character is stored: the pattern of the local
  part ends in \<^verbatim>\<open>$\<close>, which also matches before a final newline.
\<close>

theorem email_newline_accepted:
  assumes "normalize_email (l @ ''@'' @ d) = Inr (l @ ''@'' @ d)" and "local_part l"
    and "length l < 64" and "length l + length d < 253"
  shows "normalize_email (l @ newline # ''@'' @ d) = Inr (l @ newline # ''@'' @ d) \<and> control_char newline"
proof -
  let ?v = "l @ ''@'' @ d" and ?w = "l @ newline # ''@'' @ d"
  have at: "CHR ''@'' \<notin> set l" and ne: "l \<noteq> []"
    using assms(2) by (auto simp: local_part_def list_all_iff alnum_char_def upper_char_def lower_char_def
        digit_char_def less_eq_char_def)
  have v: "py_lower (py_strip ?v) = ?v"
    using assms(1) by (auto simp: normalize_email_def Let_def split: if_splits list.splits)
  have "py_split CHR ''@'' ?v = l # py_split CHR ''@'' d"
    using py_split_append [OF at] by simp
  then have d: "py_split CHR ''@'' d = [d]" "match_dollar domain_name d" "length d \<le> 255"
    using assms(1) py_join_split [of "CHR ''@''" d] unfolding normalize_email_def Let_def v
    by (auto split: if_splits list.splits)
  then have dne: "d \<noteq> []" by (auto simp: match_dollar_def domain_name_def)
  have low: "py_lower ?v = ?v" using v by (metis py_lower_idem)
  have "\<not> py_space (hd ?v)" "\<not> py_space (last ?v)"
  proof -
    have "py_strip ?v \<noteq> []" using v by (auto simp: py_lower_def)
    moreover have "?v = map lower_one (py_strip ?v)" using v by (simp add: py_lower_def)
    ultimately show "\<not> py_space (hd ?v)" "\<not> py_space (last ?v)"
      using py_strip_hd py_strip_last lower_one_space by (metis hd_map, metis last_map)
  qed
  then have "py_strip ?w = ?w" using ne dne by (intro py_strip_stripped) auto
  moreover have "py_lower ?w = ?w"
  proof -
    have "lower_one newline = newline" by code_simp
    then show ?thesis using low by (simp add: py_lower_def)
  qed
  moreover have "py_split CHR ''@'' ?w = [l @ [newline], d]"
    using py_split_append [of "CHR ''@''" "l @ [newline]" d] at d(1) by (simp add: newline_def)
  moreover have "match_dollar local_part (l @ [newline])" using assms(2) by (simp add: match_dollar_def)
  ultimately have "normalize_email ?w = Inr ?w"
    using assms(3,4) d(2,3) ne unfolding normalize_email_def Let_def by simp
  moreover have "control_char newline" by code_simp
  ultimately show ?thesis by blast
qed

theorem email_newline_accepted_witness:
  "normalize_email (''ann'' @ newline # ''@'' @ ''nexus.example'') = Inr (''ann'' @ newline # ''@'' @ ''nexus.example'')"
proof -
  have "normalize_email (''ann'' @ ''@'' @ ''nexus.example'') = Inr (''ann'' @ ''@'' @ ''nexus.example'')"
    "local_part ''ann''" by code_simp+
  then show ?thesis using email_newline_accepted [of "''ann''" "''nexus.example''"] by simp
qed

end
