(* ===== verification/Otp.thy ===== *)
theory Otp
  imports Identity
begin

text \<open>
  \<^verbatim>\<open>otp/\<close> and \<^verbatim>\<open>domain/otp/\<close>: one-time codes. Codes, keyed hashes and masks; the registered
  purposes; the challenge table; and the transactions of \<^verbatim>\<open>OtpService\<close> with the audit events
  each enqueues. HMAC-SHA256, the request digest, Unicode form KC, the account lookup and the
  messaging service are arguments, grouped in one record. A statement of a transaction that
  reads without a lock sees a state of its own, so races are runs of the model; the events
  are kept with the time of their transaction, and the messages handed to the messaging
  service are kept too.
\<close>

section \<open>Codes and masks\<close>

definition unit_separator :: char where
  "unit_separator = CHR 0x1F"

text \<open>\<open>r\<close> is what \<^verbatim>\<open>secrets.randbelow(10 ** length)\<close> drew.\<close>

definition generate_code :: "nat \<Rightarrow> nat \<Rightarrow> string option" where
  "generate_code len r = (if 6 \<le> len \<and> len \<le> 10 then Some (digits_fixed 10 len r) else None)"

definition canonical_context :: "uuid \<Rightarrow> uuid \<Rightarrow> string \<Rightarrow> string \<Rightarrow> string \<Rightarrow> nat \<Rightarrow> string" where
  "canonical_context org cid purpose channel destination version =
     py_join [unit_separator]
       [''nxs-otp:v'' @ decimal version, uuid_str org, uuid_str cid, purpose, channel, destination]"

type_synonym hmac = "string \<Rightarrow> string \<Rightarrow> string"

definition hash_code :: "hmac \<Rightarrow> string \<Rightarrow> string \<Rightarrow> string \<Rightarrow> string" where
  "hash_code hmac pepper ctx code = hmac pepper (ctx @ [unit_separator] @ code)"

definition verify_code :: "hmac \<Rightarrow> string \<Rightarrow> string \<Rightarrow> string \<Rightarrow> string \<Rightarrow> bool" where
  "verify_code hmac pepper ctx code expected \<longleftrightarrow> hash_code hmac pepper ctx code = expected"

definition destination_fingerprint :: "hmac \<Rightarrow> string \<Rightarrow> string \<Rightarrow> string \<Rightarrow> string" where
  "destination_fingerprint hmac pepper channel destination =
     hmac pepper (''nxs-otp-dest'' @ [unit_separator] @ channel @ [unit_separator] @ destination)"

definition first_or_star :: "string \<Rightarrow> string" where
  "first_or_star s = (if s = [] then ''*'' else take 1 s)"

definition mask_destination :: "string \<Rightarrow> string \<Rightarrow> string" where
  "mask_destination channel destination =
     (if channel = ''EMAIL'' \<and> CHR ''@'' \<in> set destination then
        let local = takeWhile (\<lambda>c. c \<noteq> CHR ''@'') destination;
            domain = tl (dropWhile (\<lambda>c. c \<noteq> CHR ''@'') destination);
            local_masked = first_or_star local @ ''***'';
            labels = py_split CHR ''.'' domain
        in if 2 \<le> length labels
           then local_masked @ ''@'' @ py_join ''.'' ((first_or_star (hd labels) @ ''***'') # tl labels)
           else local_masked @ ''@***''
      else
        let digits = dropWhile (\<lambda>c. c = CHR ''+'') destination;
            keep = drop (length digits - 4) digits;
            prefix = (if destination \<noteq> [] \<and> hd destination = CHR ''+'' then ''+'' else [])
        in prefix @ replicate (max (length digits - 4) 2) CHR ''*'' @ keep)"

section \<open>Purposes\<close>

datatype otp_channel = Ch_SMS | Ch_EMAIL

fun channel_value :: "otp_channel \<Rightarrow> string" where
  "channel_value Ch_SMS = ''SMS''"
| "channel_value Ch_EMAIL = ''EMAIL''"

fun channel_identity :: "otp_channel \<Rightarrow> identity_type" where
  "channel_identity Ch_SMS = Id_PHONE"
| "channel_identity Ch_EMAIL = Id_EMAIL"

definition purpose_registry :: "(string \<times> otp_channel list) list" where
  "purpose_registry =
     [(''GENERIC_VERIFICATION'', [Ch_SMS, Ch_EMAIL]),
      (''VERIFY_EMAIL'', [Ch_EMAIL]),
      (''VERIFY_PHONE'', [Ch_SMS])]"

datatype otp_error =
    OtpChallengeNotFoundError
  | OtpInvalidError
  | OtpExpiredError
  | OtpAlreadyUsedError
  | OtpLockedError
  | OtpRateLimitedError
  | OtpResendTooSoonError
  | OtpDeliveryFailedError string
  | OtpPurposeInvalidError
  | OtpConfigInvalidError
  | OtpIdempotencyConflictError
  | OtpIntegrityError
  | OtpAssertionError
  | OtpValueError

definition resolve_purpose :: "string \<Rightarrow> otp_channel \<Rightarrow> otp_error + string" where
  "resolve_purpose key channel =
     (case map_of purpose_registry key of
        None \<Rightarrow> Inl OtpPurposeInvalidError
      | Some allowed \<Rightarrow> if channel \<notin> set allowed then Inl OtpPurposeInvalidError else Inr key)"

section \<open>Challenges\<close>

datatype otp_status = Otp_ACTIVE | Otp_VERIFIED | Otp_EXPIRED | Otp_REVOKED | Otp_LOCKED

record otp_challenge =
  oc_id :: uuid
  oc_org :: uuid
  oc_destination :: string
  oc_dest_fp :: string
  oc_purpose :: string
  oc_channel :: otp_channel
  oc_account :: uuid
  oc_code_hash :: string
  oc_hash_version :: nat
  oc_status :: otp_status
  oc_attempts :: int
  oc_max_attempts :: int
  oc_request_fp :: string
  oc_idempotency_key :: "string option"
  oc_delivery_message_id :: "uuid option"
  oc_correlation_id :: "string option"
  oc_issued_at :: time
  oc_expires_at :: time
  oc_resend_after :: time
  oc_verified_at :: "time option"
  oc_revoked_at :: "time option"
  oc_locked_at :: "time option"
  oc_last_attempt_at :: "time option"
  oc_created_at :: time
  oc_updated_at :: time

datatype otp_extra =
    No_extra
  | Expires_at time
  | Error_code string
  | Attempts int
  | Attempts_of int int
  | Reason string

record otp_event =
  oe_type :: string
  oe_org :: uuid
  oe_challenge :: uuid
  oe_purpose :: string
  oe_channel :: string
  oe_masked :: string
  oe_extra :: otp_extra
  oe_time :: time

record otp_message =
  om_challenge :: uuid
  om_destination :: string
  om_text :: string
  om_subject :: "string option"

record otp_store =
  os_challenges :: "otp_challenge list"
  os_events :: "otp_event list"
  os_sent :: "otp_message list"

definition empty_otp_store :: otp_store where
  "empty_otp_store = \<lparr>os_challenges = [], os_events = [], os_sent = []\<rparr>"

record otp_config =
  cf_enabled :: bool
  cf_code_length :: nat
  cf_ttl :: int
  cf_max_attempts :: int
  cf_cooldown :: int
  cf_max_issues :: nat
  cf_window :: int
  cf_pepper :: "string option"
  cf_ephemeral_pepper :: "string option"

text \<open>The bounds \<^verbatim>\<open>OtpSettings\<close> enforces.\<close>

definition otp_config_ok :: "otp_config \<Rightarrow> bool" where
  "otp_config_ok cfg \<longleftrightarrow>
     6 \<le> cf_code_length cfg \<and> cf_code_length cfg \<le> 10 \<and> 60 \<le> cf_ttl cfg \<and> cf_ttl cfg \<le> 1800 \<and>
     1 \<le> cf_max_attempts cfg \<and> cf_max_attempts cfg \<le> 10 \<and> 15 \<le> cf_cooldown cfg \<and> cf_cooldown cfg \<le> 900 \<and>
     1 \<le> cf_max_issues cfg \<and> cf_max_issues cfg \<le> 50 \<and> 60 \<le> cf_window cfg \<and> cf_window cfg \<le> 86400"

definition otp_pepper :: "otp_config \<Rightarrow> otp_error + string" where
  "otp_pepper cfg =
     (case cf_pepper cfg of
        Some p \<Rightarrow> Inr p
      | None \<Rightarrow> of_option OtpConfigInvalidError (cf_ephemeral_pepper cfg))"

section \<open>The challenge table\<close>

definition otp_by_id :: "otp_store \<Rightarrow> uuid \<Rightarrow> uuid \<Rightarrow> otp_challenge option" where
  "otp_by_id st org cid = find (\<lambda>c. oc_org c = org \<and> oc_id c = cid) (os_challenges st)"

definition otp_by_key :: "otp_store \<Rightarrow> uuid \<Rightarrow> string \<Rightarrow> otp_challenge option" where
  "otp_by_key st org key =
     find (\<lambda>c. oc_org c = org \<and> oc_idempotency_key c = Some key) (os_challenges st)"

definition same_subject :: "uuid \<Rightarrow> string \<Rightarrow> string \<Rightarrow> otp_challenge \<Rightarrow> bool" where
  "same_subject org fp purpose c \<longleftrightarrow> oc_org c = org \<and> oc_dest_fp c = fp \<and> oc_purpose c = purpose"

definition active_for_subject :: "otp_store \<Rightarrow> uuid \<Rightarrow> string \<Rightarrow> string \<Rightarrow> otp_challenge option" where
  "active_for_subject st org fp purpose =
     find (\<lambda>c. same_subject org fp purpose c \<and> oc_status c = Otp_ACTIVE) (os_challenges st)"

definition count_issued_since :: "otp_store \<Rightarrow> uuid \<Rightarrow> string \<Rightarrow> string \<Rightarrow> time \<Rightarrow> nat" where
  "count_issued_since st org fp purpose since =
     length (filter (\<lambda>c. same_subject org fp purpose c \<and> since \<le> oc_issued_at c) (os_challenges st))"

text \<open>The unique and check constraints of the table, at an insert and at an update.\<close>

definition otp_insert :: "otp_store \<Rightarrow> otp_challenge \<Rightarrow> otp_error + otp_store" where
  "otp_insert st c =
     (if list_ex (\<lambda>q. oc_id q = oc_id c \<or>
            (oc_org q = oc_org c \<and> oc_idempotency_key c \<noteq> None \<and> oc_idempotency_key q = oc_idempotency_key c) \<or>
            (same_subject (oc_org c) (oc_dest_fp c) (oc_purpose c) q \<and> oc_status q = Otp_ACTIVE))
          (os_challenges st) \<or> oc_max_attempts c < 1 \<or> 10 < oc_max_attempts c \<or> oc_expires_at c \<le> oc_issued_at c
      then Inl OtpIntegrityError
      else Inr (st\<lparr>os_challenges := os_challenges st @ [c]\<rparr>))"

definition otp_apply ::
  "otp_store \<Rightarrow> uuid \<Rightarrow> uuid \<Rightarrow> (otp_challenge \<Rightarrow> otp_challenge) \<Rightarrow> time \<Rightarrow>
     otp_error + (otp_store \<times> otp_challenge option)" where
  "otp_apply st org cid change now =
     (case otp_by_id st org cid of
        None \<Rightarrow> Inr (st, None)
      | Some c \<Rightarrow>
          let c' = (change c)\<lparr>oc_updated_at := now\<rparr> in
          if oc_attempts c' < 0 \<or> oc_max_attempts c' < oc_attempts c' then Inl OtpIntegrityError
          else Inr (st\<lparr>os_challenges := put_rows oc_id [c'] (os_challenges st)\<rparr>, Some c'))"

definition purge_terminal_before :: "otp_store \<Rightarrow> uuid \<Rightarrow> time \<Rightarrow> otp_store \<times> nat" where
  "purge_terminal_before st org cutoff =
     (let old = (\<lambda>c. oc_org c = org \<and> oc_status c \<noteq> Otp_ACTIVE \<and> oc_updated_at c < cutoff) in
      (st\<lparr>os_challenges := filter (\<lambda>c. \<not> old c) (os_challenges st)\<rparr>, length (filter old (os_challenges st))))"

section \<open>Verification\<close>

definition otp_emit :: "otp_store \<Rightarrow> string \<Rightarrow> otp_challenge \<Rightarrow> otp_extra \<Rightarrow> time \<Rightarrow> otp_store" where
  "otp_emit st etype c extra now =
     st\<lparr>os_events := os_events st @ [\<lparr>oe_type = etype, oe_org = oc_org c, oe_challenge = oc_id c,
        oe_purpose = oc_purpose c, oe_channel = channel_value (oc_channel c),
        oe_masked = mask_destination (channel_value (oc_channel c)) (oc_destination c),
        oe_extra = extra, oe_time = now\<rparr>]\<rparr>"

definition terminal_failure :: "otp_challenge \<Rightarrow> otp_error option" where
  "terminal_failure c =
     (case oc_status c of
        Otp_VERIFIED \<Rightarrow> Some OtpAlreadyUsedError
      | Otp_LOCKED \<Rightarrow> Some OtpLockedError
      | Otp_EXPIRED \<Rightarrow> Some OtpExpiredError
      | Otp_REVOKED \<Rightarrow> Some OtpInvalidError
      | Otp_ACTIVE \<Rightarrow> None)"

definition challenge_context :: "uuid \<Rightarrow> otp_challenge \<Rightarrow> string" where
  "challenge_context org c =
     canonical_context org (oc_id c) (oc_purpose c) (channel_value (oc_channel c)) (oc_destination c)
       (oc_hash_version c)"

text \<open>The store after the attempt and the error it ends in, if any.\<close>

definition apply_attempt ::
  "hmac \<Rightarrow> otp_store \<Rightarrow> uuid \<Rightarrow> otp_challenge \<Rightarrow> string \<Rightarrow> string \<Rightarrow> time \<Rightarrow>
     otp_error + (otp_store \<times> otp_error option)" where
  "apply_attempt hmac st org c code pepper now =
     (let attempts = oc_attempts c + 1 in
      if verify_code hmac pepper (challenge_context org c) code (oc_code_hash c) then
        bindE (otp_apply st org (oc_id c)
                 (\<lambda>r. r\<lparr>oc_status := Otp_VERIFIED, oc_verified_at := Some now, oc_attempts := attempts,
                        oc_last_attempt_at := Some now\<rparr>) now) (\<lambda>(st1, updated).
        case updated of
          None \<Rightarrow> Inl OtpAssertionError
        | Some u \<Rightarrow> Inr (otp_emit st1 ''otp.challenge.verified'' u (Attempts attempts) now, None))
      else
        let locked = (oc_max_attempts c \<le> attempts) in
        bindE (otp_apply st org (oc_id c)
                 (\<lambda>r. let r1 = r\<lparr>oc_attempts := attempts, oc_last_attempt_at := Some now\<rparr> in
                      if locked then r1\<lparr>oc_status := Otp_LOCKED, oc_locked_at := Some now\<rparr> else r1) now)
              (\<lambda>(st1, updated).
        case updated of
          None \<Rightarrow> Inl OtpAssertionError
        | Some u \<Rightarrow>
            let st2 = otp_emit st1 ''otp.challenge.failed_attempt'' u (Attempts_of attempts (oc_max_attempts c)) now
            in if locked
               then Inr (otp_emit st2 ''otp.challenge.locked'' u (Attempts attempts) now, Some OtpLockedError)
               else Inr (st2, Some OtpInvalidError)))"

text \<open>A raised error before the transaction commits leaves the store; a returned one is committed first.\<close>

definition otp_verify ::
  "hmac \<Rightarrow> otp_config \<Rightarrow> otp_store \<Rightarrow> uuid \<Rightarrow> uuid \<Rightarrow> string \<Rightarrow> time \<Rightarrow> otp_store \<times> (otp_error + time)" where
  "otp_verify hmac cfg st org cid code now =
     (if \<not> cf_enabled cfg then (st, Inl OtpConfigInvalidError)
      else case otp_pepper cfg of
        Inl e \<Rightarrow> (st, Inl e)
      | Inr pepper \<Rightarrow>
          (case otp_by_id st org cid of
             None \<Rightarrow> (st, Inl OtpChallengeNotFoundError)
           | Some c \<Rightarrow>
               (case terminal_failure c of
                  Some e \<Rightarrow> (st, Inl e)
                | None \<Rightarrow>
                    if oc_expires_at c \<le> now then
                      (case otp_apply st org cid (\<lambda>r. r\<lparr>oc_status := Otp_EXPIRED\<rparr>) now of
                         Inl e \<Rightarrow> (st, Inl e)
                       | Inr (st1, _) \<Rightarrow>
                           (otp_emit st1 ''otp.challenge.expired'' c No_extra now, Inl OtpExpiredError))
                    else
                      (case apply_attempt hmac st org c code pepper now of
                         Inl e \<Rightarrow> (st, Inl e)
                       | Inr (st1, Some e) \<Rightarrow> (st1, Inl e)
                       | Inr (st1, None) \<Rightarrow> (st1, Inr now)))))"

section \<open>Issuance\<close>

record otp_request =
  rq_purpose :: string
  rq_channel :: otp_channel
  rq_destination :: string
  rq_account :: uuid
  rq_default_country :: "string option"
  rq_idempotency_key :: "string option"
  rq_correlation_id :: "string option"

text \<open>What handing the rendered message to the messaging service came to.\<close>

datatype deliver_result =
    Not_sent string
  | Sent uuid
  | Send_timeout
  | Send_rate_limited string
  | Send_failed string

record otp_env =
  en_hmac :: hmac
  en_digest :: "string \<Rightarrow> string \<Rightarrow> string \<Rightarrow> uuid \<Rightarrow> string"
  en_nfkc :: "string \<Rightarrow> string"
  en_account :: "uuid \<Rightarrow> uuid \<Rightarrow> (string \<times> bool) option"
  en_deliver :: "otp_challenge \<Rightarrow> otp_message \<Rightarrow> deliver_result"

definition require_account :: "otp_env \<Rightarrow> uuid \<Rightarrow> otp_request \<Rightarrow> otp_error + unit" where
  "require_account env org req =
     (case en_account env org (rq_account req) of
        None \<Rightarrow> Inl OtpConfigInvalidError
      | Some (channel, active) \<Rightarrow>
          if channel \<noteq> channel_value (rq_channel req) then Inl OtpConfigInvalidError
          else if \<not> active then Inl OtpConfigInvalidError
          else Inr ())"

definition normalize_destination :: "otp_env \<Rightarrow> otp_request \<Rightarrow> otp_error + string" where
  "normalize_destination env req =
     (case normalize_identity_value (en_nfkc env) (channel_identity (rq_channel req)) (rq_destination req)
             (rq_default_country req) of
        Inl _ \<Rightarrow> Inl OtpConfigInvalidError
      | Inr d \<Rightarrow> Inr d)"

definition load_idempotency_winner ::
  "otp_store \<Rightarrow> uuid \<Rightarrow> string \<Rightarrow> string \<Rightarrow> otp_error + otp_challenge option" where
  "load_idempotency_winner st org key request_fp =
     (case otp_by_key st org key of
        None \<Rightarrow> Inr None
      | Some c \<Rightarrow> if oc_request_fp c \<noteq> request_fp then Inl OtpIdempotencyConflictError else Inr (Some c))"

text \<open>One lookup per state of \<open>late\<close>, at most eight.\<close>

fun await_winner :: "otp_store list \<Rightarrow> uuid \<Rightarrow> string \<Rightarrow> string \<Rightarrow> otp_error + otp_challenge option" where
  "await_winner [] org key request_fp = Inr None"
| "await_winner (st # late) org key request_fp =
     bindE (load_idempotency_winner st org key request_fp) (\<lambda>w.
     case w of Some c \<Rightarrow> Inr (Some c) | None \<Rightarrow> await_winner late org key request_fp)"

text \<open>
  The states the statements of one issuance see: the lookup of a replay, the three reads of
  the inserting transaction, and the lookups after a lost race.
\<close>

record otp_reads =
  rd_replay :: otp_store
  rd_key :: otp_store
  rd_count :: otp_store
  rd_active :: otp_store
  rd_late :: "otp_store list"

definition insert_issued ::
  "otp_reads \<Rightarrow> otp_store \<Rightarrow> otp_store \<Rightarrow> otp_challenge \<Rightarrow> time \<Rightarrow> otp_store \<times> (otp_error + otp_challenge \<times> bool)" where
  "insert_issued rd original st create now =
     (case otp_insert st create of
        Inr st1 \<Rightarrow> (otp_emit st1 ''otp.challenge.issued'' create (Expires_at (oc_expires_at create)) now, Inr (create, True))
      | Inl _ \<Rightarrow>
          (original,
           case oc_idempotency_key create of
             None \<Rightarrow> Inl OtpResendTooSoonError
           | Some key \<Rightarrow>
               bindE (await_winner (take 8 (rd_late rd)) (oc_org create) key (oc_request_fp create)) (\<lambda>w.
               case w of Some c \<Rightarrow> Inr (c, False) | None \<Rightarrow> Inl OtpResendTooSoonError)))"

definition persist_issued ::
  "otp_config \<Rightarrow> otp_reads \<Rightarrow> otp_store \<Rightarrow> otp_challenge \<Rightarrow> time \<Rightarrow> otp_store \<times> (otp_error + otp_challenge \<times> bool)" where
  "persist_issued cfg rd st create now =
     (let org = oc_org create; fp = oc_dest_fp create; purpose = oc_purpose create in
      case (case oc_idempotency_key create of None \<Rightarrow> None | Some key \<Rightarrow> otp_by_key (rd_key rd) org key) of
        Some prior \<Rightarrow>
          if oc_request_fp prior \<noteq> oc_request_fp create then (st, Inl OtpIdempotencyConflictError)
          else (st, Inr (prior, False))
      | None \<Rightarrow>
          if cf_max_issues cfg \<le> count_issued_since (rd_count rd) org fp purpose (now - cf_window cfg)
          then (otp_emit st ''otp.challenge.rate_limited'' create (Reason ''issue_window_exceeded'') now,
                Inl OtpRateLimitedError)
          else
            (case active_for_subject (rd_active rd) org fp purpose of
               None \<Rightarrow> insert_issued rd st st create now
             | Some active \<Rightarrow>
                 if oc_idempotency_key create \<noteq> None \<and> oc_idempotency_key active = oc_idempotency_key create
                 then (st, Inr (active, False))
                 else if now < oc_resend_after active then (st, Inl OtpResendTooSoonError)
                 else
                   (case otp_apply st org (oc_id active)
                           (\<lambda>r. r\<lparr>oc_status := Otp_REVOKED, oc_revoked_at := Some now\<rparr>) now of
                      Inl e \<Rightarrow> (st, Inl e)
                    | Inr (_, None) \<Rightarrow> (st, Inl OtpAssertionError)
                    | Inr (st1, Some revoked) \<Rightarrow>
                        insert_issued rd st
                          (otp_emit st1 ''otp.challenge.revoked'' revoked (Reason ''superseded_by_new_issuance'') now)
                          create now)))"

text \<open>\<^verbatim>\<open>round\<close> rounds halves to even.\<close>

definition ttl_minutes :: "int \<Rightarrow> nat" where
  "ttl_minutes ttl = (let q = ttl div 60; r = ttl mod 60;
     m = (if r < 30 \<or> r = 30 \<and> even q then q else q + 1) in nat (max 1 m))"

definition render_message :: "otp_channel \<Rightarrow> string \<Rightarrow> int \<Rightarrow> (string \<times> string option) option" where
  "render_message channel code ttl =
     (if code = [] \<or> \<not> list_all digit_char code then None
      else
        let minutes = ttl_minutes ttl;
            body = ''Your Nexus verification code is '' @ code @ ''. It expires in '' @ decimal minutes @ '' '' @
              (if minutes = 1 then ''minute'' else ''minutes'') @ ''. Do not share it with anyone.''
        in Some (body, if channel = Ch_EMAIL then Some ''Nexus verification code'' else None))"

datatype delivery_status = Delivery_SENT | Delivery_SKIPPED | Delivery_UNCONFIRMED

definition unwind_failed_delivery :: "otp_store \<Rightarrow> uuid \<Rightarrow> otp_challenge \<Rightarrow> string \<Rightarrow> time \<Rightarrow> otp_store" where
  "unwind_failed_delivery st org c code now =
     (let st1 = (case otp_by_id st org (oc_id c) of
            Some current \<Rightarrow>
              if oc_status current = Otp_ACTIVE then
                (case otp_apply st org (oc_id c)
                        (\<lambda>r. r\<lparr>oc_status := Otp_REVOKED, oc_revoked_at := Some now\<rparr>) now of
                   Inr (st', _) \<Rightarrow> st' | Inl _ \<Rightarrow> st)
              else st
          | None \<Rightarrow> st)
      in otp_emit st1 ''otp.challenge.delivery_failed'' c (Error_code code) now)"

text \<open>
  \<^verbatim>\<open>_deliver_or_unwind\<close>. \<open>meanwhile\<close> is what other requests commit while the message is sent,
  and \<open>now\<close> the time afterwards.
\<close>

definition deliver_or_unwind ::
  "otp_env \<Rightarrow> (otp_store \<Rightarrow> otp_store) \<Rightarrow> otp_store \<Rightarrow> uuid \<Rightarrow> otp_challenge \<Rightarrow> string \<Rightarrow> int \<Rightarrow> time \<Rightarrow>
     otp_store \<times> (otp_error + delivery_status)" where
  "deliver_or_unwind env meanwhile st org c code ttl now =
     (if oc_delivery_message_id c \<noteq> None then (st, Inr Delivery_SKIPPED)
      else case render_message (oc_channel c) code ttl of
        None \<Rightarrow> (st, Inl OtpValueError)
      | Some (text, subject) \<Rightarrow>
          let m = \<lparr>om_challenge = oc_id c, om_destination = oc_destination c, om_text = text, om_subject = subject\<rparr>;
              sent = st\<lparr>os_sent := os_sent st @ [m]\<rparr>;
              failed = (\<lambda>s code. (unwind_failed_delivery s org c code now, Inl (OtpDeliveryFailedError code)))
          in case en_deliver env c m of
               Not_sent code \<Rightarrow> failed (meanwhile st) code
             | Send_failed code \<Rightarrow> failed (meanwhile sent) code
             | Send_rate_limited code \<Rightarrow> failed (meanwhile sent) ''NXS_OTP_DELIVERY_FAILED''
             | Send_timeout \<Rightarrow> (meanwhile sent, Inr Delivery_UNCONFIRMED)
             | Sent mid \<Rightarrow>
                 (case otp_apply (meanwhile sent) org (oc_id c) (\<lambda>r. r\<lparr>oc_delivery_message_id := Some mid\<rparr>) now of
                    Inl e \<Rightarrow> (meanwhile sent, Inl e)
                  | Inr (st', _) \<Rightarrow> (st', Inr Delivery_SENT)))"

record issue_result =
  ir_challenge_id :: uuid
  ir_status :: otp_status
  ir_purpose :: string
  ir_channel :: otp_channel
  ir_masked_destination :: string
  ir_expires_at :: time
  ir_resend_after :: time
  ir_max_attempts :: int
  ir_delivery :: delivery_status
  ir_replayed :: bool

definition otp_result :: "otp_challenge \<Rightarrow> delivery_status \<Rightarrow> bool \<Rightarrow> issue_result" where
  "otp_result c delivery replayed =
     \<lparr>ir_challenge_id = oc_id c, ir_status = oc_status c, ir_purpose = oc_purpose c, ir_channel = oc_channel c,
      ir_masked_destination = mask_destination (channel_value (oc_channel c)) (oc_destination c),
      ir_expires_at = oc_expires_at c, ir_resend_after = oc_resend_after c,
      ir_max_attempts = oc_max_attempts c, ir_delivery = delivery, ir_replayed = replayed\<rparr>"

definition new_challenge ::
  "otp_env \<Rightarrow> otp_config \<Rightarrow> uuid \<Rightarrow> otp_request \<Rightarrow> string \<Rightarrow> string \<Rightarrow> uuid \<Rightarrow> string \<Rightarrow> time \<Rightarrow> otp_challenge" where
  "new_challenge env cfg org req destination pepper cid code now =
     (let channel = channel_value (rq_channel req) in
      \<lparr>oc_id = cid, oc_org = org, oc_destination = destination,
       oc_dest_fp = destination_fingerprint (en_hmac env) pepper channel destination,
       oc_purpose = rq_purpose req, oc_channel = rq_channel req, oc_account = rq_account req,
       oc_code_hash = hash_code (en_hmac env) pepper
         (canonical_context org cid (rq_purpose req) channel destination 1) code,
       oc_hash_version = 1, oc_status = Otp_ACTIVE, oc_attempts = 0, oc_max_attempts = cf_max_attempts cfg,
       oc_request_fp = en_digest env (rq_purpose req) channel destination (rq_account req),
       oc_idempotency_key = rq_idempotency_key req, oc_delivery_message_id = None,
       oc_correlation_id = rq_correlation_id req, oc_issued_at = now,
       oc_expires_at = now + cf_ttl cfg, oc_resend_after = now + cf_cooldown cfg,
       oc_verified_at = None, oc_revoked_at = None, oc_locked_at = None, oc_last_attempt_at = None,
       oc_created_at = now, oc_updated_at = now\<rparr>)"

text \<open>
  \<^verbatim>\<open>OtpService.issue\<close>: \<open>cid\<close> is the fresh challenge identifier, \<open>r\<close> the random draw, \<open>st\<close> the state
  the insert finds, \<open>now\<close> the time of the request and \<open>now'\<close> the time after delivery.
\<close>

definition otp_issue ::
  "otp_env \<Rightarrow> otp_config \<Rightarrow> otp_reads \<Rightarrow> (otp_store \<Rightarrow> otp_store) \<Rightarrow> otp_store \<Rightarrow> uuid \<Rightarrow> otp_request \<Rightarrow> uuid \<Rightarrow>
     nat \<Rightarrow> time \<Rightarrow> time \<Rightarrow> otp_store \<times> (otp_error + issue_result)" where
  "otp_issue env cfg rd meanwhile st org req cid r now now' =
     (if \<not> cf_enabled cfg then (st, Inl OtpConfigInvalidError)
      else case bindE (resolve_purpose (rq_purpose req) (rq_channel req)) (\<lambda>_.
                bindE (require_account env org req) (\<lambda>_.
                bindE (normalize_destination env req) (\<lambda>destination.
                bindE (otp_pepper cfg) (\<lambda>pepper.
                bindE (case rq_idempotency_key req of
                         None \<Rightarrow> Inr None
                       | Some key \<Rightarrow> load_idempotency_winner (rd_replay rd) org key
                           (en_digest env (rq_purpose req) (channel_value (rq_channel req)) destination
                              (rq_account req)))
                  (\<lambda>replay. Inr (destination, pepper, replay)))))) of
        Inl e \<Rightarrow> (st, Inl e)
      | Inr (_, _, Some prior) \<Rightarrow> (st, Inr (otp_result prior Delivery_SKIPPED True))
      | Inr (destination, pepper, None) \<Rightarrow>
          (case generate_code (cf_code_length cfg) r of
             None \<Rightarrow> (st, Inl OtpValueError)
           | Some code \<Rightarrow>
               (case persist_issued cfg rd st (new_challenge env cfg org req destination pepper cid code now) now of
                  (st1, Inl e) \<Rightarrow> (st1, Inl e)
                | (st1, Inr (c, False)) \<Rightarrow> (st1, Inr (otp_result c Delivery_SKIPPED True))
                | (st1, Inr (c, True)) \<Rightarrow>
                    (case deliver_or_unwind env meanwhile st1 org c code (cf_ttl cfg) now' of
                       (st2, Inl e) \<Rightarrow> (st2, Inl e)
                     | (st2, Inr d) \<Rightarrow> (st2, Inr (otp_result c d False))))))"

definition otp_resend ::
  "otp_env \<Rightarrow> otp_config \<Rightarrow> otp_store \<Rightarrow> otp_reads \<Rightarrow> (otp_store \<Rightarrow> otp_store) \<Rightarrow> otp_store \<Rightarrow> uuid \<Rightarrow> uuid \<Rightarrow>
     string option \<Rightarrow> uuid \<Rightarrow> nat \<Rightarrow> time \<Rightarrow> time \<Rightarrow> otp_store \<times> (otp_error + issue_result)" where
  "otp_resend env cfg snap rd meanwhile st org cid corr new_cid r now now' =
     (case otp_by_id snap org cid of
        None \<Rightarrow> (st, Inl OtpChallengeNotFoundError)
      | Some c \<Rightarrow>
          otp_issue env cfg rd meanwhile st org
            \<lparr>rq_purpose = oc_purpose c, rq_channel = oc_channel c, rq_destination = oc_destination c,
             rq_account = oc_account c, rq_default_country = None, rq_idempotency_key = None,
             rq_correlation_id = (if corr = None \<or> corr = Some [] then oc_correlation_id c else corr)\<rparr>
            new_cid r now now')"

record otp_view =
  ov_org :: uuid
  ov_challenge_id :: uuid
  ov_purpose :: string
  ov_channel :: otp_channel
  ov_status :: otp_status
  ov_masked_destination :: string
  ov_attempts :: int
  ov_max_attempts :: int
  ov_issued_at :: time
  ov_expires_at :: time
  ov_resend_after :: time

definition public_view :: "otp_challenge \<Rightarrow> otp_view" where
  "public_view c =
     \<lparr>ov_org = oc_org c, ov_challenge_id = oc_id c, ov_purpose = oc_purpose c, ov_channel = oc_channel c, ov_status = oc_status c,
      ov_masked_destination = mask_destination (channel_value (oc_channel c)) (oc_destination c),
      ov_attempts = oc_attempts c, ov_max_attempts = oc_max_attempts c, ov_issued_at = oc_issued_at c,
      ov_expires_at = oc_expires_at c, ov_resend_after = oc_resend_after c\<rparr>"

definition get_challenge :: "otp_store \<Rightarrow> uuid \<Rightarrow> uuid \<Rightarrow> otp_error + otp_view" where
  "get_challenge st org cid =
     (case otp_by_id st org cid of None \<Rightarrow> Inl OtpChallengeNotFoundError | Some c \<Rightarrow> Inr (public_view c))"

definition purge_expired :: "otp_store \<Rightarrow> uuid \<Rightarrow> int \<Rightarrow> time \<Rightarrow> otp_store \<times> nat" where
  "purge_expired st org older_than now = purge_terminal_before st org (now - max older_than 3600)"

end
