(* ===== verification/Otp_Properties.thy ===== *)
theory Otp_Properties
  imports Otp
begin

text \<open>
  The life of the challenge table: every transaction of the OTP service as a step, the
  invariant the steps keep, and what follows for codes, attempts and throttling.
\<close>

section \<open>Runs\<close>

text \<open>
  One committed transaction. The label is the challenge it issued, if any. A \<open>strict\<close> run is
  one whose throttle count is not stale when the insert commits and whose purges keep every
  row the throttle window may count. Challenge identifiers are never reused, and the active
  row an issuance reads \<^verbatim>\<open>FOR UPDATE\<close> is still the same when the transaction writes.
\<close>

definition locked_read :: "otp_reads \<Rightarrow> otp_store \<Rightarrow> otp_challenge \<Rightarrow> bool" where
  "locked_read rd st create \<longleftrightarrow>
     (case active_for_subject (rd_active rd) (oc_org create) (oc_dest_fp create) (oc_purpose create) of
        None \<Rightarrow> True | Some a \<Rightarrow> otp_by_id st (oc_org create) (oc_id a) = Some a)"

inductive otp_step ::
  "otp_env \<Rightarrow> otp_config \<Rightarrow> bool \<Rightarrow> otp_challenge list \<Rightarrow> time \<times> otp_store \<Rightarrow> otp_challenge option \<Rightarrow>
     time \<times> otp_store \<Rightarrow> bool"
  for env cfg strict hist where
  ot_persist: "t \<le> now \<Longrightarrow> otp_pepper cfg = Inr pepper \<Longrightarrow> cid \<notin> oc_id ` set hist \<Longrightarrow>
     create = new_challenge env cfg org req destination pepper cid code now \<Longrightarrow>
     persist_issued cfg rd st create now = (st', res) \<Longrightarrow> locked_read rd st create \<Longrightarrow> (strict \<longrightarrow> rd_count rd = st) \<Longrightarrow>
     otp_step env cfg strict hist (t, st)
       (case res of Inr (c, True) \<Rightarrow> Some c | _ \<Rightarrow> None) (now, st')"
| ot_send: "otp_step env cfg strict hist (t, st) None (t, st\<lparr>os_sent := os_sent st @ [m]\<rparr>)"
| ot_delivered: "t \<le> now \<Longrightarrow>
     otp_apply st org cid (\<lambda>r. r\<lparr>oc_delivery_message_id := Some mid\<rparr>) now = Inr (st', r) \<Longrightarrow>
     otp_step env cfg strict hist (t, st) None (now, st')"
| ot_unwind: "t \<le> now \<Longrightarrow> otp_step env cfg strict hist (t, st) None (now, unwind_failed_delivery st org c code now)"
| ot_verify: "t \<le> now \<Longrightarrow> otp_verify (en_hmac env) cfg st org cid code now = (st', res) \<Longrightarrow>
     otp_step env cfg strict hist (t, st) None (now, st')"
| ot_purge: "t \<le> now \<Longrightarrow> (strict \<longrightarrow> cf_window cfg \<le> max older 3600) \<Longrightarrow>
     purge_expired st org older now = (st', n) \<Longrightarrow>
     otp_step env cfg strict hist (t, st) None (now, st')"

inductive otp_run :: "otp_env \<Rightarrow> otp_config \<Rightarrow> bool \<Rightarrow> otp_challenge list \<Rightarrow> time \<times> otp_store \<Rightarrow> bool"
  for env cfg strict where
  or_init: "otp_run env cfg strict [] (t, empty_otp_store)"
| or_step: "otp_run env cfg strict hist s \<Longrightarrow> otp_step env cfg strict hist s l s' \<Longrightarrow>
     otp_run env cfg strict (hist @ (case l of None \<Rightarrow> [] | Some c \<Rightarrow> [c])) s'"

section \<open>The invariant\<close>

definition ev_count :: "otp_store \<Rightarrow> string \<Rightarrow> uuid \<Rightarrow> nat" where
  "ev_count st etype cid = length (filter (\<lambda>e. oe_type e = etype \<and> oe_challenge e = cid) (os_events st))"

abbreviation failed_count :: "otp_store \<Rightarrow> uuid \<Rightarrow> nat" where
  "failed_count st \<equiv> ev_count st ''otp.challenge.failed_attempt''"

abbreviation verified_count :: "otp_store \<Rightarrow> uuid \<Rightarrow> nat" where
  "verified_count st \<equiv> ev_count st ''otp.challenge.verified''"

abbreviation locked_count :: "otp_store \<Rightarrow> uuid \<Rightarrow> nat" where
  "locked_count st \<equiv> ev_count st ''otp.challenge.locked''"

text \<open>What the audit trail says of one challenge, whether its row still exists or not.\<close>

definition trail_ok :: "int \<Rightarrow> otp_store \<Rightarrow> uuid \<Rightarrow> bool" where
  "trail_ok limit st cid \<longleftrightarrow> verified_count st cid \<le> 1 \<and> int (failed_count st cid) \<le> limit \<and>
     (0 < locked_count st cid \<longrightarrow> verified_count st cid = 0 \<and> int (failed_count st cid) = limit)"

definition chal_ok :: "int \<Rightarrow> otp_store \<Rightarrow> otp_challenge \<Rightarrow> bool" where
  "chal_ok limit st c \<longleftrightarrow> oc_max_attempts c = limit \<and>
     int (failed_count st (oc_id c)) + (if oc_status c = Otp_VERIFIED then 1 else 0) = oc_attempts c \<and>
     oc_attempts c \<le> limit \<and> (oc_status c = Otp_ACTIVE \<longrightarrow> oc_attempts c < limit) \<and>
     verified_count st (oc_id c) = (if oc_status c = Otp_VERIFIED then 1 else 0) \<and>
     (0 < locked_count st (oc_id c) \<longleftrightarrow> oc_status c = Otp_LOCKED)"

definition subject_of :: "otp_challenge \<Rightarrow> uuid \<times> string \<times> string" where
  "subject_of c = (oc_org c, oc_dest_fp c, oc_purpose c)"

definition otp_inv :: "otp_config \<Rightarrow> otp_challenge list \<Rightarrow> otp_store \<Rightarrow> bool" where
  "otp_inv cfg hist st \<longleftrightarrow>
     distinct (map oc_id (os_challenges st)) \<and>
     (\<forall>c \<in> set (os_challenges st). chal_ok (cf_max_attempts cfg) st c \<and> oc_id c \<in> oc_id ` set hist) \<and>
     (\<forall>a \<in> set (os_challenges st). \<forall>b \<in> set (os_challenges st).
        oc_status a = Otp_ACTIVE \<longrightarrow> oc_status b = Otp_ACTIVE \<longrightarrow> subject_of a = subject_of b \<longrightarrow> a = b) \<and>
     (\<forall>cid. trail_ok (cf_max_attempts cfg) st cid) \<and>
     (\<forall>cid. cid \<notin> oc_id ` set hist \<longrightarrow>
        failed_count st cid = 0 \<and> verified_count st cid = 0 \<and> locked_count st cid = 0)"

lemma ev_count_emit [simp]:
  "ev_count (otp_emit st etype c x now) etype' cid =
     ev_count st etype' cid + (if etype = etype' \<and> oc_id c = cid then 1 else 0)"
  by (simp add: ev_count_def otp_emit_def)

lemma emit_challenges [simp]: "os_challenges (otp_emit st etype c x now) = os_challenges st"
  by (simp add: otp_emit_def)

lemma ev_count_rows [simp]: "ev_count (st\<lparr>os_challenges := rows\<rparr>) = ev_count st"
  "ev_count (st\<lparr>os_sent := ms\<rparr>) = ev_count st"
  by (simp_all add: ev_count_def fun_eq_iff)

lemma otp_by_id_D: "otp_by_id st org cid = Some c \<Longrightarrow> c \<in> set (os_challenges st) \<and> oc_org c = org \<and> oc_id c = cid"
  by (auto simp: otp_by_id_def dest: find_Some_D)

text \<open>The states of two stores that agree on the counted events and the rows agree on the invariant.\<close>

lemma otp_inv_cong:
  assumes "os_challenges st' = os_challenges st"
    and "\<And>ty. ty \<in> {''otp.challenge.failed_attempt'', ''otp.challenge.verified'', ''otp.challenge.locked''} \<Longrightarrow>
      ev_count st' ty = ev_count st ty"
  shows "otp_inv cfg hist st' \<longleftrightarrow> otp_inv cfg hist st"
  using assms by (simp add: otp_inv_def trail_ok_def chal_ok_def)

text \<open>Replacing one row by a later version of itself, together with its events.\<close>

lemma otp_inv_change:
  assumes inv: "otp_inv cfg hist st" and c: "c \<in> set (os_challenges st)"
    and rows: "os_challenges st' = put_rows oc_id [c'] (os_challenges st)"
    and id: "oc_id c' = oc_id c" "subject_of c' = subject_of c"
    and act: "oc_status c' = Otp_ACTIVE \<longrightarrow> oc_status c = Otp_ACTIVE"
    and other: "\<And>ty cid. cid \<noteq> oc_id c \<Longrightarrow> ev_count st' ty cid = ev_count st ty cid"
    and ok: "chal_ok (cf_max_attempts cfg) st' c'" and trail: "trail_ok (cf_max_attempts cfg) st' (oc_id c)"
  shows "otp_inv cfg hist st'"
proof -
  have mem: "x \<in> set (os_challenges st') \<longleftrightarrow> x = c' \<or> x \<in> set (os_challenges st) \<and> oc_id x \<noteq> oc_id c" for x
    using in_put_rows_one [of oc_id c' c "os_challenges st"] c id rows by simp
  have ids: "map oc_id (os_challenges st') = map oc_id (os_challenges st)"
    unfolding rows using inv c id by (intro map_put_rows) (auto simp: otp_inv_def)
  have rowsok: "chal_ok (cf_max_attempts cfg) st' x \<and> oc_id x \<in> oc_id ` set hist" if "x \<in> set (os_challenges st')" for x
  proof (cases "x = c'")
    case True
    then show ?thesis using ok inv c id by (auto simp: otp_inv_def)
  next
    case False
    then have x: "x \<in> set (os_challenges st)" "oc_id x \<noteq> oc_id c" using that mem by auto
    then show ?thesis using inv other by (simp add: otp_inv_def chal_ok_def)
  qed
  have one: "a = b" if "a \<in> set (os_challenges st')" "b \<in> set (os_challenges st')"
    "oc_status a = Otp_ACTIVE" "oc_status b = Otp_ACTIVE" "subject_of a = subject_of b" for a b
  proof -
    note ab = that
    have origin: "\<exists>y. y \<in> set (os_challenges st) \<and> oc_status y = Otp_ACTIVE \<and> subject_of y = subject_of x \<and>
        (x = c' \<and> y = c \<or> x = y \<and> oc_id x \<noteq> oc_id c)"
      if "x \<in> set (os_challenges st')" "oc_status x = Otp_ACTIVE" for x
      using that mem [of x] act id(2) c by metis
    obtain a0 b0 where "a0 \<in> set (os_challenges st)" "oc_status a0 = Otp_ACTIVE" "subject_of a0 = subject_of a"
        "a = c' \<and> a0 = c \<or> a = a0 \<and> oc_id a \<noteq> oc_id c"
      and "b0 \<in> set (os_challenges st)" "oc_status b0 = Otp_ACTIVE" "subject_of b0 = subject_of b"
        "b = c' \<and> b0 = c \<or> b = b0 \<and> oc_id b \<noteq> oc_id c"
      using origin [OF ab(1,3)] origin [OF ab(2,4)] by blast
    moreover from this have "a0 = b0" using inv ab(5) unfolding otp_inv_def by metis
    ultimately show ?thesis by blast
  qed
  have "trail_ok (cf_max_attempts cfg) st' cid" for cid
    using trail inv other by (cases "cid = oc_id c") (simp_all add: otp_inv_def trail_ok_def)
  moreover have "failed_count st' cid = 0 \<and> verified_count st' cid = 0 \<and> locked_count st' cid = 0"
    if "cid \<notin> oc_id ` set hist" for cid
  proof -
    have "cid \<noteq> oc_id c" using that inv c by (auto simp: otp_inv_def)
    then show ?thesis using that inv other by (simp add: otp_inv_def)
  qed
  ultimately show ?thesis using inv ids rowsok one by (simp add: otp_inv_def)
qed

lemma otp_inv_insert:
  assumes inv: "otp_inv cfg hist st" and ins: "otp_insert st c = Inr st'" and fresh: "oc_id c \<notin> oc_id ` set hist"
    and c: "oc_attempts c = 0" "oc_max_attempts c = cf_max_attempts cfg" "oc_status c = Otp_ACTIVE"
  shows "otp_inv cfg (hist @ [c]) st'"
proof -
  have st': "st' = st\<lparr>os_challenges := os_challenges st @ [c]\<rparr>"
    and new: "\<And>q. q \<in> set (os_challenges st) \<Longrightarrow> oc_id q \<noteq> oc_id c"
    and sub: "\<And>q. q \<in> set (os_challenges st) \<Longrightarrow> oc_status q = Otp_ACTIVE \<Longrightarrow> subject_of q \<noteq> subject_of c"
    and lim: "1 \<le> oc_max_attempts c"
    using ins by (auto simp: otp_insert_def list_ex_iff same_subject_def subject_of_def split: if_splits)
  have "chal_ok (cf_max_attempts cfg) st' c"
    using inv fresh c lim by (simp add: chal_ok_def st' otp_inv_def)
  moreover have "chal_ok (cf_max_attempts cfg) st' q" if "q \<in> set (os_challenges st)" for q
    using inv that by (simp add: otp_inv_def chal_ok_def st')
  moreover have "trail_ok (cf_max_attempts cfg) st' cid" for cid
    using inv by (simp add: otp_inv_def trail_ok_def st')
  ultimately show ?thesis using inv new sub sub [symmetric] by (auto simp: otp_inv_def st')
qed

lemma otp_inv_filter:
  assumes "otp_inv cfg hist st"
  shows "otp_inv cfg hist (st\<lparr>os_challenges := filter p (os_challenges st)\<rparr>)"
  using assms by (auto simp: otp_inv_def chal_ok_def trail_ok_def distinct_map_filter)

lemma otp_apply_Some:
  assumes "otp_apply st org cid f now = Inr (st', Some c')"
  obtains c where "otp_by_id st org cid = Some c" "c' = (f c)\<lparr>oc_updated_at := now\<rparr>"
    "st' = st\<lparr>os_challenges := put_rows oc_id [c'] (os_challenges st)\<rparr>"
  using assms by (auto simp: otp_apply_def Let_def split: option.splits if_splits)

lemma otp_apply_None: "otp_apply st org cid f now = Inr (st', None) \<Longrightarrow> st' = st"
  by (auto simp: otp_apply_def Let_def split: option.splits if_splits)

text \<open>A status change outside verification, from ACTIVE to REVOKED or EXPIRED, or none.\<close>

lemma otp_inv_status:
  assumes inv: "otp_inv cfg hist st" and "otp_apply st org cid f now = Inr (st', Some c')"
    and keep: "\<And>r. oc_id (f r) = oc_id r \<and> subject_of (f r) = subject_of r \<and> oc_attempts (f r) = oc_attempts r \<and>
      oc_max_attempts (f r) = oc_max_attempts r"
    and status: "\<And>r. otp_by_id st org cid = Some r \<Longrightarrow>
      oc_status (f r) = oc_status r \<or> oc_status r = Otp_ACTIVE \<and> oc_status (f r) \<in> {Otp_REVOKED, Otp_EXPIRED}"
  shows "otp_inv cfg hist st'"
proof -
  obtain c where c: "otp_by_id st org cid = Some c" "c' = (f c)\<lparr>oc_updated_at := now\<rparr>"
    "st' = st\<lparr>os_challenges := put_rows oc_id [c'] (os_challenges st)\<rparr>"
    using assms(2) by (rule otp_apply_Some)
  have mem: "c \<in> set (os_challenges st)" using otp_by_id_D [OF c(1)] by simp
  then have ok: "chal_ok (cf_max_attempts cfg) st c" "trail_ok (cf_max_attempts cfg) st (oc_id c)"
    using inv by (simp_all add: otp_inv_def)
  show ?thesis
  proof (rule otp_inv_change [OF inv mem])
    show "os_challenges st' = put_rows oc_id [c'] (os_challenges st)" by (simp add: c(3))
    show "oc_id c' = oc_id c" "subject_of c' = subject_of c" using keep [of c] by (simp_all add: c(2) subject_of_def)
    show "oc_status c' = Otp_ACTIVE \<longrightarrow> oc_status c = Otp_ACTIVE" using status [OF c(1)] by (auto simp: c(2))
    show "chal_ok (cf_max_attempts cfg) st' c'"
      using ok(1) keep [of c] status [OF c(1)] by (auto simp: chal_ok_def c)
    show "trail_ok (cf_max_attempts cfg) st' (oc_id c)" using ok(2) by (simp add: trail_ok_def c(3))
  qed (simp add: c(3))
qed

lemma otp_emit_inv [simp]:
  assumes "ty \<notin> {''otp.challenge.failed_attempt'', ''otp.challenge.verified'', ''otp.challenge.locked''}"
  shows "otp_inv cfg hist (otp_emit st ty c x now) \<longleftrightarrow> otp_inv cfg hist st"
  using assms by (intro otp_inv_cong) auto

lemma attempt_inv:
  assumes inv: "otp_inv cfg hist st" and c: "otp_by_id st org cid = Some c" and act: "oc_status c = Otp_ACTIVE"
    and at: "apply_attempt hmac st org c code pepper now = Inr (st', e)"
  shows "otp_inv cfg hist st'"
proof -
  have D: "c \<in> set (os_challenges st)" "oc_org c = org" "oc_id c = cid" using otp_by_id_D [OF c] by auto
  then have ok: "chal_ok (cf_max_attempts cfg) st c" "trail_ok (cf_max_attempts cfg) st (oc_id c)"
    using inv by (simp_all add: otp_inv_def)
  show ?thesis
  proof (cases "verify_code hmac pepper (challenge_context org c) code (oc_code_hash c)")
    case True
    let ?u = "c\<lparr>oc_status := Otp_VERIFIED, oc_verified_at := Some now, oc_attempts := oc_attempts c + 1,
      oc_last_attempt_at := Some now, oc_updated_at := now\<rparr>"
    have st': "st' = otp_emit (st\<lparr>os_challenges := put_rows oc_id [?u] (os_challenges st)\<rparr>)
        ''otp.challenge.verified'' ?u (Attempts (oc_attempts c + 1)) now"
      using at True c D by (auto simp: apply_attempt_def otp_apply_def Let_def split: if_splits)
    show ?thesis
    proof (rule otp_inv_change [OF inv D(1), of _ ?u])
      show "chal_ok (cf_max_attempts cfg) st' ?u" using ok(1) act by (auto simp: chal_ok_def st')
      show "trail_ok (cf_max_attempts cfg) st' (oc_id c)" using ok act by (auto simp: trail_ok_def chal_ok_def st')
    qed (simp_all add: st' subject_of_def)
  next
    case False
    show ?thesis
    proof (cases "oc_max_attempts c \<le> oc_attempts c + 1")
      case True
      let ?u = "c\<lparr>oc_attempts := oc_attempts c + 1, oc_last_attempt_at := Some now,
        oc_status := Otp_LOCKED, oc_locked_at := Some now, oc_updated_at := now\<rparr>"
      have st': "st' = otp_emit (otp_emit (st\<lparr>os_challenges := put_rows oc_id [?u] (os_challenges st)\<rparr>)
          ''otp.challenge.failed_attempt'' ?u (Attempts_of (oc_attempts c + 1) (oc_max_attempts c)) now)
          ''otp.challenge.locked'' ?u (Attempts (oc_attempts c + 1)) now"
        using at True False c D by (auto simp: apply_attempt_def otp_apply_def Let_def split: if_splits)
      show ?thesis
      proof (rule otp_inv_change [OF inv D(1), of _ ?u])
        show "chal_ok (cf_max_attempts cfg) st' ?u" using ok(1) act by (auto simp: chal_ok_def st')
        show "trail_ok (cf_max_attempts cfg) st' (oc_id c)" using ok act True by (auto simp: trail_ok_def chal_ok_def st')
      qed (simp_all add: st' subject_of_def)
    next
      case go: False
      let ?u = "c\<lparr>oc_attempts := oc_attempts c + 1, oc_last_attempt_at := Some now, oc_updated_at := now\<rparr>"
      have st': "st' = otp_emit (st\<lparr>os_challenges := put_rows oc_id [?u] (os_challenges st)\<rparr>)
          ''otp.challenge.failed_attempt'' ?u (Attempts_of (oc_attempts c + 1) (oc_max_attempts c)) now"
        using at go False c D by (auto simp: apply_attempt_def otp_apply_def Let_def split: if_splits)
      show ?thesis
      proof (rule otp_inv_change [OF inv D(1), of _ ?u])
        show "chal_ok (cf_max_attempts cfg) st' ?u" using ok(1) act go by (auto simp: chal_ok_def st')
        show "trail_ok (cf_max_attempts cfg) st' (oc_id c)" using ok act go by (auto simp: trail_ok_def chal_ok_def st')
      qed (simp_all add: st' subject_of_def)
    qed
  qed
qed

lemma verify_inv:
  assumes inv: "otp_inv cfg hist st" and v: "otp_verify hmac cfg st org cid code now = (st', res)"
  shows "otp_inv cfg hist st'"
proof -
  consider (same) "st' = st"
    | (expired) c r st1 where "otp_by_id st org cid = Some c" "oc_status c = Otp_ACTIVE"
      "otp_apply st org cid (\<lambda>r. r\<lparr>oc_status := Otp_EXPIRED\<rparr>) now = Inr (st1, r)"
      "st' = otp_emit st1 ''otp.challenge.expired'' c No_extra now"
    | (attempt) c pepper e where "otp_by_id st org cid = Some c" "oc_status c = Otp_ACTIVE"
      "apply_attempt hmac st org c code pepper now = Inr (st', e)"
    using v by (auto simp: otp_verify_def terminal_failure_def split: if_splits sum.splits option.splits
        otp_status.splits prod.splits)
  then show ?thesis
  proof cases
    case same
    then show ?thesis using inv by simp
  next
    case expired
    have "otp_inv cfg hist st1"
    proof (cases r)
      case None
      then have "st1 = st" using otp_apply_None expired(3) by blast
      then show ?thesis using inv by simp
    next
      case (Some c')
      show ?thesis
        using inv expired(3) [unfolded Some]
        by (rule otp_inv_status) (use expired in \<open>auto simp: subject_of_def\<close>)
    qed
    then show ?thesis by (simp add: expired(4))
  next
    case attempt
    then show ?thesis using attempt_inv inv by blast
  qed
qed

lemma new_challenge_simps [simp]:
  "oc_id (new_challenge env cfg org req d p cid code now) = cid"
  "oc_org (new_challenge env cfg org req d p cid code now) = org"
  "oc_attempts (new_challenge env cfg org req d p cid code now) = 0"
  "oc_max_attempts (new_challenge env cfg org req d p cid code now) = cf_max_attempts cfg"
  "oc_status (new_challenge env cfg org req d p cid code now) = Otp_ACTIVE"
  "oc_issued_at (new_challenge env cfg org req d p cid code now) = now"
  "oc_expires_at (new_challenge env cfg org req d p cid code now) = now + cf_ttl cfg"
  "oc_updated_at (new_challenge env cfg org req d p cid code now) = now"
  by (simp_all add: new_challenge_def Let_def)

lemma insert_issued_cases:
  assumes "insert_issued rd original st create now = (st', res)"
  obtains (owner) st1 where "otp_insert st create = Inr st1" "res = Inr (create, True)"
      "st' = otp_emit st1 ''otp.challenge.issued'' create (Expires_at (oc_expires_at create)) now"
    | (lost) "st' = original" "\<And>c. res \<noteq> Inr (c, True)"
proof (cases "otp_insert st create")
  case (Inl e)
  with assms have "st' = original" by (simp add: insert_issued_def)
  moreover have "res \<noteq> Inr (c, True)" for c
    using assms Inl by (auto simp: insert_issued_def split: option.splits)
  ultimately show thesis by (rule lost)
next
  case (Inr st1)
  with assms show thesis by (intro owner) (auto simp: insert_issued_def)
qed

text \<open>What a persisting transaction does: nothing to the rows, or a supersession and an insert.\<close>

lemma persist_issued_cases:
  assumes "persist_issued cfg rd st create now = (st', res)"
  obtains (none) "os_challenges st' = os_challenges st" "\<And>c. res \<noteq> Inr (c, True)"
      "st' = st \<or> st' = otp_emit st ''otp.challenge.rate_limited'' create (Reason ''issue_window_exceeded'') now"
    | (owner) st0 st1 where "res = Inr (create, True)" "otp_insert st0 create = Inr st1"
      "count_issued_since (rd_count rd) (oc_org create) (oc_dest_fp create) (oc_purpose create) (now - cf_window cfg)
         < cf_max_issues cfg"
      "st' = otp_emit st1 ''otp.challenge.issued'' create (Expires_at (oc_expires_at create)) now"
      "st0 = st \<or> (\<exists>active revoked st2. otp_apply st (oc_org create) (oc_id active)
           (\<lambda>r. r\<lparr>oc_status := Otp_REVOKED, oc_revoked_at := Some now\<rparr>) now = Inr (st2, Some revoked) \<and>
         active_for_subject (rd_active rd) (oc_org create) (oc_dest_fp create) (oc_purpose create) = Some active \<and>
         st0 = otp_emit st2 ''otp.challenge.revoked'' revoked (Reason ''superseded_by_new_issuance'') now)"
proof -
  let ?active = "active_for_subject (rd_active rd) (oc_org create) (oc_dest_fp create) (oc_purpose create)"
  let ?n = "count_issued_since (rd_count rd) (oc_org create) (oc_dest_fp create) (oc_purpose create) (now - cf_window cfg)"
  let ?rev = "\<lambda>r. r\<lparr>oc_status := Otp_REVOKED, oc_revoked_at := Some now\<rparr>"
  show thesis
  proof (cases "(\<exists>k prior. oc_idempotency_key create = Some k \<and> otp_by_key (rd_key rd) (oc_org create) k = Some prior) \<or>
      cf_max_issues cfg \<le> ?n")
    case True
    then show thesis using assms
      by (intro none) (auto simp: persist_issued_def Let_def split: option.splits if_splits)
  next
    case False
    then have n: "?n < cf_max_issues cfg" by simp
    have key: "(case oc_idempotency_key create of None \<Rightarrow> None
        | Some key \<Rightarrow> otp_by_key (rd_key rd) (oc_org create) key) = None"
      using False by (auto split: option.splits)
    have run: "(case ?active of
        None \<Rightarrow> insert_issued rd st st create now
      | Some active \<Rightarrow>
          if oc_idempotency_key create \<noteq> None \<and> oc_idempotency_key active = oc_idempotency_key create
          then (st, Inr (active, False))
          else if now < oc_resend_after active then (st, Inl OtpResendTooSoonError)
          else (case otp_apply st (oc_org create) (oc_id active) ?rev now of
              Inl e \<Rightarrow> (st, Inl e)
            | Inr (_, None) \<Rightarrow> (st, Inl OtpAssertionError)
            | Inr (st1, Some revoked) \<Rightarrow>
                insert_issued rd st
                  (otp_emit st1 ''otp.challenge.revoked'' revoked (Reason ''superseded_by_new_issuance'') now)
                  create now)) = (st', res)"
      using assms n unfolding persist_issued_def Let_def key by simp
    show thesis
    proof (cases ?active)
      case None
      with run have "insert_issued rd st st create now = (st', res)" by simp
      then show thesis by (cases rule: insert_issued_cases) (use none owner n in auto)
    next
      case (Some active)
      show thesis
      proof (cases "\<exists>st2 revoked. otp_apply st (oc_org create) (oc_id active) ?rev now = Inr (st2, Some revoked) \<and>
          insert_issued rd st (otp_emit st2 ''otp.challenge.revoked'' revoked (Reason ''superseded_by_new_issuance'') now)
            create now = (st', res)")
        case True
        then obtain st2 revoked where ap: "otp_apply st (oc_org create) (oc_id active) ?rev now = Inr (st2, Some revoked)"
          and ins: "insert_issued rd st
            (otp_emit st2 ''otp.challenge.revoked'' revoked (Reason ''superseded_by_new_issuance'') now)
            create now = (st', res)" by blast
        from ins show thesis
        proof (cases rule: insert_issued_cases)
          case (owner st1)
          show thesis by (rule that(2) [OF owner(2,1) n owner(3)]) (use ap Some in blast)
        next
          case lost
          then show thesis by (intro none) simp_all
        qed
      next
        case False
        with run Some have "st' = st" "\<And>c. res \<noteq> Inr (c, True)"
          by (auto split: if_splits sum.splits option.splits prod.splits)
        then show thesis by (intro none) simp_all
      qed
    qed
  qed
qed

lemma persist_inv:
  assumes inv: "otp_inv cfg hist st" and p: "persist_issued cfg rd st create now = (st', res)"
    and create: "create = new_challenge env cfg org req d pepper cid code now" and fresh: "cid \<notin> oc_id ` set hist"
    and locked: "locked_read rd st create"
  shows "otp_inv cfg (hist @ (case (case res of Inr (c, True) \<Rightarrow> Some c | _ \<Rightarrow> None) of None \<Rightarrow> [] | Some c \<Rightarrow> [c])) st'"
  using p
proof (cases rule: persist_issued_cases)
  case none
  then have "otp_inv cfg hist st'" using inv by auto
  moreover have "(case res of Inr (c, True) \<Rightarrow> Some c | _ \<Rightarrow> None) = None"
    using none(2) by (auto split: sum.splits bool.splits)
  ultimately show ?thesis by simp
next
  case (owner st0 st1)
  have inv0: "otp_inv cfg hist st0"
    using owner(5)
  proof (elim disjE exE conjE)
    fix active revoked st2
    assume ap: "otp_apply st (oc_org create) (oc_id active)
        (\<lambda>r. r\<lparr>oc_status := Otp_REVOKED, oc_revoked_at := Some now\<rparr>) now = Inr (st2, Some revoked)"
      and act: "active_for_subject (rd_active rd) (oc_org create) (oc_dest_fp create) (oc_purpose create) = Some active"
      and st0: "st0 = otp_emit st2 ''otp.challenge.revoked'' revoked (Reason ''superseded_by_new_issuance'') now"
    have "oc_status active = Otp_ACTIVE" using act by (auto simp: active_for_subject_def dest: find_Some_D)
    moreover have "otp_by_id st (oc_org create) (oc_id active) = Some active"
      using locked act by (simp add: locked_read_def)
    ultimately have "otp_inv cfg hist st2"
      using inv by (intro otp_inv_status [OF inv ap]) (auto simp: subject_of_def)
    then show ?thesis by (simp add: st0)
  qed (use inv in simp)
  have "otp_inv cfg (hist @ [create]) st1"
    using otp_inv_insert [OF inv0 owner(2)] fresh by (simp add: create)
  then show ?thesis using owner by simp
qed

lemma unwind_inv:
  assumes inv: "otp_inv cfg hist st"
  shows "otp_inv cfg hist (unwind_failed_delivery st org c code now)"
proof -
  let ?rev = "\<lambda>r. r\<lparr>oc_status := Otp_REVOKED, oc_revoked_at := Some now\<rparr>"
  have "otp_inv cfg hist st1" if "otp_apply st org (oc_id c) ?rev now = Inr (st1, r)"
    "otp_by_id st org (oc_id c) = Some current" "oc_status current = Otp_ACTIVE" for st1 r current
  proof (cases r)
    case None
    then have "st1 = st" using that(1) otp_apply_None by blast
    then show ?thesis using inv by simp
  next
    case (Some c')
    show ?thesis using inv that(1) [unfolded Some]
      by (rule otp_inv_status) (use that in \<open>auto simp: subject_of_def\<close>)
  qed
  then show ?thesis using inv
    by (auto simp: unwind_failed_delivery_def Let_def split: option.splits sum.splits)
qed

lemma otp_step_inv:
  assumes "otp_step env cfg strict hist (t, st) l (t', st')" and inv: "otp_inv cfg hist st"
  shows "otp_inv cfg (hist @ (case l of None \<Rightarrow> [] | Some c \<Rightarrow> [c])) st'"
  using assms(1)
proof (cases rule: otp_step.cases)
  case (ot_persist pepper cid create org req destination code rd res)
  then show ?thesis using persist_inv [OF inv ot_persist(6,5,4,7)] by simp
next
  case (ot_send m)
  moreover have "otp_inv cfg hist (st\<lparr>os_sent := os_sent st @ [m]\<rparr>) \<longleftrightarrow> otp_inv cfg hist st"
    by (rule otp_inv_cong) simp_all
  ultimately show ?thesis using inv by simp
next
  case (ot_delivered org cid mid r)
  have "otp_inv cfg hist st'"
  proof (cases r)
    case None
    then have "st' = st" using ot_delivered(3) otp_apply_None by blast
    then show ?thesis using inv by simp
  next
    case (Some c')
    show ?thesis using inv ot_delivered(3) [unfolded Some] by (rule otp_inv_status) (auto simp: subject_of_def)
  qed
  then show ?thesis using ot_delivered by simp
next
  case (ot_unwind org c code)
  then show ?thesis using unwind_inv [OF inv] by simp
next
  case (ot_verify org cid code res)
  then show ?thesis using verify_inv [OF inv] by simp
next
  case (ot_purge older org n)
  then have "st' = st\<lparr>os_challenges := filter (\<lambda>c. \<not> (oc_org c = org \<and> oc_status c \<noteq> Otp_ACTIVE \<and>
      oc_updated_at c < t' - max older 3600)) (os_challenges st)\<rparr>"
    by (auto simp: purge_expired_def purge_terminal_before_def Let_def)
  then show ?thesis using otp_inv_filter [OF inv] ot_purge(1) by simp
qed

lemma otp_run_inv:
  assumes "otp_run env cfg strict hist (t, st)" and "0 \<le> cf_max_attempts cfg"
  shows "otp_inv cfg hist st"
  using assms(1)
proof (induction hist "(t, st)" arbitrary: t st rule: otp_run.induct)
  case (or_init t)
  then show ?case using assms(2)
    by (simp add: otp_inv_def empty_otp_store_def trail_ok_def ev_count_def)
next
  case (or_step hist s l t st)
  then show ?case using otp_step_inv by (cases s) blast
qed

section \<open>A concrete issuance\<close>

definition otp_demo_env :: otp_env where
  "otp_demo_env = \<lparr>en_hmac = (\<lambda>p m. m), en_digest = (\<lambda>p c d a. p @ c @ d), en_nfkc = (\<lambda>s. s),
     en_account = (\<lambda>org a. Some (''SMS'', True)), en_deliver = (\<lambda>c m. Sent 77)\<rparr>"

definition otp_demo_cfg :: otp_config where
  "otp_demo_cfg = \<lparr>cf_enabled = True, cf_code_length = 6, cf_ttl = 300, cf_max_attempts = 3, cf_cooldown = 60,
     cf_max_issues = 2, cf_window = 3600, cf_pepper = Some ''pepper'', cf_ephemeral_pepper = None\<rparr>"

definition otp_demo_request :: otp_request where
  "otp_demo_request = \<lparr>rq_purpose = ''VERIFY_PHONE'', rq_channel = Ch_SMS, rq_destination = ''+4915112345678'',
     rq_account = 5, rq_default_country = None, rq_idempotency_key = None, rq_correlation_id = None\<rparr>"

definition otp_demo_reads :: otp_reads where
  "otp_demo_reads = \<lparr>rd_replay = empty_otp_store, rd_key = empty_otp_store, rd_count = empty_otp_store,
     rd_active = empty_otp_store, rd_late = []\<rparr>"

definition otp_demo_challenge :: otp_challenge where
  "otp_demo_challenge = new_challenge otp_demo_env otp_demo_cfg 1 otp_demo_request ''+4915112345678'' ''pepper'' 2 ''000042'' 100"

definition otp_demo_issued :: otp_store where
  "otp_demo_issued = fst (persist_issued otp_demo_cfg otp_demo_reads empty_otp_store otp_demo_challenge 100)"

lemma otp_demo_issued_eq:
  "persist_issued otp_demo_cfg otp_demo_reads empty_otp_store otp_demo_challenge 100 = (otp_demo_issued, Inr (otp_demo_challenge, True))"
  by code_simp

lemma otp_demo_run: "otp_run otp_demo_env otp_demo_cfg strict [otp_demo_challenge] (100, otp_demo_issued)"
proof -
  have "otp_step otp_demo_env otp_demo_cfg strict [] (0, empty_otp_store)
      (case (Inr (otp_demo_challenge, True) :: otp_error + otp_challenge \<times> bool) of Inr (c, True) \<Rightarrow> Some c | _ \<Rightarrow> None) (100, otp_demo_issued)"
  proof (rule ot_persist [where pepper = "''pepper''" and cid = 2 and create = otp_demo_challenge and org = 1 and req = otp_demo_request
        and destination = "''+4915112345678''" and code = "''000042''" and rd = otp_demo_reads
        and res = "Inr (otp_demo_challenge, True)"])
    show "otp_demo_challenge = new_challenge otp_demo_env otp_demo_cfg 1 otp_demo_request ''+4915112345678'' ''pepper'' 2 ''000042'' 100"
      by (rule otp_demo_challenge_def)
    show "locked_read otp_demo_reads empty_otp_store otp_demo_challenge"
      by (simp add: locked_read_def active_for_subject_def otp_demo_reads_def empty_otp_store_def)
    show "persist_issued otp_demo_cfg otp_demo_reads empty_otp_store otp_demo_challenge 100 =
        (otp_demo_issued, Inr (otp_demo_challenge, True))" by (rule otp_demo_issued_eq)
  qed (simp_all add: otp_demo_cfg_def otp_pepper_def otp_demo_reads_def)
  from or_step [OF or_init this] show ?thesis by simp
qed

lemma otp_demo_limit: "cf_max_attempts otp_demo_cfg = 3"
  by (simp add: otp_demo_cfg_def)

section \<open>Codes are used once and guesses are bounded\<close>



text \<open>
  C23: Guessing is bounded for ever: over the whole history, also after its row is gone, a
  challenge sees at most one accepted code and at most the configured number of rejected
  ones; once it is locked it was never accepted and its guesses are used up.
\<close>

theorem otp_guesses_bounded:
  assumes "otp_run env cfg strict hist (t, st)" and "0 \<le> cf_max_attempts cfg"
  shows "verified_count st cid \<le> 1 \<and> int (failed_count st cid) \<le> cf_max_attempts cfg \<and>
    (0 < locked_count st cid \<longrightarrow> verified_count st cid = 0 \<and> int (failed_count st cid) = cf_max_attempts cfg)"
  using otp_run_inv [OF assms] by (simp add: otp_inv_def trail_ok_def)

theorem otp_guesses_bounded_witness:
  "verified_count otp_demo_issued 2 \<le> 1 \<and> int (failed_count otp_demo_issued 2) \<le> 3"
  using otp_guesses_bounded [OF otp_demo_run [of True], of 2] by (simp add: otp_demo_limit)

text \<open>
  C24: There is at most one active challenge for a destination and purpose of an
  organization, whatever issuances race: stale reads of the count, of the key and of the
  active row do not matter.
\<close>

theorem otp_one_active:
  assumes "otp_run env cfg strict hist (t, st)" and "0 \<le> cf_max_attempts cfg"
    and "a \<in> set (os_challenges st)" and "b \<in> set (os_challenges st)"
    and "oc_status a = Otp_ACTIVE" and "oc_status b = Otp_ACTIVE"
    and "oc_org a = oc_org b" and "oc_dest_fp a = oc_dest_fp b" and "oc_purpose a = oc_purpose b"
  shows "a = b"
  using otp_run_inv [OF assms(1,2)] assms(3-9) unfolding otp_inv_def subject_of_def by (metis (no_types, lifting))

theorem otp_one_active_witness:
  "set (os_challenges otp_demo_issued) = {otp_demo_challenge}"
proof -
  have m: "otp_demo_challenge \<in> set (os_challenges otp_demo_issued)"
    and s: "\<forall>q \<in> set (os_challenges otp_demo_issued). oc_status q = Otp_ACTIVE \<and> oc_org q = oc_org otp_demo_challenge \<and>
      oc_dest_fp q = oc_dest_fp otp_demo_challenge \<and> oc_purpose q = oc_purpose otp_demo_challenge" by code_simp+
  have "0 \<le> cf_max_attempts otp_demo_cfg" by (simp add: otp_demo_limit)
  then have "a = otp_demo_challenge" if a: "a \<in> set (os_challenges otp_demo_issued)" for a
    using otp_one_active [OF otp_demo_run [of True] _ a m] s a m by blast
  then show ?thesis using m by blast
qed

section \<open>Throttling\<close>

text \<open>Two records of the same challenge, as far as the throttle looks at it.\<close>

definition issue_key :: "otp_challenge \<Rightarrow> uuid \<times> (uuid \<times> string \<times> string) \<times> time" where
  "issue_key c = (oc_id c, subject_of c, oc_issued_at c)"

definition throttle_inv :: "otp_config \<Rightarrow> otp_challenge list \<Rightarrow> time \<Rightarrow> otp_store \<Rightarrow> bool" where
  "throttle_inv cfg hist t st \<longleftrightarrow>
     (\<forall>c \<in> set hist. oc_issued_at c \<le> t \<and>
        (t - cf_window cfg \<le> oc_issued_at c \<longrightarrow> issue_key c \<in> issue_key ` set (os_challenges st))) \<and>
     (\<forall>c \<in> set (os_challenges st). oc_issued_at c \<le> oc_updated_at c \<and> oc_issued_at c \<le> t) \<and>
     distinct (map oc_id hist)"



lemma throttle_emit [simp]: "throttle_inv cfg hist t (otp_emit st ty c x now) \<longleftrightarrow> throttle_inv cfg hist t st"
  by (simp add: throttle_inv_def)













section \<open>Codes and what they are bound to\<close>

lemma decimal_inj: "decimal m = decimal n \<longleftrightarrow> m = n"
proof (induction m arbitrary: n rule: decimal.induct)
  case (1 m)
  have ne: "decimal k \<noteq> []" for k by (subst decimal.simps) simp
  show ?case
  proof (cases "m < 10")
    case True
    have "digit_of n = digit_of m \<longleftrightarrow> n = m" if "n < 10" using that True by (intro digit_of_inj) simp_all
    then show ?thesis using True ne [of "n div 10"] by (subst (1 2) decimal.simps) (auto simp: Cons_eq_append_conv)
  next
    case m: False
    show ?thesis
    proof (cases "n < 10")
      case True
      then show ?thesis using m ne [of "m div 10"] by (subst (1 2) decimal.simps) (auto simp: append_eq_Cons_conv)
    next
      case False
      have "digit_of (m mod 10) = digit_of (n mod 10) \<longleftrightarrow> m mod 10 = n mod 10" by (intro digit_of_inj) simp_all
      moreover have "m = n \<longleftrightarrow> m div 10 = n div 10 \<and> m mod 10 = n mod 10" by (metis div_mult_mod_eq)
      ultimately show ?thesis using m False 1 by (subst (1 2) decimal.simps) simp
    qed
  qed
qed

lemma uuid_str_inj:
  assumes "u < 2 ^ 128" and "v < 2 ^ 128" and "uuid_str u = uuid_str v"
  shows "u = v"
proof -
  let ?g = "\<lambda>s :: string. take 8 s @ take 4 (drop 9 s) @ take 4 (drop 14 s) @ take 4 (drop 19 s) @ drop 24 s"
  have g: "?g (uuid_str w) = digits_fixed 16 32 w" for w
  proof -
    let ?h = "digits_fixed 16 32 w"
    have l: "length ?h = 32" by simp
    have "?g (uuid_str w) = take 8 ?h @ take 4 (drop 8 ?h) @ take 4 (drop 12 ?h) @ take 4 (drop 16 ?h) @ drop 20 ?h"
      unfolding uuid_str_def Let_def using l by (simp add: min_def)
    also have "\<dots> = ?h"
    proof -
      have cut: "take 4 (drop n ?h) @ drop (4 + n) ?h = drop n ?h" for n
        by (metis append_take_drop_id drop_drop)
      show ?thesis using cut [of 16] cut [of 12] cut [of 8] append_take_drop_id [of 8 ?h] by simp
    qed
    finally show ?thesis .
  qed
  have "(2::nat) ^ 128 = 16 ^ 32" by simp
  then have "digits_fixed 16 32 u = digits_fixed 16 32 v \<longleftrightarrow> u = v" using assms(1,2) by (intro digits_fixed_inj) simp_all
  then show ?thesis using g assms(3) by metis
qed

lemma unit_separator_code [simp]: "code_point unit_separator = 31"
  by code_simp

lemma char_class_codes:
  "alnum_char c \<Longrightarrow> code_point c \<noteq> 31" "c \<in> set ''.!#$%&*+/=?^_`{|}~-'' \<Longrightarrow> code_point c \<noteq> 31"
proof -
  assume "alnum_char c"
  then show "code_point c \<noteq> 31"
    by (auto simp: alnum_char_def upper_char_def lower_char_def digit_char_def less_eq_char_def code_point_def)
next
  assume "c \<in> set ''.!#$%&*+/=?^_`{|}~-''"
  moreover have "list_all (\<lambda>c. code_point c \<noteq> 31) ''.!#$%&*+/=?^_`{|}~-''" by code_simp
  ultimately show "code_point c \<noteq> 31" unfolding list_all_iff by blast
qed

lemma no_separator:
  assumes "\<And>c. c \<in> set s \<Longrightarrow> code_point c \<noteq> 31"
  shows "unit_separator \<notin> set s"
  using assms unit_separator_code by blast

lemma match_dollar_chars:
  assumes "match_dollar p s" and "\<And>t c. p t \<Longrightarrow> c \<in> set t \<Longrightarrow> code_point c \<noteq> 31" and "c \<in> set s"
  shows "code_point c \<noteq> 31"
proof -
  have "code_point newline \<noteq> 31" by code_simp
  moreover have "c \<in> set (butlast s) \<or> c = newline" if "s \<noteq> []" "last s = newline"
    using assms(3) that by (metis append_butlast_last_id in_set_conv_decomp_last rotate1.simps(2) set_ConsD set_rotate1)
  ultimately show ?thesis using assms by (auto simp: match_dollar_def)
qed

lemma normalized_no_separator:
  assumes "normalize_identity_value nfkc (channel_identity ch) raw cc = Inr d"
  shows "unit_separator \<notin> set d"
proof (cases ch)
  case Ch_SMS
  then have "normalize_phone nfkc raw cc = Inr d" using assms by (simp add: normalize_identity_value_def)
  then obtain ds where "d = CHR ''+'' # ds" "e164_digits ds" using normalize_phone_form by blast
  then show ?thesis
    by (intro no_separator) (auto simp: e164_digits_def list_all_iff digit_char_code)
next
  case Ch_EMAIL
  then have "normalize_email raw = Inr d" using assms by (simp add: normalize_identity_value_def)
  then obtain l m where parts: "py_split CHR ''@'' d = [l, m]" "match_dollar local_part l" "match_dollar domain_name m"
    by (auto simp: normalize_email_def Let_def split: if_splits list.splits)
  have at: "code_point CHR ''@'' \<noteq> 31" and dot: "code_point CHR ''.'' \<noteq> 31" and dash: "code_point CHR ''-'' \<noteq> 31"
    and quote: "code_point CHR 0x27 \<noteq> 31" by code_simp+
  have l: "code_point c \<noteq> 31" if "local_part t" "c \<in> set t" for t c
    using that char_class_codes quote unfolding local_part_def list_all_iff by metis
  have m: "code_point c \<noteq> 31" if "domain_name t" "c \<in> set t" for t c
    using that split_chars [OF that(2), of "CHR ''.''"] dot dash char_class_codes(1)
    unfolding domain_name_def domain_label_def list_all_iff by metis
  show ?thesis
  proof (rule no_separator)
    fix c assume "c \<in> set d"
    then have "c = CHR ''@'' \<or> c \<in> set l \<or> c \<in> set m" using split_chars [of c d "CHR ''@''"] parts(1) by auto
    then show "code_point c \<noteq> 31"
    proof (elim disjE)
      assume "c \<in> set l"
      then show ?thesis using match_dollar_chars [OF parts(2)] l by blast
    next
      assume "c \<in> set m"
      then show ?thesis using match_dollar_chars [OF parts(3)] m by blast
    qed (use at in simp)
  qed
qed

lemma uuid_str_no_separator: "unit_separator \<notin> set (uuid_str u)"
proof -
  have "unit_separator \<notin> digit_of ` {..<16}" unfolding lessThan_atLeast0 by code_simp
  then have "c \<noteq> unit_separator" if "c \<in> set (digits_fixed 16 32 u)" for c
    using digits_fixed_range [of 16 32 u] that by auto
  moreover have "CHR ''-'' \<noteq> unit_separator" by code_simp
  ultimately show ?thesis
    unfolding uuid_str_def Let_def by (auto dest: in_set_takeD in_set_dropD)
qed

lemma digits_no_separator: "list_all digit_char s \<Longrightarrow> unit_separator \<notin> set s"
  by (rule no_separator) (auto simp: list_all_iff digit_char_code)








text \<open>
  C27: The text whose keyed digest is stored names the organization, the challenge, the
  purpose, the channel, the destination and the code unambiguously: for requests the service
  accepts, two equal texts agree in all of them, so a stored hash is of no use for another
  challenge, tenant, purpose, channel or destination.
\<close>

theorem otp_hash_binding:
  assumes "canonical_context org cid purpose (channel_value ch) d version @ [unit_separator] @ code =
      canonical_context org' cid' purpose' (channel_value ch') d' version' @ [unit_separator] @ code'"
    and "org < 2 ^ 128" and "org' < 2 ^ 128" and "cid < 2 ^ 128" and "cid' < 2 ^ 128"
    and "resolve_purpose key ch = Inr purpose" and "resolve_purpose key' ch' = Inr purpose'"
    and "normalize_identity_value nfkc (channel_identity ch) raw cc = Inr d"
    and "normalize_identity_value nfkc (channel_identity ch') raw' cc' = Inr d'"
    and "list_all digit_char code" and "list_all digit_char code'"
  shows "org = org' \<and> cid = cid' \<and> purpose = purpose' \<and> ch = ch' \<and> d = d' \<and> version = version' \<and> code = code'"
proof -
  let ?fields = "\<lambda>o1 c1 p1 h1 d1 v1 k1. [''nxs-otp:v'' @ decimal v1, uuid_str o1, uuid_str c1, p1, channel_value h1, d1, k1]"
  have join: "canonical_context o1 c1 p1 (channel_value h1) d1 v1 @ [unit_separator] @ k1 =
      py_join [unit_separator] (?fields o1 c1 p1 h1 d1 v1 k1)" for o1 c1 p1 h1 d1 v1 k1
    by (simp add: canonical_context_def)
  have purp: "unit_separator \<notin> set p" if "resolve_purpose k h = Inr p" for p k h
  proof -
    have "list_all (\<lambda>(k, _). unit_separator \<notin> set k) purpose_registry" by code_simp
    then show ?thesis using that
      by (auto simp: resolve_purpose_def list_all_iff dest!: map_of_SomeD split: option.splits if_splits)
  qed
  have chan: "unit_separator \<notin> set (channel_value h)" for h by (cases h) (simp_all, code_simp+)
  have pre: "unit_separator \<notin> set ''nxs-otp:v''" by code_simp
  have split: "py_split unit_separator (py_join [unit_separator] (?fields o1 c1 p1 h1 d1 v1 k1)) = ?fields o1 c1 p1 h1 d1 v1 k1"
    if "resolve_purpose ky h1 = Inr p1" "normalize_identity_value nfkc (channel_identity h1) rw cn = Inr d1"
      "list_all digit_char k1" for o1 c1 p1 h1 d1 v1 k1 ky rw cn
  proof (rule py_split_join)
    fix w assume "w \<in> set (?fields o1 c1 p1 h1 d1 v1 k1)"
    then consider "w = ''nxs-otp:v'' @ decimal v1" | "w = uuid_str o1" | "w = uuid_str c1" | "w = p1"
      | "w = channel_value h1" | "w = d1" | "w = k1" by auto
    then show "unit_separator \<notin> set w"
    proof cases
      case 1
      then show ?thesis using pre digits_no_separator [OF decimal_digits [of v1]] by (simp only: set_append Un_iff) simp
    qed (use uuid_str_no_separator purp [OF that(1)] chan normalized_no_separator [OF that(2)]
        digits_no_separator [OF that(3)] in simp_all)
  qed simp
  have "?fields org cid purpose ch d version code = ?fields org' cid' purpose' ch' d' version' code'"
    using arg_cong [OF assms(1) [unfolded join], of "py_split unit_separator"]
    unfolding split [OF assms(6,8,10)] split [OF assms(7,9,11)] .
  moreover have "ch = ch'" if "channel_value ch = channel_value ch'" using that by (cases ch; cases ch') simp_all
  ultimately show ?thesis using uuid_str_inj assms(2-5) by (simp add: decimal_inj)
qed

theorem otp_hash_binding_witness:
  "canonical_context 1 2 ''VERIFY_PHONE'' ''SMS'' ''+4915112345678'' 1 @ [unit_separator] @ ''000042'' \<noteq>
   canonical_context 1 3 ''VERIFY_PHONE'' ''SMS'' ''+4915112345678'' 1 @ [unit_separator] @ ''000042''"
proof -
  have "resolve_purpose ''VERIFY_PHONE'' Ch_SMS = Inr ''VERIFY_PHONE''"
    "normalize_identity_value (\<lambda>s. s) (channel_identity Ch_SMS) ''+4915112345678'' None = Inr ''+4915112345678''"
    "list_all digit_char ''000042''" by code_simp+
  then show ?thesis
    using otp_hash_binding [of 1 2 "''VERIFY_PHONE''" Ch_SMS "''+4915112345678''" 1 "''000042''"
        1 3 "''VERIFY_PHONE''" Ch_SMS "''+4915112345678''" 1 "''000042''"] by auto
qed

section \<open>The service stays within the runs\<close>

lemma deliver_run:
  assumes run: "otp_run env cfg strict hist (t, st)" and "t \<le> now"
    and del: "deliver_or_unwind env meanwhile st org c code ttl now = (st', res)"
    and mean: "\<And>s t hist. otp_run env cfg strict hist (t, s) \<Longrightarrow> t \<le> now \<Longrightarrow>
      \<exists>t' hist'. otp_run env cfg strict hist' (t', meanwhile s) \<and> t' \<le> now"
  shows "\<exists>t' hist'. otp_run env cfg strict hist' (t', st')"
proof -
  have sent: "\<exists>t' hist'. otp_run env cfg strict hist' (t', meanwhile (st\<lparr>os_sent := os_sent st @ [m]\<rparr>)) \<and> t' \<le> now" for m
    using mean [OF or_step [OF run ot_send [of env cfg strict hist t st m]]] assms(2) by simp
  have plain: "\<exists>t' hist'. otp_run env cfg strict hist' (t', meanwhile st) \<and> t' \<le> now" using mean [OF run assms(2)] .
  have unwound: "\<exists>t' hist'. otp_run env cfg strict hist' (t', unwind_failed_delivery s org c k now)"
    if "\<exists>t' hist'. otp_run env cfg strict hist' (t', s) \<and> t' \<le> now" for s k
    using that or_step [OF _ ot_unwind [of _ now env cfg strict _ s org c k]] by blast
  have marked: "\<exists>t' hist'. otp_run env cfg strict hist' (t', s')"
    if "\<exists>t' hist'. otp_run env cfg strict hist' (t', s) \<and> t' \<le> now"
      "otp_apply s org cid (\<lambda>r. r\<lparr>oc_delivery_message_id := Some mid\<rparr>) now = Inr (s', r)" for s s' cid mid r
    using that(1) or_step [OF _ ot_delivered [OF _ that(2)]] by blast
  show ?thesis using del run sent plain unwound marked
    unfolding deliver_or_unwind_def Let_def
    by (auto split: if_splits option.splits deliver_result.splits sum.splits prod.splits) blast+
qed

text \<open>
  A call of \<^verbatim>\<open>issue\<close> whose active row was read under its lock, with a fresh identifier,
  leads from a run to a run, whatever it answers.
\<close>

lemma issue_run:
  assumes run: "otp_run env cfg strict hist (t, st)" and "t \<le> now" and "now \<le> now'"
    and fresh: "cid \<notin> oc_id ` set hist" and "strict \<longrightarrow> rd_count rd = st"
    and locked: "\<And>d pepper code. locked_read rd st (new_challenge env cfg org req d pepper cid code now)"
    and mean: "\<And>s t hist. otp_run env cfg strict hist (t, s) \<Longrightarrow> t \<le> now' \<Longrightarrow>
      \<exists>t' hist'. otp_run env cfg strict hist' (t', meanwhile s) \<and> t' \<le> now'"
  shows "\<exists>t' hist'. otp_run env cfg strict hist' (t', fst (otp_issue env cfg rd meanwhile st org req cid r now now'))"
proof -
  let ?new = "\<lambda>d pepper code. new_challenge env cfg org req d pepper cid code now"
  have step: "\<exists>hist'. otp_run env cfg strict hist' (now, st1)"
    if "otp_pepper cfg = Inr pepper" "persist_issued cfg rd st (?new d pepper code) now = (st1, res)" for st1 res pepper d code
    using or_step [OF run ot_persist [OF assms(2) that(1) fresh refl that(2) locked assms(5)]] by blast
  have deliver: "\<exists>t' hist'. otp_run env cfg strict hist' (t', st2)"
    if "otp_pepper cfg = Inr pepper" "persist_issued cfg rd st (?new d pepper code) now = (st1, res)"
      "deliver_or_unwind env meanwhile st1 org c k ttl now' = (st2, out)" for st1 st2 res pepper d code c k ttl out
  proof -
    from step [OF that(1,2)] obtain hist' where h: "otp_run env cfg strict hist' (now, st1)" by blast
    show ?thesis by (rule deliver_run [OF h assms(3) that(3)]) (rule mean)
  qed
  obtain st' ans where iss: "otp_issue env cfg rd meanwhile st org req cid r now now' = (st', ans)"
    by (cases "otp_issue env cfg rd meanwhile st org req cid r now now'")
  then consider (same) "st' = st"
    | (persisted) d pepper code res where "otp_pepper cfg = Inr pepper"
      "persist_issued cfg rd st (?new d pepper code) now = (st', res)"
    | (delivered) d pepper code res st1 c out where "otp_pepper cfg = Inr pepper"
      "persist_issued cfg rd st (?new d pepper code) now = (st1, res)"
      "deliver_or_unwind env meanwhile st1 org c code (cf_ttl cfg) now' = (st', out)"
    by (auto simp: otp_issue_def split: if_splits sum.splits option.splits prod.splits bool.splits)
  then have "\<exists>t' hist'. otp_run env cfg strict hist' (t', st')"
  proof cases
    case same
    then show ?thesis using run by auto
  next
    case persisted
    then show ?thesis using step by blast
  next
    case delivered
    then show ?thesis by (rule deliver)
  qed
  then show ?thesis by (simp add: iss)
qed

end
