(* ===== verification/Event_Contract.thy ===== *)
theory Event_Contract
  imports Python_Text
begin

text \<open>
  \<^verbatim>\<open>events/subjects.py\<close>, \<^verbatim>\<open>envelope.py\<close>, \<^verbatim>\<open>registry.py\<close>, \<^verbatim>\<open>errors.py\<close> and \<^verbatim>\<open>backoff.py\<close>: the subject
  taxonomy, the event envelope with its validation, the payload registry, the failure
  classification and the retry delay. Payload models are predicates given by the registry;
  JSON text is not modelled, an envelope in transit is the record itself, valid or not.
\<close>

section \<open>Errors\<close>

datatype failure_class = Retryable | Terminal

text \<open>
  The exceptions of the event platform, another \<^verbatim>\<open>NxsError\<close> with its code and title, and any
  other exception with the names of its classes, most specific first.
\<close>

datatype ev_error =
    EventContractError
  | UnknownEventTypeError
  | UnsupportedEventVersionError
  | SubjectValidationError
  | EventTenantScopeError
  | EventPublishError
  | DurableTransportUnavailableError
  | HandlerRetryableError
  | HandlerTerminalError
  | Other_nxs string string
  | Other_exception "string list"

definition retryable_names :: "string list" where
  "retryable_names =
     [''TimeoutError'', ''ConnectionError'', ''ConnectionResetError'', ''ConnectionRefusedError'', ''OSError'',
      ''BrokenPipeError'', ''NoRespondersError'', ''ServiceUnavailableError'', ''DisconnectedError'',
      ''OperationalError'', ''InterfaceError'', ''DBAPIError'', ''InternalError_'']"

fun platform_error :: "ev_error \<Rightarrow> bool" where
  "platform_error (Other_nxs _ _) = False"
| "platform_error (Other_exception _) = False"
| "platform_error _ = True"

fun declared_class :: "ev_error \<Rightarrow> failure_class" where
  "declared_class EventPublishError = Retryable"
| "declared_class DurableTransportUnavailableError = Retryable"
| "declared_class HandlerRetryableError = Retryable"
| "declared_class _ = Terminal"

text \<open>The class names an exception that is not of the platform has.\<close>

fun class_names :: "ev_error \<Rightarrow> string list" where
  "class_names (Other_exception names) = names"
| "class_names _ = []"

definition classify_failure :: "ev_error \<Rightarrow> failure_class" where
  "classify_failure e =
     (if platform_error e then declared_class e
      else if list_ex (\<lambda>n. n \<in> set retryable_names) (class_names e) then Retryable
      else Terminal)"

fun safe_error_code :: "ev_error \<Rightarrow> string" where
  "safe_error_code EventContractError = ''NXS_EVENT_CONTRACT_INVALID''"
| "safe_error_code UnknownEventTypeError = ''NXS_EVENT_TYPE_UNKNOWN''"
| "safe_error_code UnsupportedEventVersionError = ''NXS_EVENT_VERSION_UNSUPPORTED''"
| "safe_error_code SubjectValidationError = ''NXS_EVENT_SUBJECT_INVALID''"
| "safe_error_code EventTenantScopeError = ''NXS_EVENT_TENANT_SCOPE''"
| "safe_error_code EventPublishError = ''NXS_EVENT_PUBLISH_FAILED''"
| "safe_error_code DurableTransportUnavailableError = ''NXS_EVENT_DURABLE_TRANSPORT_UNAVAILABLE''"
| "safe_error_code HandlerRetryableError = ''NXS_EVENT_HANDLER_RETRYABLE''"
| "safe_error_code HandlerTerminalError = ''NXS_EVENT_HANDLER_TERMINAL''"
| "safe_error_code (Other_nxs code _) = code"
| "safe_error_code (Other_exception names) = (case names of [] \<Rightarrow> [] | n # _ \<Rightarrow> take 64 n)"

fun safe_error_summary :: "ev_error \<Rightarrow> string" where
  "safe_error_summary EventContractError = ''Event Contract Invalid''"
| "safe_error_summary UnknownEventTypeError = ''Unknown Event Type''"
| "safe_error_summary UnsupportedEventVersionError = ''Unsupported Event Version''"
| "safe_error_summary SubjectValidationError = ''Event Subject Invalid''"
| "safe_error_summary EventTenantScopeError = ''Event Tenant Scope Violation''"
| "safe_error_summary EventPublishError = ''Event Publish Failed''"
| "safe_error_summary DurableTransportUnavailableError = ''Durable Event Transport Unavailable''"
| "safe_error_summary HandlerRetryableError = ''Event Handler Retryable Failure''"
| "safe_error_summary HandlerTerminalError = ''Event Handler Terminal Failure''"
| "safe_error_summary (Other_nxs _ title) = title"
| "safe_error_summary (Other_exception names) = (case names of [] \<Rightarrow> [] | n # _ \<Rightarrow> take 120 n)"

section \<open>Retry delays\<close>

text \<open>Seconds as exact rationals: doubling a binary float is exact.\<close>

definition backoff_delay :: "int \<Rightarrow> rat \<Rightarrow> rat \<Rightarrow> rat" where
  "backoff_delay attempt base_seconds max_seconds =
     (if attempt < 1 then 0
      else min max_seconds (base_seconds * 2 ^ nat (min (attempt - 1) 20)))"

definition should_dead_letter :: "int \<Rightarrow> int \<Rightarrow> bool" where
  "should_dead_letter attempt max_attempts \<longleftrightarrow> max_attempts \<le> attempt"

lemma backoff_bounds:
  assumes "0 < base_seconds" and "base_seconds \<le> max_seconds" and "1 \<le> attempt"
  shows "base_seconds \<le> backoff_delay attempt base_seconds max_seconds"
    and "backoff_delay attempt base_seconds max_seconds \<le> max_seconds"
proof -
  have "base_seconds * 1 \<le> base_seconds * 2 ^ nat (min (attempt - 1) 20)"
    using assms(1) by (intro mult_left_mono) simp_all
  then show "base_seconds \<le> backoff_delay attempt base_seconds max_seconds"
    using assms by (simp add: backoff_delay_def)
  show "backoff_delay attempt base_seconds max_seconds \<le> max_seconds"
    using assms by (simp add: backoff_delay_def)
qed

lemma backoff_mono:
  assumes "0 < base_seconds" and "0 \<le> max_seconds" and "a \<le> b"
  shows "backoff_delay a base_seconds max_seconds \<le> backoff_delay b base_seconds max_seconds"
proof -
  have "base_seconds * 2 ^ nat (min (a - 1) 20) \<le> base_seconds * 2 ^ nat (min (b - 1) 20)"
    using assms by (intro mult_left_mono power_increasing) simp_all
  then have "min max_seconds (base_seconds * 2 ^ nat (min (a - 1) 20)) \<le> min max_seconds (base_seconds * 2 ^ nat (min (b - 1) 20))"
    by (rule min.mono [OF order_refl])
  then show ?thesis using assms unfolding backoff_delay_def by auto
qed

section \<open>Subjects\<close>

datatype subject_scope = Scope_TENANT | Scope_GLOBAL

fun scope_value :: "subject_scope \<Rightarrow> string" where
  "scope_value Scope_TENANT = ''tenant''"
| "scope_value Scope_GLOBAL = ''global''"

definition scope_of_value :: "string \<Rightarrow> subject_scope option" where
  "scope_of_value s =
     (if s = ''tenant'' then Some Scope_TENANT else if s = ''global'' then Some Scope_GLOBAL else None)"

record subject =
  sj_prefix :: string
  sj_environment :: string
  sj_scope :: subject_scope
  sj_domain :: string
  sj_event :: string

definition subject_str :: "subject \<Rightarrow> string" where
  "subject_str s = py_join ''.'' [sj_prefix s, sj_environment s, scope_value (sj_scope s), sj_domain s, sj_event s]"

definition low_char :: "char \<Rightarrow> bool" where
  "low_char c \<longleftrightarrow> lower_char c \<or> digit_char c"

text \<open>\<^verbatim>\<open>[a-z][a-z0-9]*(?:_[a-z0-9]+)*\<close>\<close>

definition token_match :: "string \<Rightarrow> bool" where
  "token_match s \<longleftrightarrow>
     (case py_split CHR ''_'' s of [] \<Rightarrow> False
      | w # ws \<Rightarrow> w \<noteq> [] \<and> lower_char (hd w) \<and> list_all low_char w \<and>
          list_all (\<lambda>v. v \<noteq> [] \<and> list_all low_char v) ws)"

text \<open>A dotted sequence of such tokens, with a bound on how many follow the first.\<close>

definition dotted_match :: "nat \<Rightarrow> nat \<Rightarrow> string \<Rightarrow> bool" where
  "dotted_match lo hi s \<longleftrightarrow> (let ws = py_split CHR ''.'' s in
     lo \<le> length ws - 1 \<and> length ws - 1 \<le> hi \<and> list_all token_match ws)"

definition subject_token :: "string \<Rightarrow> ev_error + string" where
  "subject_token value =
     (let candidate = py_strip value in
      if candidate = [] \<or> length candidate > 48 \<or> \<not> token_match candidate then Inl SubjectValidationError
      else Inr candidate)"

definition event_token :: "string \<Rightarrow> ev_error + string" where
  "event_token value =
     (let candidate = py_strip value in
      if candidate = [] \<or> length candidate > 144 \<or> \<not> dotted_match 0 4 candidate then Inl SubjectValidationError
      else Inr candidate)"

definition build_subject :: "string \<Rightarrow> string \<Rightarrow> subject_scope \<Rightarrow> string \<Rightarrow> string \<Rightarrow> ev_error + subject" where
  "build_subject prefix environment scope domain event =
     bindE (subject_token prefix) (\<lambda>p.
     bindE (subject_token environment) (\<lambda>e.
     bindE (subject_token domain) (\<lambda>d.
     bindE (event_token event) (\<lambda>v.
     let s = \<lparr>sj_prefix = p, sj_environment = e, sj_scope = scope, sj_domain = d, sj_event = v\<rparr>;
         rendered = subject_str s
     in if length rendered > 240 then Inl SubjectValidationError
        else if list_ex (\<lambda>c. c \<in> set ''*> '') rendered then Inl SubjectValidationError
        else Inr s))))"

definition parse_subject :: "string \<Rightarrow> ev_error + subject" where
  "parse_subject raw =
     (if raw = [] \<or> length raw > 240 then Inl SubjectValidationError
      else case py_split CHR ''.'' raw of
        prefix # environment # scope # domain # event # rest \<Rightarrow>
          (case scope_of_value scope of
             None \<Rightarrow> Inl SubjectValidationError
           | Some sc \<Rightarrow> build_subject prefix environment sc domain (py_join ''.'' (event # rest)))
      | _ \<Rightarrow> Inl SubjectValidationError)"

definition subscribe_filter ::
  "string \<Rightarrow> string \<Rightarrow> subject_scope option \<Rightarrow> string option \<Rightarrow> ev_error + string" where
  "subscribe_filter prefix environment scope domain =
     bindE (subject_token prefix) (\<lambda>p.
     bindE (subject_token environment) (\<lambda>e.
     bindE (case scope of
              Some sc \<Rightarrow>
                (case domain of
                   None \<Rightarrow> Inr [scope_value sc]
                 | Some d \<Rightarrow> bindE (subject_token d) (\<lambda>t. Inr [scope_value sc, t]))
            | None \<Rightarrow> (case domain of None \<Rightarrow> Inr [] | Some _ \<Rightarrow> Inl SubjectValidationError)) (\<lambda>narrow.
     Inr (py_join ''.'' ([p, e] @ narrow @ [''>''])))))"

section \<open>Envelopes\<close>

record envelope =
  ev_id :: uuid
  ev_type :: string
  ev_version :: int
  ev_occurred_at :: time
  ev_scope :: subject_scope
  ev_org :: "uuid option"
  ev_aggregate_type :: string
  ev_aggregate_id :: string
  ev_correlation_id :: string
  ev_causation_id :: "string option"
  ev_trace_id :: "string option"
  ev_producer :: string
  ev_payload :: json_obj
  ev_metadata :: "(string \<times> string) list"

text \<open>\<^verbatim>\<open>[A-Za-z0-9][A-Za-z0-9_.:\-]{0,127}\<close>\<close>

definition identifier_match :: "string \<Rightarrow> bool" where
  "identifier_match s \<longleftrightarrow>
     (case s of [] \<Rightarrow> False
      | c # cs \<Rightarrow> (upper_char c \<or> low_char c) \<and> length cs \<le> 127 \<and>
          list_all (\<lambda>x. upper_char x \<or> low_char x \<or> x \<in> set ''_.:-'') cs)"

definition opt_max :: "nat \<Rightarrow> string option \<Rightarrow> bool" where
  "opt_max n v = (case v of None \<Rightarrow> True | Some s \<Rightarrow> length s \<le> n)"

definition envelope_valid :: "envelope \<Rightarrow> bool" where
  "envelope_valid e \<longleftrightarrow>
     uuid_version (ev_id e) = 7 \<and>
     3 \<le> length (ev_type e) \<and> length (ev_type e) \<le> 160 \<and> dotted_match 1 5 (ev_type e) \<and>
     1 \<le> ev_version e \<and> ev_version e \<le> 1000 \<and>
     1 \<le> length (ev_aggregate_type e) \<and> length (ev_aggregate_type e) \<le> 64 \<and>
     identifier_match (ev_aggregate_id e) \<and> identifier_match (ev_correlation_id e) \<and>
     opt_max 128 (ev_causation_id e) \<and> opt_max 128 (ev_trace_id e) \<and>
     1 \<le> length (ev_producer e) \<and> length (ev_producer e) \<le> 96 \<and>
     length (ev_metadata e) \<le> 24 \<and>
     list_all (\<lambda>(k, v). identifier_match k \<and> length v \<le> 512) (ev_metadata e) \<and>
     (ev_scope e = Scope_TENANT \<longleftrightarrow> ev_org e \<noteq> None)"

text \<open>\<^verbatim>\<open>EventEnvelope.create\<close> with the fresh identifier and the time it reads.\<close>

definition envelope_create ::
  "uuid \<Rightarrow> time \<Rightarrow> string \<Rightarrow> int \<Rightarrow> string \<Rightarrow> string \<Rightarrow> string \<Rightarrow> json_obj \<Rightarrow> uuid option \<Rightarrow> string option \<Rightarrow>
     string option \<Rightarrow> string option \<Rightarrow> (string \<times> string) list \<Rightarrow> envelope option" where
  "envelope_create eid now etype version atype aid producer payload org corr causation trace metadata =
     (let e = \<lparr>ev_id = eid, ev_type = etype, ev_version = version, ev_occurred_at = now,
            ev_scope = (if org \<noteq> None then Scope_TENANT else Scope_GLOBAL), ev_org = org,
            ev_aggregate_type = atype, ev_aggregate_id = aid,
            ev_correlation_id = (case corr of None \<Rightarrow> uuid_hex eid | Some c \<Rightarrow> if c = [] then uuid_hex eid else c),
            ev_causation_id = causation, ev_trace_id = trace, ev_producer = producer, ev_payload = payload,
            ev_metadata = metadata\<rparr>
      in if envelope_valid e then Some e else None)"

text \<open>\<^verbatim>\<open>model_validate\<close> and \<^verbatim>\<open>from_json\<close> on an envelope in transit or at rest.\<close>

definition to_envelope :: "envelope \<Rightarrow> ev_error + envelope" where
  "to_envelope raw = (if envelope_valid raw then Inr raw else Inl EventContractError)"

definition require_tenant :: "envelope \<Rightarrow> ev_error + uuid" where
  "require_tenant e =
     (if ev_scope e \<noteq> Scope_TENANT then Inl EventTenantScopeError
      else of_option EventTenantScopeError (ev_org e))"

definition assert_matches_tenant :: "envelope \<Rightarrow> uuid \<Rightarrow> ev_error + unit" where
  "assert_matches_tenant e expected = (if ev_org e \<noteq> Some expected then Inl EventTenantScopeError else Inr ())"

text \<open>\<^verbatim>\<open>split(".", 1)\<close> of the event type.\<close>

definition ev_domain :: "envelope \<Rightarrow> string" where
  "ev_domain e = takeWhile (\<lambda>c. c \<noteq> CHR ''.'') (ev_type e)"

definition ev_name :: "envelope \<Rightarrow> string" where
  "ev_name e = tl (dropWhile (\<lambda>c. c \<noteq> CHR ''.'') (ev_type e))"

definition envelope_subject :: "string \<Rightarrow> string \<Rightarrow> envelope \<Rightarrow> ev_error + subject" where
  "envelope_subject prefix environment e = build_subject prefix environment (ev_scope e) (ev_domain e) (ev_name e)"

definition nats_headers :: "envelope \<Rightarrow> (string \<times> string) list" where
  "nats_headers e =
     [(''Nats-Msg-Id'', uuid_str (ev_id e)), (''Nxs-Event-Type'', ev_type e),
      (''Nxs-Event-Version'', decimal (nat (ev_version e))), (''Nxs-Correlation-Id'', ev_correlation_id e)] @
     (case ev_org e of None \<Rightarrow> [] | Some org \<Rightarrow> [(''Nxs-Organization-Id'', uuid_str org)])"

section \<open>The payload registry\<close>

text \<open>Registered types and versions with what their model accepts.\<close>

type_synonym event_registry = "((string \<times> int) \<times> (json_obj \<Rightarrow> bool)) list"

definition register :: "event_registry \<Rightarrow> string \<Rightarrow> int \<Rightarrow> (json_obj \<Rightarrow> bool) \<Rightarrow> event_registry option" where
  "register reg etype version accepts =
     (if map_of reg (etype, version) \<noteq> None then None else Some (reg @ [((etype, version), accepts)]))"

definition is_known_type :: "event_registry \<Rightarrow> string \<Rightarrow> bool" where
  "is_known_type reg etype \<longleftrightarrow> list_ex (\<lambda>((t, v), m). t = etype) reg"

definition supported_versions :: "event_registry \<Rightarrow> string \<Rightarrow> int list" where
  "supported_versions reg etype = sort (map (\<lambda>((t, v), m). v) (filter (\<lambda>((t, v), m). t = etype) reg))"

definition model_for :: "event_registry \<Rightarrow> string \<Rightarrow> int \<Rightarrow> ev_error + (json_obj \<Rightarrow> bool)" where
  "model_for reg etype version =
     (case map_of reg (etype, version) of
        Some m \<Rightarrow> Inr m
      | None \<Rightarrow> Inl (if is_known_type reg etype then UnsupportedEventVersionError else UnknownEventTypeError))"

definition decode :: "event_registry \<Rightarrow> envelope \<Rightarrow> ev_error + json_obj" where
  "decode reg e =
     bindE (model_for reg (ev_type e) (ev_version e)) (\<lambda>accepts.
     if accepts (ev_payload e) then Inr (ev_payload e) else Inl EventContractError)"

section \<open>Publisher and consumer agree\<close>

text \<open>\<^verbatim>\<open>DurableConsumer._check_provenance\<close>\<close>

definition payload_org_agrees :: "envelope \<Rightarrow> bool" where
  "payload_org_agrees e =
     (case map_of (ev_payload e) ''organization_id'' of
        None \<Rightarrow> True
      | Some JNull \<Rightarrow> True
      | Some (JStr s) \<Rightarrow> s = (case ev_org e of None \<Rightarrow> ''None'' | Some org \<Rightarrow> uuid_str org)
      | Some _ \<Rightarrow> False)"

definition check_provenance :: "string \<Rightarrow> envelope \<Rightarrow> ev_error + unit" where
  "check_provenance raw_subject e =
     bindE (parse_subject raw_subject) (\<lambda>s.
     if sj_scope s \<noteq> ev_scope e then Inl EventTenantScopeError
     else if sj_domain s \<noteq> ev_domain e then Inl EventTenantScopeError
     else if \<not> payload_org_agrees e then Inl EventTenantScopeError
     else Inr ())"

definition token_char :: "char \<Rightarrow> bool" where
  "token_char c \<longleftrightarrow> low_char c \<or> c = CHR ''_''"

lemma token_chars: "token_match s \<Longrightarrow> c \<in> set s \<Longrightarrow> token_char c"
  using split_chars [of c s "CHR ''_''"]
  by (auto simp: token_match_def token_char_def list_all_iff split: list.splits)

lemma token_char_safe:
  assumes "token_char c"
  shows "\<not> py_space c" and "c \<notin> set ''*> ''" and "c \<noteq> CHR ''.''"
proof -
  have n: "97 \<le> code_point c \<and> code_point c \<le> 122 \<or> 48 \<le> code_point c \<and> code_point c \<le> 57 \<or> code_point c = 95"
    using assms by (auto simp: token_char_def low_char_def lower_char_def digit_char_def less_eq_char_def code_point_def)
  then show "\<not> py_space c" by (auto simp: py_space_def)
  show "c \<notin> set ''*> ''" "c \<noteq> CHR ''.''" using n by (auto simp: code_point_def)
qed

lemma dotted_chars:
  assumes "dotted_match lo hi s" and "c \<in> set s"
  shows "c = CHR ''.'' \<or> token_char c"
  using assms split_chars [OF assms(2), of "CHR ''.''"] token_chars
  by (auto simp: dotted_match_def Let_def list_all_iff)

lemma token_strip: "token_match s \<Longrightarrow> py_strip s = s"
proof -
  assume t: "token_match s"
  then have "s \<noteq> []" by (auto simp: token_match_def)
  then show ?thesis using token_chars [OF t] token_char_safe(1) by (intro py_strip_stripped) auto
qed

lemma dotted_strip: "dotted_match lo hi s \<Longrightarrow> py_strip s = s"
proof -
  assume t: "dotted_match lo hi s"
  have "\<not> py_space CHR ''.''" by code_simp
  then have sp: "c \<in> set s \<Longrightarrow> \<not> py_space c" for c using dotted_chars [OF t] token_char_safe(1) by blast
  show ?thesis
  proof (cases "s = []")
    case False
    then show ?thesis using sp by (intro py_strip_stripped) auto
  qed simp
qed

lemma subject_token_D:
  assumes "subject_token v = Inr t"
  shows "token_match t" and "subject_token t = Inr t" and "CHR ''.'' \<notin> set t"
proof -
  show t: "token_match t" using assms by (auto simp: subject_token_def Let_def split: if_splits)
  show "subject_token t = Inr t"
    using assms token_strip [OF t] by (auto simp: subject_token_def Let_def split: if_splits)
  show "CHR ''.'' \<notin> set t" using token_chars [OF t] token_char_safe(3) by blast
qed

lemma event_token_D:
  assumes "event_token v = Inr t"
  shows "dotted_match 0 4 t" and "event_token t = Inr t"
proof -
  show t: "dotted_match 0 4 t" using assms by (auto simp: event_token_def Let_def split: if_splits)
  show "event_token t = Inr t"
    using assms dotted_strip [OF t] by (auto simp: event_token_def Let_def split: if_splits)
qed

lemma py_split_subject:
  assumes "CHR ''.'' \<notin> set p" "CHR ''.'' \<notin> set e" "CHR ''.'' \<notin> set d"
  shows "py_split CHR ''.'' (py_join ''.'' [p, e, scope_value sc, d, v]) = [p, e, scope_value sc, d] @ py_split CHR ''.'' v"
proof -
  have "CHR ''.'' \<notin> set (scope_value sc)" by (cases sc) simp_all
  then show ?thesis using assms by (simp add: py_split_append)
qed

lemma build_subject_parse:
  assumes b: "build_subject prefix environment scope domain event = Inr s"
  shows "parse_subject (subject_str s) = Inr s"
proof -
  obtain p e d v where t: "subject_token prefix = Inr p" "subject_token environment = Inr e"
      "subject_token domain = Inr d" "event_token event = Inr v"
    and s: "s = \<lparr>sj_prefix = p, sj_environment = e, sj_scope = scope, sj_domain = d, sj_event = v\<rparr>"
    and len: "length (subject_str s) \<le> 240" and wild: "\<not> list_ex (\<lambda>c. c \<in> set ''*> '') (subject_str s)"
    using b by (auto simp: build_subject_def Let_def split: if_splits)
  note P = subject_token_D [OF t(1)] and E = subject_token_D [OF t(2)] and D = subject_token_D [OF t(3)]
    and V = event_token_D [OF t(4)]
  have again: "build_subject p e scope d v = Inr s"
    unfolding build_subject_def using P(2) E(2) D(2) V(2) len wild by (simp add: Let_def s)
  have split: "py_split CHR ''.'' (subject_str s) = [p, e, scope_value scope, d] @ py_split CHR ''.'' v"
    unfolding subject_str_def s using py_split_subject [OF P(3) E(3) D(3)] by simp
  obtain w ws where v: "py_split CHR ''.'' v = w # ws" by (cases "py_split CHR ''.'' v") simp_all
  then have "py_join ''.'' (w # ws) = v" using py_join_split [of "CHR ''.''" v] by simp
  moreover have "scope_of_value (scope_value scope) = Some scope" by (cases scope) (simp_all add: scope_of_value_def)
  moreover have "subject_str s \<noteq> []" by (simp add: subject_str_def)
  ultimately show ?thesis
    unfolding parse_subject_def split v using again len by simp
qed

text \<open>
  C28: Publisher and consumer agree on subjects: the subject built for a valid envelope is
  concrete, parses back to itself, and passes the consumer's provenance check exactly when
  the payload does not claim another organization.
\<close>

theorem published_subject_accepted:
  assumes "envelope_valid e" and "envelope_subject prefix environment e = Inr s"
  shows "parse_subject (subject_str s) = Inr s \<and> set (subject_str s) \<inter> set ''*> '' = {} \<and>
    check_provenance (subject_str s) e = (if payload_org_agrees e then Inr () else Inl EventTenantScopeError)"
proof -
  have b: "build_subject prefix environment (ev_scope e) (ev_domain e) (ev_name e) = Inr s"
    using assms(2) by (simp add: envelope_subject_def)
  have parse: "parse_subject (subject_str s) = Inr s" by (rule build_subject_parse [OF b])
  have "sj_scope s = ev_scope e" "subject_token (ev_domain e) = Inr (sj_domain s)"
    and wild: "\<not> list_ex (\<lambda>c. c \<in> set ''*> '') (subject_str s)"
    using b by (auto simp: build_subject_def Let_def split: if_splits)
  moreover have "sj_domain s = ev_domain e"
  proof -
    obtain w ws where w: "py_split CHR ''.'' (ev_type e) = w # ws" by (cases "py_split CHR ''.'' (ev_type e)") simp_all
    have "w = takeWhile (\<lambda>c. c \<noteq> CHR ''.'') x" if "py_split CHR ''.'' x = w # ws" for w ws x
      using that by (induction x arbitrary: w ws) (auto split: list.splits if_splits)
    then have "ev_domain e = w" using w by (simp add: ev_domain_def)
    moreover have "token_match w" using assms(1) w by (simp add: envelope_valid_def dotted_match_def)
    ultimately show ?thesis
      using \<open>subject_token (ev_domain e) = Inr (sj_domain s)\<close> token_strip
      by (auto simp: subject_token_def Let_def split: if_splits)
  qed
  ultimately have "check_provenance (subject_str s) e = (if payload_org_agrees e then Inr () else Inl EventTenantScopeError)"
    unfolding check_provenance_def parse by simp
  moreover have "set (subject_str s) \<inter> set ''*> '' = {}" using wild unfolding list_ex_iff by blast
  ultimately show ?thesis using parse by blast
qed

definition demo_envelope :: envelope where
  "demo_envelope = \<lparr>ev_id = 7 * 2 ^ 76 + 5, ev_type = ''workflow.run.started'', ev_version = 1, ev_occurred_at = 0,
     ev_scope = Scope_TENANT, ev_org = Some 7, ev_aggregate_type = ''workflow_run'', ev_aggregate_id = ''run-4'',
     ev_correlation_id = ''c1'', ev_causation_id = None, ev_trace_id = None, ev_producer = ''nexus'',
     ev_payload = [(''run_id'', JStr ''4'')], ev_metadata = []\<rparr>"

lemma demo_envelope_valid: "envelope_valid demo_envelope"
proof -
  have "uuid_version (ev_id demo_envelope) = 7" by (simp add: uuid_version_def demo_envelope_def)
  moreover have "dotted_match 1 5 ''workflow.run.started''" "identifier_match ''run-4''" "identifier_match ''c1''"
    by code_simp+
  ultimately show ?thesis by (simp add: envelope_valid_def demo_envelope_def opt_max_def)
qed

theorem published_subject_accepted_witness:
  "check_provenance ''nxs.test.tenant.workflow.run.started'' demo_envelope = Inr ()"
proof -
  let ?s = "\<lparr>sj_prefix = ''nxs'', sj_environment = ''test'', sj_scope = Scope_TENANT, sj_domain = ''workflow'',
    sj_event = ''run.started''\<rparr>"
  have "build_subject ''nxs'' ''test'' Scope_TENANT ''workflow'' ''run.started'' = Inr ?s"
    "subject_str ?s = ''nxs.test.tenant.workflow.run.started''" by code_simp+
  moreover have "payload_org_agrees demo_envelope" by (simp add: payload_org_agrees_def demo_envelope_def)
  moreover have "ev_scope demo_envelope = Scope_TENANT" "ev_domain demo_envelope = ''workflow''"
    "ev_name demo_envelope = ''run.started''" by (simp_all add: ev_domain_def ev_name_def demo_envelope_def)
  ultimately have "envelope_subject ''nxs'' ''test'' demo_envelope = Inr ?s"
    "subject_str ?s = ''nxs.test.tenant.workflow.run.started''" "payload_org_agrees demo_envelope"
    by (simp_all add: envelope_subject_def)
  then show ?thesis using published_subject_accepted [OF demo_envelope_valid, of "''nxs''" "''test''" ?s] by simp
qed

end
