(* ===== verification/Event_Outbox.thy ===== *)
theory Event_Outbox
  imports Event_Contract
begin

text \<open>
  \<^verbatim>\<open>domain/events/models.py\<close>, \<^verbatim>\<open>infrastructure/event_outbox.py\<close>, \<^verbatim>\<open>infrastructure/event_dead_letter.py\<close>,
  \<^verbatim>\<open>infrastructure/jetstream.py\<close> (publishing), \<^verbatim>\<open>events/publisher.py\<close> and the replay of
  \<^verbatim>\<open>scripts/nxs_events\<close>: the outbox and dead-letter tables, every statement on them, and the
  relay that moves rows to the broker. What the broker answers is an argument.
\<close>

section \<open>Tables\<close>

datatype outbox_status = Ob_PENDING | Ob_PUBLISHING | Ob_PUBLISHED | Ob_FAILED | Ob_DEAD

record outbox_row =
  ob_id :: uuid
  ob_org :: uuid
  ob_event_type :: string
  ob_event_version :: int
  ob_subject :: string
  ob_envelope :: envelope
  ob_status :: outbox_status
  ob_attempt_count :: int
  ob_available_at :: time
  ob_last_error_code :: "string option"
  ob_lease_owner :: "string option"
  ob_lease_expires_at :: "time option"
  ob_published_at :: "time option"
  ob_created_at :: time
  ob_updated_at :: time

datatype dl_origin = Origin_OUTBOX_PUBLISH | Origin_CONSUMER

record dead_letter =
  dl_id :: uuid
  dl_org :: uuid
  dl_event_id :: uuid
  dl_event_type :: string
  dl_event_version :: int
  dl_origin :: dl_origin
  dl_consumer_name :: "string option"
  dl_failure_class :: failure_class
  dl_error_code :: string
  dl_error_summary :: "string option"
  dl_attempt_count :: int
  dl_envelope :: envelope
  dl_replayed_at :: "time option"
  dl_recorded_at :: time

text \<open>The two tables and the source of fresh identifiers.\<close>

record event_db =
  ed_outbox :: "outbox_row list"
  ed_dead :: "dead_letter list"
  ed_next :: uuid

record relay_config =
  rl_prefix :: string
  rl_environment :: string
  rl_batch_size :: nat
  rl_lease_seconds :: int
  rl_max_attempts :: int
  rl_base_delay :: rat
  rl_max_delay :: rat

definition relay_config_ok :: "relay_config \<Rightarrow> bool" where
  "relay_config_ok cfg \<longleftrightarrow>
     1 \<le> rl_batch_size cfg \<and> rl_batch_size cfg \<le> 1000 \<and> 5 \<le> rl_lease_seconds cfg \<and> rl_lease_seconds cfg \<le> 600 \<and>
     1 \<le> rl_max_attempts cfg \<and> rl_max_attempts cfg \<le> 50 \<and> 0 < rl_base_delay cfg \<and> rl_base_delay cfg \<le> 60 \<and>
     0 < rl_max_delay cfg \<and> rl_max_delay cfg \<le> 3600 \<and> rl_base_delay cfg \<le> rl_max_delay cfg"

text \<open>\<^verbatim>\<open>timedelta(seconds=x)\<close> in microseconds: rounding to the nearest, ties to even.\<close>

definition py_round :: "rat \<Rightarrow> int" where
  "py_round q =
     (let f = \<lfloor>q\<rfloor>; r = q - of_int f
      in if r < 1 / 2 then f else if 1 / 2 < r then f + 1 else if even f then f else f + 1)"

definition seconds :: "rat \<Rightarrow> time" where
  "seconds q = py_round (q * 1000000)"

lemma py_round_mono_nonneg: "0 \<le> q \<Longrightarrow> 0 \<le> py_round q"
  by (simp add: py_round_def Let_def)

section \<open>The outbox repository\<close>

text \<open>
  \<^verbatim>\<open>enqueue\<close> in a transaction bound to a tenant, or to none: the row-level policies (the tenant's
  own rows, or any row when unscoped) are checked before the primary key.
\<close>

definition enqueue :: "uuid option \<Rightarrow> time \<Rightarrow> outbox_row list \<Rightarrow> envelope \<Rightarrow> string \<Rightarrow> ev_error + (outbox_row list \<times> bool)" where
  "enqueue tenant now rows e subject =
     bindE (require_tenant e) (\<lambda>org.
     if tenant \<noteq> None \<and> tenant \<noteq> Some org then Inl EventTenantScopeError
     else if list_ex (\<lambda>r. ob_id r = ev_id e) rows then Inr (rows, False)
     else Inr (rows @ [\<lparr>ob_id = ev_id e, ob_org = org, ob_event_type = ev_type e, ob_event_version = ev_version e,
            ob_subject = subject, ob_envelope = e, ob_status = Ob_PENDING, ob_attempt_count = 0, ob_available_at = now,
            ob_last_error_code = None, ob_lease_owner = None, ob_lease_expires_at = None, ob_published_at = None,
            ob_created_at = now, ob_updated_at = now\<rparr>], True))"

definition outbox_due :: "time \<Rightarrow> outbox_row \<Rightarrow> bool" where
  "outbox_due now r \<longleftrightarrow>
     (ob_status r = Ob_PENDING \<or> ob_status r = Ob_FAILED) \<and> ob_available_at r \<le> now \<or>
     ob_status r = Ob_PUBLISHING \<and> (case ob_lease_expires_at r of None \<Rightarrow> False | Some t \<Rightarrow> t \<le> now)"

text \<open>
  The candidates: due, not locked by another transaction, oldest first, at most a batch.
\<close>

definition claim_candidates :: "uuid list \<Rightarrow> time \<Rightarrow> nat \<Rightarrow> outbox_row list \<Rightarrow> uuid list" where
  "claim_candidates locked now n rows =
     map ob_id (take n (sort_key ob_available_at (filter (\<lambda>r. outbox_due now r \<and> ob_id r \<notin> set locked) rows)))"

definition claim_row :: "string \<Rightarrow> time \<Rightarrow> time \<Rightarrow> outbox_row \<Rightarrow> outbox_row" where
  "claim_row owner now lease_until r =
     r\<lparr>ob_status := Ob_PUBLISHING, ob_attempt_count := ob_attempt_count r + 1, ob_lease_owner := Some owner,
       ob_lease_expires_at := Some lease_until, ob_updated_at := now\<rparr>"

record outbox_item =
  oi_id :: uuid
  oi_org :: uuid
  oi_event_type :: string
  oi_event_version :: int
  oi_subject :: string
  oi_envelope :: envelope
  oi_attempt_count :: int

definition item_of :: "outbox_row \<Rightarrow> outbox_item" where
  "item_of r = \<lparr>oi_id = ob_id r, oi_org = ob_org r, oi_event_type = ob_event_type r, oi_event_version = ob_event_version r,
     oi_subject = ob_subject r, oi_envelope = ob_envelope r, oi_attempt_count = ob_attempt_count r\<rparr>"

definition claim_batch :: "string \<Rightarrow> nat \<Rightarrow> int \<Rightarrow> uuid list \<Rightarrow> time \<Rightarrow> outbox_row list \<Rightarrow> outbox_row list \<times> outbox_item list" where
  "claim_batch owner batch_size lease_seconds locked now rows =
     (let ids = claim_candidates locked now batch_size rows;
          rows' = update_where (\<lambda>r. ob_id r \<in> set ids) (claim_row owner now (now + lease_seconds * 1000000)) rows
      in if ids = [] then (rows, []) else (rows', map item_of (filter (\<lambda>r. ob_id r \<in> set ids) rows')))"

definition mark_published :: "time \<Rightarrow> uuid \<Rightarrow> outbox_row list \<Rightarrow> outbox_row list" where
  "mark_published now oid =
     update_where (\<lambda>r. ob_id r = oid)
       (\<lambda>r. r\<lparr>ob_status := Ob_PUBLISHED, ob_last_error_code := None, ob_lease_owner := None, ob_lease_expires_at := None,
          ob_published_at := Some now, ob_updated_at := now\<rparr>)"

definition reschedule :: "time \<Rightarrow> uuid \<Rightarrow> string \<Rightarrow> time \<Rightarrow> outbox_row list \<Rightarrow> outbox_row list" where
  "reschedule now oid error_code available_at =
     update_where (\<lambda>r. ob_id r = oid)
       (\<lambda>r. r\<lparr>ob_status := Ob_FAILED, ob_available_at := available_at, ob_last_error_code := Some (take 64 error_code),
          ob_lease_owner := None, ob_lease_expires_at := None, ob_updated_at := now\<rparr>)"

definition mark_dead :: "time \<Rightarrow> uuid \<Rightarrow> string \<Rightarrow> outbox_row list \<Rightarrow> outbox_row list" where
  "mark_dead now oid error_code =
     update_where (\<lambda>r. ob_id r = oid)
       (\<lambda>r. r\<lparr>ob_status := Ob_DEAD, ob_last_error_code := Some (take 64 error_code), ob_lease_owner := None,
          ob_lease_expires_at := None, ob_updated_at := now\<rparr>)"

definition unfinished :: "outbox_row \<Rightarrow> bool" where
  "unfinished r \<longleftrightarrow> ob_status r = Ob_PENDING \<or> ob_status r = Ob_PUBLISHING \<or> ob_status r = Ob_FAILED"

definition pending_count :: "outbox_row list \<Rightarrow> nat" where
  "pending_count rows = length (filter unfinished rows)"

section \<open>The dead-letter repository\<close>

text \<open>\<^verbatim>\<open>" ".join(text.split())[:480]\<close>\<close>

definition sanitize_summary :: "string option \<Rightarrow> string option" where
  "sanitize_summary v =
     (case v of None \<Rightarrow> None
      | Some s \<Rightarrow> if s = [] then None
          else Some (take 480 (py_join '' '' (filter (\<lambda>w. w \<noteq> [])
            (py_split CHR '' '' (map (\<lambda>c. if py_space c then CHR '' '' else c) s))))))"

definition dead_letter_known :: "uuid \<Rightarrow> dl_origin \<Rightarrow> string option \<Rightarrow> dead_letter \<Rightarrow> bool" where
  "dead_letter_known eid origin consumer d \<longleftrightarrow>
     dl_event_id d = eid \<and> dl_origin d = origin \<and> dl_consumer_name d = consumer"

definition record_dead_letter ::
  "time \<Rightarrow> uuid \<Rightarrow> envelope \<Rightarrow> dl_origin \<Rightarrow> failure_class \<Rightarrow> string \<Rightarrow> int \<Rightarrow> string option \<Rightarrow> string option \<Rightarrow>
     dead_letter list \<Rightarrow> dead_letter list \<times> bool" where
  "record_dead_letter now new_id e origin fc error_code attempt_count consumer_name error_summary dead =
     (case ev_org e of
        None \<Rightarrow> (dead, False)
      | Some org \<Rightarrow>
          if ev_scope e \<noteq> Scope_TENANT then (dead, False)
          else if list_ex (dead_letter_known (ev_id e) origin consumer_name) dead then (dead, False)
          else (dead @ [\<lparr>dl_id = new_id, dl_org = org, dl_event_id = ev_id e, dl_event_type = ev_type e,
                 dl_event_version = ev_version e, dl_origin = origin, dl_consumer_name = consumer_name,
                 dl_failure_class = fc, dl_error_code = take 64 error_code,
                 dl_error_summary = sanitize_summary error_summary, dl_attempt_count = attempt_count,
                 dl_envelope = e, dl_replayed_at = None, dl_recorded_at = now\<rparr>], True))"

definition list_for_replay :: "nat \<Rightarrow> dead_letter list \<Rightarrow> dead_letter list" where
  "list_for_replay n dead = take n (sort_key dl_recorded_at (filter (\<lambda>d. dl_replayed_at d = None) dead))"

definition mark_replayed :: "time \<Rightarrow> uuid \<Rightarrow> dead_letter list \<Rightarrow> dead_letter list" where
  "mark_replayed now did = update_where (\<lambda>d. dl_id d = did) (\<lambda>d. d\<lparr>dl_replayed_at := Some now\<rparr>)"

section \<open>Publishing\<close>

text \<open>What the JetStream client answers: an acknowledgement or an exception.\<close>

datatype js_reply = Js_ack string int bool | Js_raises ev_error

record publish_receipt =
  pr_stream :: string
  pr_sequence :: int
  pr_duplicate :: bool

definition transport_publish :: "bool \<Rightarrow> js_reply \<Rightarrow> ev_error + publish_receipt" where
  "transport_publish available reply =
     (if \<not> available then Inl DurableTransportUnavailableError
      else case reply of
        Js_raises exc \<Rightarrow> Inl (if exc = DurableTransportUnavailableError then exc else EventPublishError)
      | Js_ack stream seq duplicate \<Rightarrow>
          if stream = [] then Inl EventPublishError
          else Inr \<lparr>pr_stream = stream, pr_sequence = seq, pr_duplicate = duplicate\<rparr>)"

definition subject_for :: "relay_config \<Rightarrow> envelope \<Rightarrow> ev_error + string" where
  "subject_for cfg e = bindE (envelope_subject (rl_prefix cfg) (rl_environment cfg) e) (\<lambda>s. Inr (subject_str s))"

definition publisher_enqueue ::
  "relay_config \<Rightarrow> uuid option \<Rightarrow> time \<Rightarrow> outbox_row list \<Rightarrow> envelope \<Rightarrow> ev_error + (outbox_row list \<times> bool)" where
  "publisher_enqueue cfg tenant now rows e =
     (if ev_scope e \<noteq> Scope_TENANT then Inl EventTenantScopeError
      else bindE (subject_for cfg e) (\<lambda>s. enqueue tenant now rows e s))"

definition publish_global :: "relay_config \<Rightarrow> bool \<Rightarrow> js_reply \<Rightarrow> envelope \<Rightarrow> ev_error + publish_receipt" where
  "publish_global cfg available reply e =
     (if ev_scope e \<noteq> Scope_GLOBAL then Inl EventTenantScopeError
      else bindE (subject_for cfg e) (\<lambda>_. transport_publish available reply))"

text \<open>\<^verbatim>\<open>OutboxItem.to_envelope\<close>: a stored envelope that no longer validates raises.\<close>

definition stored_envelope :: "outbox_item \<Rightarrow> ev_error + envelope" where
  "stored_envelope item =
     (if envelope_valid (oi_envelope item) then Inr (oi_envelope item)
      else Inl (Other_exception [''ValidationError'', ''ValueError'']))"

definition dead_letter_item ::
  "time \<Rightarrow> outbox_item \<Rightarrow> ev_error \<Rightarrow> ev_error \<Rightarrow> envelope option \<Rightarrow> event_db \<Rightarrow> event_db" where
  "dead_letter_item now item classified cause env db =
     (let db1 = db\<lparr>ed_outbox := mark_dead now (oi_id item) (safe_error_code cause) (ed_outbox db)\<rparr>
      in case env of
           None \<Rightarrow> db1
         | Some e \<Rightarrow>
             db1\<lparr>ed_dead := fst (record_dead_letter now (ed_next db) e Origin_OUTBOX_PUBLISH (classify_failure classified)
                   (safe_error_code cause) (oi_attempt_count item) None (Some (safe_error_summary cause)) (ed_dead db)),
                 ed_next := ed_next db + 1\<rparr>)"

definition handle_transient :: "relay_config \<Rightarrow> time \<Rightarrow> outbox_item \<Rightarrow> envelope \<Rightarrow> ev_error \<Rightarrow> event_db \<Rightarrow> event_db" where
  "handle_transient cfg now item e exc db =
     (if should_dead_letter (oi_attempt_count item) (rl_max_attempts cfg) then dead_letter_item now item exc exc (Some e) db
      else db\<lparr>ed_outbox := reschedule now (oi_id item) (safe_error_code exc)
                (now + seconds (backoff_delay (oi_attempt_count item) (rl_base_delay cfg) (rl_max_delay cfg))) (ed_outbox db)\<rparr>)"

text \<open>What \<^verbatim>\<open>_publish_one\<close> does with the answer of the transport.\<close>

definition settle_item :: "relay_config \<Rightarrow> time \<Rightarrow> outbox_item \<Rightarrow> ev_error + publish_receipt \<Rightarrow> event_db \<Rightarrow> event_db" where
  "settle_item cfg now item answer db =
     (case stored_envelope item of
        Inl exc \<Rightarrow> dead_letter_item now item EventContractError exc None db
      | Inr e \<Rightarrow>
          (case answer of
             Inl exc \<Rightarrow>
               if classify_failure exc = Retryable then handle_transient cfg now item e exc db
               else dead_letter_item now item exc exc (Some e) db
           | Inr receipt \<Rightarrow> db\<lparr>ed_outbox := mark_published now (oi_id item) (ed_outbox db)\<rparr>))"

text \<open>
  What one cycle of a worker meets: the time of its claim, rows locked by others, whether
  the transport is up, what the broker answers for an item and when each item is settled.
\<close>

record relay_env =
  re_now :: time
  re_locked :: "uuid list"
  re_available :: bool
  re_reply :: "outbox_item \<Rightarrow> js_reply"
  re_settle :: "outbox_item \<Rightarrow> time"

definition publish_one :: "relay_config \<Rightarrow> relay_env \<Rightarrow> outbox_item \<Rightarrow> event_db \<Rightarrow> event_db" where
  "publish_one cfg w item db =
     settle_item cfg (re_settle w item) item (transport_publish (re_available w) (re_reply w item)) db"

definition run_once :: "relay_config \<Rightarrow> string \<Rightarrow> relay_env \<Rightarrow> event_db \<Rightarrow> event_db \<times> nat" where
  "run_once cfg worker w db =
     (let (rows, items) = claim_batch (take 64 worker) (rl_batch_size cfg) (rl_lease_seconds cfg) (re_locked w) (re_now w) (ed_outbox db)
      in (fold (publish_one cfg w) items (db\<lparr>ed_outbox := rows\<rparr>), length items))"

text \<open>\<^verbatim>\<open>drain_now\<close>: one environment per batch it may run.\<close>

fun drain_now :: "relay_config \<Rightarrow> string \<Rightarrow> relay_env list \<Rightarrow> event_db \<Rightarrow> event_db \<times> nat" where
  "drain_now cfg worker [] db = (db, 0)"
| "drain_now cfg worker (w # ws) db =
     (let (db', processed) = run_once cfg worker w db
      in if processed = 0 then (db', 0)
         else let (db'', rest) = drain_now cfg worker ws db' in (db'', processed + rest))"

section \<open>Replay of an outbox dead letter\<close>

text \<open>
  \<^verbatim>\<open>_replay\<close> on a dead letter of the outbox: the row is armed again and the dead letter
  stamped. \<^verbatim>\<open>None\<close> is the blocked replay or the exception that rolls the transaction back.
\<close>

definition rearm_row :: "time \<Rightarrow> outbox_row \<Rightarrow> outbox_row" where
  "rearm_row now r =
     r\<lparr>ob_status := Ob_PENDING, ob_attempt_count := 0, ob_available_at := now, ob_last_error_code := None,
       ob_lease_owner := None, ob_lease_expires_at := None\<rparr>"

definition pending_dead_letter :: "uuid \<Rightarrow> dead_letter list \<Rightarrow> dead_letter option" where
  "pending_dead_letter did dead = find (\<lambda>d. dl_id d = did \<and> dl_replayed_at d = None) dead"

definition replay_outbox :: "relay_config \<Rightarrow> time \<Rightarrow> uuid \<Rightarrow> event_db \<Rightarrow> event_db option" where
  "replay_outbox cfg now did db =
     (case pending_dead_letter did (ed_dead db) of
        None \<Rightarrow> None
      | Some d \<Rightarrow>
          if dl_origin d \<noteq> Origin_OUTBOX_PUBLISH \<or> \<not> envelope_valid (dl_envelope d) then None
          else case subject_for cfg (dl_envelope d) of
            Inl _ \<Rightarrow> None
          | Inr _ \<Rightarrow>
              Some (db\<lparr>ed_outbox := update_where (\<lambda>r. ob_id r = ev_id (dl_envelope d)) (rearm_row now) (ed_outbox db),
                       ed_dead := mark_replayed now did (ed_dead db)\<rparr>))"

end
