(* ===== verification/Event_Relay.thy ===== *)
theory Event_Relay
  imports Event_Outbox
begin

text \<open>
  The outbox relay as a system: producers enqueue, any number of workers claim batches,
  publish, settle and crash in any order, operators replay. The broker's store and the
  history of enqueued events are part of the state. The invariant gives that no event is
  lost; draining gives that every unfinished row is published once the broker answers.
\<close>

section \<open>The system\<close>

datatype publish_phase = Ph_claimed | Ph_done "ev_error + publish_receipt"

text \<open>
  The database, what the broker has stored, the items workers hold with how far they got,
  and the envelopes whose enqueueing committed.
\<close>

record relay_sys =
  rs_db :: event_db
  rs_broker :: "(string \<times> envelope) list"
  rs_flight :: "(outbox_item \<times> publish_phase) list"
  rs_enqueued :: "envelope list"

definition relay_init :: relay_sys where
  "relay_init = \<lparr>rs_db = \<lparr>ed_outbox = [], ed_dead = [], ed_next = 0\<rparr>, rs_broker = [], rs_flight = [], rs_enqueued = []\<rparr>"

text \<open>
  JetStream's contract: an acknowledgement that names a stream is sent for a stored message
  only. Any other answer says nothing about whether the message was stored.
\<close>

definition broker_honest :: "bool \<Rightarrow> js_reply \<Rightarrow> bool \<Rightarrow> bool" where
  "broker_honest available reply stored \<longleftrightarrow>
     (stored \<longrightarrow> available) \<and>
     (available \<longrightarrow> (case reply of Js_ack stream _ _ \<Rightarrow> stream \<noteq> [] \<longrightarrow> stored | Js_raises _ \<Rightarrow> True))"

inductive relay_step :: "relay_config \<Rightarrow> time \<times> relay_sys \<Rightarrow> time \<times> relay_sys \<Rightarrow> bool" for cfg where
  step_enqueue:
    "t \<le> now \<Longrightarrow> envelope_valid e \<Longrightarrow> publisher_enqueue cfg tenant now (ed_outbox (rs_db s)) e = Inr (rows, fresh) \<Longrightarrow>
     relay_step cfg (t, s)
       (now, s\<lparr>rs_db := (rs_db s)\<lparr>ed_outbox := rows\<rparr>, rs_enqueued := (if fresh then [e] else []) @ rs_enqueued s\<rparr>)"
| step_claim:
    "t \<le> now \<Longrightarrow>
     claim_batch worker (rl_batch_size cfg) (rl_lease_seconds cfg) locked now (ed_outbox (rs_db s)) = (rows, items) \<Longrightarrow>
     relay_step cfg (t, s)
       (now, s\<lparr>rs_db := (rs_db s)\<lparr>ed_outbox := rows\<rparr>, rs_flight := map (\<lambda>i. (i, Ph_claimed)) items @ rs_flight s\<rparr>)"
| step_publish:
    "t \<le> now \<Longrightarrow> (item, Ph_claimed) \<in> set (rs_flight s) \<Longrightarrow> stored_envelope item = Inr e \<Longrightarrow> broker_honest available reply stored \<Longrightarrow>
     relay_step cfg (t, s)
       (now, s\<lparr>rs_broker := (if stored then [(oi_subject item, e)] else []) @ rs_broker s,
               rs_flight := (item, Ph_done (transport_publish available reply)) # remove1 (item, Ph_claimed) (rs_flight s)\<rparr>)"
| step_settle:
    "t \<le> now \<Longrightarrow> (item, Ph_done answer) \<in> set (rs_flight s) \<Longrightarrow>
     relay_step cfg (t, s)
       (now, s\<lparr>rs_db := settle_item cfg now item answer (rs_db s), rs_flight := remove1 (item, Ph_done answer) (rs_flight s)\<rparr>)"
| step_reject:
    "t \<le> now \<Longrightarrow> (item, Ph_claimed) \<in> set (rs_flight s) \<Longrightarrow> stored_envelope item = Inl exc \<Longrightarrow>
     relay_step cfg (t, s)
       (now, s\<lparr>rs_db := settle_item cfg now item answer (rs_db s), rs_flight := remove1 (item, Ph_claimed) (rs_flight s)\<rparr>)"
| step_crash:
    "t \<le> now \<Longrightarrow> relay_step cfg (t, s) (now, s\<lparr>rs_flight := remove1 entry (rs_flight s)\<rparr>)"
| step_replay:
    "t \<le> now \<Longrightarrow> replay_outbox cfg now did (rs_db s) = Some db \<Longrightarrow> relay_step cfg (t, s) (now, s\<lparr>rs_db := db\<rparr>)"

abbreviation relay_reachable :: "relay_config \<Rightarrow> time \<Rightarrow> relay_sys \<Rightarrow> bool" where
  "relay_reachable cfg t s \<equiv> (\<exists>t0. (relay_step cfg)\<^sup>*\<^sup>* (t0, relay_init) (t, s))"

section \<open>The invariant\<close>

text \<open>The identity of a row: what no statement after the insert changes.\<close>

definition row_key :: "outbox_row \<Rightarrow> uuid \<times> uuid \<times> string \<times> int \<times> string \<times> envelope" where
  "row_key r = (ob_id r, ob_org r, ob_event_type r, ob_event_version r, ob_subject r, ob_envelope r)"

definition item_key :: "outbox_item \<Rightarrow> uuid \<times> uuid \<times> string \<times> int \<times> string \<times> envelope" where
  "item_key i = (oi_id i, oi_org i, oi_event_type i, oi_event_version i, oi_subject i, oi_envelope i)"

definition key_ok :: "relay_config \<Rightarrow> outbox_row \<Rightarrow> bool" where
  "key_ok cfg r \<longleftrightarrow> envelope_valid (ob_envelope r) \<and> ob_id r = ev_id (ob_envelope r) \<and>
     ev_org (ob_envelope r) = Some (ob_org r) \<and> ev_scope (ob_envelope r) = Scope_TENANT \<and>
     subject_for cfg (ob_envelope r) = Inr (ob_subject r)"

definition dead_lettered :: "relay_config \<Rightarrow> dead_letter list \<Rightarrow> envelope \<Rightarrow> bool" where
  "dead_lettered cfg dead e \<longleftrightarrow>
     (\<exists>d \<in> set dead. dl_event_id d = ev_id e \<and> dl_envelope d = e \<and> dl_origin d = Origin_OUTBOX_PUBLISH \<and>
        rl_max_attempts cfg \<le> dl_attempt_count d)"

definition status_ok :: "relay_config \<Rightarrow> (string \<times> envelope) list \<Rightarrow> dead_letter list \<Rightarrow> outbox_row \<Rightarrow> bool" where
  "status_ok cfg broker dead r =
     (case ob_status r of
        Ob_PUBLISHED \<Rightarrow> (ob_subject r, ob_envelope r) \<in> set broker
      | Ob_DEAD \<Rightarrow> dead_lettered cfg dead (ob_envelope r)
      | Ob_PUBLISHING \<Rightarrow> ob_lease_expires_at r \<noteq> None
      | _ \<Rightarrow> True)"

definition transport_error :: "ev_error \<Rightarrow> bool" where
  "transport_error exc \<longleftrightarrow> exc = EventPublishError \<or> exc = DurableTransportUnavailableError"

definition flight_ok :: "(string \<times> envelope) list \<Rightarrow> outbox_row list \<Rightarrow> outbox_item \<times> publish_phase \<Rightarrow> bool" where
  "flight_ok broker rows entry \<longleftrightarrow>
     item_key (fst entry) \<in> row_key ` set rows \<and>
     (case snd entry of
        Ph_claimed \<Rightarrow> True
      | Ph_done (Inr receipt) \<Rightarrow> (oi_subject (fst entry), oi_envelope (fst entry)) \<in> set broker
      | Ph_done (Inl exc) \<Rightarrow> transport_error exc)"

text \<open>Outbox dead letters carry the event they are about, and each event has at most one.\<close>

definition dead_ok :: "relay_config \<Rightarrow> dead_letter list \<Rightarrow> bool" where
  "dead_ok cfg dead \<longleftrightarrow>
     (\<forall>d \<in> set dead. dl_origin d = Origin_OUTBOX_PUBLISH \<and> dl_consumer_name d = None \<and> dl_event_id d = ev_id (dl_envelope d) \<and>
        envelope_valid (dl_envelope d) \<and> rl_max_attempts cfg \<le> dl_attempt_count d) \<and>
     distinct (map dl_event_id dead)"

definition relay_inv :: "relay_config \<Rightarrow> relay_sys \<Rightarrow> bool" where
  "relay_inv cfg s \<longleftrightarrow>
     distinct (map ob_id (ed_outbox (rs_db s))) \<and>
     (\<forall>r \<in> set (ed_outbox (rs_db s)). key_ok cfg r \<and> status_ok cfg (rs_broker s) (ed_dead (rs_db s)) r) \<and>
     ob_envelope ` set (ed_outbox (rs_db s)) = set (rs_enqueued s) \<and>
     (\<forall>x \<in> set (rs_flight s). flight_ok (rs_broker s) (ed_outbox (rs_db s)) x) \<and>
     (\<forall>d \<in> set (ed_dead (rs_db s)). dl_envelope d \<in> ob_envelope ` set (ed_outbox (rs_db s))) \<and>
     dead_ok cfg (ed_dead (rs_db s))"

text \<open>Every statement after the insert rewrites rows in place and keeps their identity.\<close>

lemma rewrite_keeps:
  assumes "\<And>r. row_key (f r) = row_key r"
  shows "map ob_id (update_where p f rows) = map ob_id rows"
    and "ob_envelope ` set (update_where p f rows) = ob_envelope ` set rows"
    and "row_key ` set (update_where p f rows) = row_key ` set rows"
proof -
  have k: "map row_key (update_where p f rows) = map row_key rows" by (rule map_update_where) (rule assms)
  then have "map fst (map row_key (update_where p f rows)) = map fst (map row_key rows)" by simp
  then show "map ob_id (update_where p f rows) = map ob_id rows" by (simp add: row_key_def o_def)
  show "row_key ` set (update_where p f rows) = row_key ` set rows" using k by (metis set_map)
  then have "(\<lambda>(_, _, _, _, _, e). e) ` row_key ` set (update_where p f rows) = (\<lambda>(_, _, _, _, _, e). e) ` row_key ` set rows" by simp
  then show "ob_envelope ` set (update_where p f rows) = ob_envelope ` set rows" by (simp add: row_key_def image_image)
qed

lemma key_ok_cong: "row_key r = row_key r' \<Longrightarrow> key_ok cfg r = key_ok cfg r'"
  by (simp add: row_key_def key_ok_def)

lemma relay_inv_rewrite:
  assumes inv: "relay_inv cfg s" and keep: "\<And>r. row_key (f r) = row_key r"
    and rows: "ed_outbox (rs_db s') = update_where p f (ed_outbox (rs_db s))"
    and st: "\<And>r. r \<in> set (ed_outbox (rs_db s)) \<Longrightarrow> p r \<Longrightarrow> status_ok cfg (rs_broker s') (ed_dead (rs_db s')) (f r)"
    and hist: "rs_enqueued s' = rs_enqueued s" and broker: "set (rs_broker s) \<subseteq> set (rs_broker s')"
    and dead: "\<And>e. dead_lettered cfg (ed_dead (rs_db s)) e \<Longrightarrow> dead_lettered cfg (ed_dead (rs_db s')) e"
      "dead_ok cfg (ed_dead (rs_db s'))"
      "\<And>d. d \<in> set (ed_dead (rs_db s')) \<Longrightarrow> dl_envelope d \<in> ob_envelope ` set (ed_outbox (rs_db s))"
    and flight: "\<And>x. x \<in> set (rs_flight s') \<Longrightarrow> flight_ok (rs_broker s') (ed_outbox (rs_db s)) x"
  shows "relay_inv cfg s'"
proof -
  note k = rewrite_keeps [of f, OF keep]
  have "key_ok cfg r' \<and> status_ok cfg (rs_broker s') (ed_dead (rs_db s')) r'"
    if r': "r' \<in> set (ed_outbox (rs_db s'))" for r'
  proof -
    obtain r where r: "r \<in> set (ed_outbox (rs_db s))" "r' = (if p r then f r else r)"
      using r' unfolding rows set_update_where by blast
    have ok: "key_ok cfg r" "status_ok cfg (rs_broker s) (ed_dead (rs_db s)) r"
      using inv r(1) by (auto simp: relay_inv_def)
    have "row_key r' = row_key r" using r(2) keep by simp
    then have "key_ok cfg r'" using ok(1) key_ok_cong by metis
    moreover have "status_ok cfg (rs_broker s') (ed_dead (rs_db s')) r"
      using ok(2) broker dead(1) by (auto simp: status_ok_def split: outbox_status.splits)
    ultimately show ?thesis using r st by (cases "p r") simp_all
  qed
  moreover have "flight_ok (rs_broker s') (ed_outbox (rs_db s')) x" if "x \<in> set (rs_flight s')" for x
    using flight [OF that] unfolding flight_ok_def rows k(3) .
  ultimately show ?thesis
    using inv dead(2,3) unfolding relay_inv_def rows k hist by simp
qed

lemma relay_inv_init: "relay_inv cfg relay_init"
  by (simp add: relay_inv_def relay_init_def dead_ok_def)

lemma enqueue_inv:
  assumes inv: "relay_inv cfg s" and e: "envelope_valid e"
    and enq: "publisher_enqueue cfg tenant now (ed_outbox (rs_db s)) e = Inr (rows, fresh)"
  shows "relay_inv cfg (s\<lparr>rs_db := (rs_db s)\<lparr>ed_outbox := rows\<rparr>, rs_enqueued := (if fresh then [e] else []) @ rs_enqueued s\<rparr>)"
proof (cases "list_ex (\<lambda>r. ob_id r = ev_id e) (ed_outbox (rs_db s))")
  case True
  then have "rows = ed_outbox (rs_db s) \<and> \<not> fresh"
    using enq by (auto simp: publisher_enqueue_def enqueue_def split: if_splits)
  then show ?thesis using inv by simp
next
  case False
  obtain org sub where org: "ev_org e = Some org" "ev_scope e = Scope_TENANT" "subject_for cfg e = Inr sub"
    using enq by (auto simp: publisher_enqueue_def enqueue_def require_tenant_def split: if_splits)
  obtain r where rows: "rows = ed_outbox (rs_db s) @ [r]" "fresh"
    and r: "ob_id r = ev_id e" "ob_envelope r = e" "ob_org r = org" "ob_subject r = sub" "ob_status r = Ob_PENDING"
    using enq False org by (auto simp: publisher_enqueue_def enqueue_def require_tenant_def split: if_splits)
  have "key_ok cfg r" using e org r by (simp add: key_ok_def)
  moreover have "status_ok cfg (rs_broker s) (ed_dead (rs_db s)) r" using r by (simp add: status_ok_def)
  moreover have "ob_id r \<notin> set (map ob_id (ed_outbox (rs_db s)))" using False r by (auto simp: list_ex_iff)
  moreover have "flight_ok (rs_broker s) rows x" if "flight_ok (rs_broker s) (ed_outbox (rs_db s)) x" for x
    using that rows by (auto simp: flight_ok_def)
  ultimately show ?thesis using inv rows r by (auto simp: relay_inv_def)
qed

lemma claim_row_key: "row_key (claim_row w now l r) = row_key r"
  by (simp add: row_key_def claim_row_def)

lemma item_of_key: "item_key (item_of r) = row_key r"
  by (simp add: item_key_def item_of_def row_key_def)

lemma claim_batch_rows:
  "fst (claim_batch w n l locked now rows) =
     update_where (\<lambda>r. ob_id r \<in> set (claim_candidates locked now n rows)) (claim_row w now (now + l * 1000000)) rows"
  by (auto simp: claim_batch_def Let_def update_where_id)

lemma claim_batch_items:
  assumes "i \<in> set (snd (claim_batch w n l locked now rows))"
  shows "\<exists>r \<in> set (fst (claim_batch w n l locked now rows)). i = item_of r \<and> ob_id r \<in> set (claim_candidates locked now n rows)"
  using assms by (auto simp: claim_batch_def Let_def split: if_splits)

lemma claim_inv:
  assumes inv: "relay_inv cfg s" and cl: "claim_batch w n l locked now (ed_outbox (rs_db s)) = (rows, items)"
  shows "relay_inv cfg (s\<lparr>rs_db := (rs_db s)\<lparr>ed_outbox := rows\<rparr>, rs_flight := map (\<lambda>i. (i, Ph_claimed)) items @ rs_flight s\<rparr>)"
proof (rule relay_inv_rewrite [OF inv, where p = "\<lambda>r. ob_id r \<in> set (claim_candidates locked now n (ed_outbox (rs_db s)))"
      and f = "claim_row w now (now + l * 1000000)"])
  have rows: "rows = update_where (\<lambda>r. ob_id r \<in> set (claim_candidates locked now n (ed_outbox (rs_db s))))
      (claim_row w now (now + l * 1000000)) (ed_outbox (rs_db s))"
    using claim_batch_rows [of w n l locked now "ed_outbox (rs_db s)"] cl by simp
  then show "ed_outbox (rs_db (s\<lparr>rs_db := (rs_db s)\<lparr>ed_outbox := rows\<rparr>, rs_flight := map (\<lambda>i. (i, Ph_claimed)) items @ rs_flight s\<rparr>)) =
      update_where (\<lambda>r. ob_id r \<in> set (claim_candidates locked now n (ed_outbox (rs_db s))))
      (claim_row w now (now + l * 1000000)) (ed_outbox (rs_db s))" by simp
  fix x assume x: "x \<in> set (rs_flight (s\<lparr>rs_db := (rs_db s)\<lparr>ed_outbox := rows\<rparr>, rs_flight := map (\<lambda>i. (i, Ph_claimed)) items @ rs_flight s\<rparr>))"
  show "flight_ok (rs_broker (s\<lparr>rs_db := (rs_db s)\<lparr>ed_outbox := rows\<rparr>, rs_flight := map (\<lambda>i. (i, Ph_claimed)) items @ rs_flight s\<rparr>))
      (ed_outbox (rs_db s)) x"
  proof (cases "x \<in> set (rs_flight s)")
    case True
    then show ?thesis using inv by (simp add: relay_inv_def)
  next
    case False
    then obtain i where i: "x = (i, Ph_claimed)" "i \<in> set items" using x by auto
    then obtain r where r: "r \<in> set rows" "i = item_of r" using claim_batch_items [of i w n l locked now "ed_outbox (rs_db s)"] cl by auto
    then have "item_key i \<in> row_key ` set rows" by (simp add: item_of_key)
    moreover have "row_key ` set rows = row_key ` set (ed_outbox (rs_db s))"
      unfolding rows by (rule rewrite_keeps(3)) (rule claim_row_key)
    ultimately show ?thesis using i by (simp add: flight_ok_def)
  qed
qed (use inv in \<open>auto simp: row_key_def relay_inv_def status_ok_def claim_row_def\<close>)

lemma transport_publish_error: "transport_publish a reply = Inl exc \<Longrightarrow> transport_error exc"
  by (auto simp: transport_publish_def transport_error_def split: if_splits js_reply.splits)

lemma transport_publish_stored:
  assumes "transport_publish a reply = Inr receipt" and "broker_honest a reply stored"
  shows "stored"
  using assms by (auto simp: transport_publish_def broker_honest_def split: if_splits js_reply.splits)

lemma publish_inv:
  assumes inv: "relay_inv cfg s" and fl: "(item, Ph_claimed) \<in> set (rs_flight s)" and e: "stored_envelope item = Inr e"
    and honest: "broker_honest available reply stored"
  shows "relay_inv cfg (s\<lparr>rs_broker := (if stored then [(oi_subject item, e)] else []) @ rs_broker s,
    rs_flight := (item, Ph_done (transport_publish available reply)) # remove1 (item, Ph_claimed) (rs_flight s)\<rparr>)"
    (is "relay_inv cfg ?s'")
proof (rule relay_inv_rewrite [OF inv, where p = "\<lambda>_. False" and f = id])
  have e': "e = oi_envelope item" using e by (auto simp: stored_envelope_def split: if_splits)
  have key: "item_key item \<in> row_key ` set (ed_outbox (rs_db s))"
    using inv fl by (auto simp: relay_inv_def flight_ok_def)
  fix x assume x: "x \<in> set (rs_flight ?s')"
  show "flight_ok (rs_broker ?s') (ed_outbox (rs_db s)) x"
  proof (cases "x \<in> set (rs_flight s)")
    case True
    then have "flight_ok (rs_broker s) (ed_outbox (rs_db s)) x" using inv by (simp add: relay_inv_def)
    then show ?thesis by (auto simp: flight_ok_def split: publish_phase.splits sum.splits)
  next
    case False
    then have x': "x = (item, Ph_done (transport_publish available reply))"
      using x notin_set_remove1 [of x "rs_flight s" "(item, Ph_claimed)"] by auto
    show ?thesis
    proof (cases "transport_publish available reply")
      case (Inl exc)
      then show ?thesis using x' key transport_publish_error by (simp add: flight_ok_def)
    next
      case (Inr receipt)
      then have "stored" using honest by (rule transport_publish_stored)
      then show ?thesis using x' key Inr e' by (simp add: flight_ok_def)
    qed
  qed
qed (use inv in \<open>auto simp: relay_inv_def update_where_id\<close>)

lemma flight_shrinks:
  assumes inv: "relay_inv cfg s" and "x \<in> set (remove1 y (rs_flight s))"
  shows "flight_ok (rs_broker s) (ed_outbox (rs_db s)) x"
  using assms notin_set_remove1 [of x "rs_flight s" y] by (auto simp: relay_inv_def)

lemma crash_inv:
  assumes inv: "relay_inv cfg s"
  shows "relay_inv cfg (s\<lparr>rs_flight := remove1 entry (rs_flight s)\<rparr>)"
  using inv flight_shrinks [OF inv] by (auto simp: relay_inv_def)

text \<open>Recording a dead letter for an event that has a row.\<close>

lemma record_dead_letter_outbox:
  assumes inv: "relay_inv cfg s" and r: "r \<in> set (ed_outbox (rs_db s))" and att: "rl_max_attempts cfg \<le> k"
    and dead: "dead = fst (record_dead_letter now n (ob_envelope r) Origin_OUTBOX_PUBLISH fc code k None summary (ed_dead (rs_db s)))"
  shows "dead_lettered cfg dead (ob_envelope r)" and "dead_ok cfg dead"
    and "set (ed_dead (rs_db s)) \<subseteq> set dead"
    and "d \<in> set dead \<Longrightarrow> dl_envelope d \<in> ob_envelope ` set (ed_outbox (rs_db s))"
proof -
  let ?e = "ob_envelope r"
  have e: "key_ok cfg r" using inv r by (simp add: relay_inv_def)
  have ok: "dead_ok cfg (ed_dead (rs_db s))"
    and env: "\<And>d. d \<in> set (ed_dead (rs_db s)) \<Longrightarrow> dl_envelope d \<in> ob_envelope ` set (ed_outbox (rs_db s))"
    using inv by (auto simp: relay_inv_def)
  have "dead_lettered cfg dead ?e \<and> dead_ok cfg dead \<and> set (ed_dead (rs_db s)) \<subseteq> set dead \<and>
     (\<forall>d \<in> set dead. dl_envelope d \<in> ob_envelope ` set (ed_outbox (rs_db s)))"
  proof (cases "list_ex (dead_letter_known (ev_id ?e) Origin_OUTBOX_PUBLISH None) (ed_dead (rs_db s))")
    case True
    then have same: "dead = ed_dead (rs_db s)" using dead e by (simp add: record_dead_letter_def key_ok_def)
    obtain d where d: "d \<in> set dead" "dl_event_id d = ev_id ?e" "dl_origin d = Origin_OUTBOX_PUBLISH"
      using True same by (auto simp: list_ex_iff dead_letter_known_def)
    obtain r' where r': "r' \<in> set (ed_outbox (rs_db s))" "dl_envelope d = ob_envelope r'" using env d same by blast
    have "ob_id r' = ob_id r"
      using d r' ok same e inv by (auto simp: dead_ok_def relay_inv_def key_ok_def)
    then have "r' = r" using inv r r' distinct_map_inj unfolding relay_inv_def by metis
    then have "dead_lettered cfg dead ?e"
      unfolding dead_lettered_def using d r' ok same by (intro bexI [of _ d]) (simp_all add: dead_ok_def)
    then show ?thesis using ok env same by simp
  next
    case False
    then obtain d where d: "dead = ed_dead (rs_db s) @ [d]" "dl_event_id d = ev_id ?e" "dl_envelope d = ?e"
        "dl_origin d = Origin_OUTBOX_PUBLISH" "dl_attempt_count d = k" "dl_consumer_name d = None"
      using dead e by (simp add: record_dead_letter_def key_ok_def)
    have "ev_id ?e \<notin> set (map dl_event_id (ed_dead (rs_db s)))"
      using False ok by (auto simp: list_ex_iff dead_letter_known_def dead_ok_def)
    then show ?thesis using d ok env att e r by (auto simp: dead_lettered_def dead_ok_def key_ok_def)
  qed
  then show "dead_lettered cfg dead ?e" "dead_ok cfg dead" "set (ed_dead (rs_db s)) \<subseteq> set dead"
    and "d \<in> set dead \<Longrightarrow> dl_envelope d \<in> ob_envelope ` set (ed_outbox (rs_db s))" by blast+
qed

lemma flight_row:
  assumes inv: "relay_inv cfg s" and fl: "(item, ph) \<in> set (rs_flight s)"
  obtains r where "r \<in> set (ed_outbox (rs_db s))" "row_key r = item_key item" "stored_envelope item = Inr (ob_envelope r)"
    "ob_id r = oi_id item" "key_ok cfg r"
proof -
  have "item_key item \<in> row_key ` set (ed_outbox (rs_db s))" using inv fl by (auto simp: relay_inv_def flight_ok_def)
  then obtain r where r: "r \<in> set (ed_outbox (rs_db s))" "row_key r = item_key item" by force
  then have k: "key_ok cfg r" using inv by (simp add: relay_inv_def)
  then have "envelope_valid (oi_envelope item)" "oi_envelope item = ob_envelope r" "ob_id r = oi_id item"
    using r(2) by (auto simp: row_key_def item_key_def key_ok_def)
  then show ?thesis using that r k by (simp add: stored_envelope_def)
qed

lemma flight_retryable:
  assumes "relay_inv cfg s" and "(item, Ph_done (Inl exc)) \<in> set (rs_flight s)"
  shows "classify_failure exc = Retryable"
proof -
  have "flight_ok (rs_broker s) (ed_outbox (rs_db s)) (item, Ph_done (Inl exc))" using assms by (simp add: relay_inv_def)
  then show ?thesis by (auto simp: flight_ok_def transport_error_def classify_failure_def)
qed

lemma same_row:
  assumes "relay_inv cfg s" "r \<in> set (ed_outbox (rs_db s))" "x \<in> set (ed_outbox (rs_db s))" "ob_id x = ob_id r"
  shows "x = r"
  using assms distinct_map_inj unfolding relay_inv_def by metis

lemma settle_inv:
  assumes inv: "relay_inv cfg s" and fl: "(item, Ph_done answer) \<in> set (rs_flight s)"
  shows "relay_inv cfg (s\<lparr>rs_db := settle_item cfg now item answer (rs_db s), rs_flight := remove1 (item, Ph_done answer) (rs_flight s)\<rparr>)"
    (is "relay_inv cfg ?s'")
proof -
  obtain r where r: "r \<in> set (ed_outbox (rs_db s))" "row_key r = item_key item" "stored_envelope item = Inr (ob_envelope r)"
    "ob_id r = oi_id item" using flight_row [OF inv fl] by metis
  have fok: "flight_ok (rs_broker s) (ed_outbox (rs_db s)) (item, Ph_done answer)" using inv fl by (simp add: relay_inv_def)
  have only: "x = r" if "x \<in> set (ed_outbox (rs_db s))" "ob_id x = oi_id item" for x
    using same_row [OF inv r(1) that(1)] that r(4) by simp
  have shr: "flight_ok (rs_broker s) (ed_outbox (rs_db s)) x" if "x \<in> set (remove1 (item, Ph_done answer) (rs_flight s))" for x
    using flight_shrinks [OF inv that] .
  have old: "dead_ok cfg (ed_dead (rs_db s))"
    "\<And>d. d \<in> set (ed_dead (rs_db s)) \<Longrightarrow> dl_envelope d \<in> ob_envelope ` set (ed_outbox (rs_db s))"
    using inv by (auto simp: relay_inv_def)
  show ?thesis
  proof (cases answer)
    case (Inr receipt)
    have b: "(ob_subject r, ob_envelope r) \<in> set (rs_broker s)"
      using fok Inr r(2) by (simp add: flight_ok_def row_key_def item_key_def)
    show ?thesis
    proof (rule relay_inv_rewrite [OF inv, where p = "\<lambda>r. ob_id r = oi_id item" and f = "\<lambda>r. r\<lparr>ob_status := Ob_PUBLISHED,
          ob_last_error_code := None, ob_lease_owner := None, ob_lease_expires_at := None, ob_published_at := Some now, ob_updated_at := now\<rparr>"])
      fix x assume "x \<in> set (ed_outbox (rs_db s))" "ob_id x = oi_id item"
      then have "x = r" by (rule only)
      then show "status_ok cfg (rs_broker ?s') (ed_dead (rs_db ?s'))
         (x\<lparr>ob_status := Ob_PUBLISHED, ob_last_error_code := None, ob_lease_owner := None, ob_lease_expires_at := None,
            ob_published_at := Some now, ob_updated_at := now\<rparr>)" using b by (simp add: status_ok_def)
    qed (use Inr r shr old in \<open>simp_all add: settle_item_def mark_published_def row_key_def\<close>)
  next
    case (Inl exc)
    have retry: "classify_failure exc = Retryable" using flight_retryable [OF inv] fl Inl by simp
    show ?thesis
    proof (cases "should_dead_letter (oi_attempt_count item) (rl_max_attempts cfg)")
      case False
      show ?thesis
        by (rule relay_inv_rewrite [OF inv, where p = "\<lambda>r. ob_id r = oi_id item" and f = "\<lambda>r. r\<lparr>ob_status := Ob_FAILED,
            ob_available_at := now + seconds (backoff_delay (oi_attempt_count item) (rl_base_delay cfg) (rl_max_delay cfg)),
            ob_last_error_code := Some (take 64 (safe_error_code exc)), ob_lease_owner := None, ob_lease_expires_at := None, ob_updated_at := now\<rparr>"])
          (use Inl r retry False shr old in \<open>simp_all add: settle_item_def handle_transient_def reschedule_def row_key_def status_ok_def\<close>)
    next
      case True
      define dead where "dead = fst (record_dead_letter now (ed_next (rs_db s)) (ob_envelope r) Origin_OUTBOX_PUBLISH
        (classify_failure exc) (safe_error_code exc) (oi_attempt_count item) None (Some (safe_error_summary exc)) (ed_dead (rs_db s)))"
      have att: "rl_max_attempts cfg \<le> oi_attempt_count item" using True by (simp add: should_dead_letter_def)
      note D = record_dead_letter_outbox [OF inv r(1) att dead_def]
      have db: "settle_item cfg now item answer (rs_db s) = (rs_db s)\<lparr>ed_outbox := mark_dead now (oi_id item) (safe_error_code exc)
          (ed_outbox (rs_db s)), ed_dead := dead, ed_next := ed_next (rs_db s) + 1\<rparr>"
        using Inl r(3) retry True by (simp add: settle_item_def handle_transient_def dead_letter_item_def dead_def)
      show ?thesis
      proof (rule relay_inv_rewrite [OF inv, where p = "\<lambda>r. ob_id r = oi_id item" and f = "\<lambda>r. r\<lparr>ob_status := Ob_DEAD,
            ob_last_error_code := Some (take 64 (safe_error_code exc)), ob_lease_owner := None, ob_lease_expires_at := None, ob_updated_at := now\<rparr>"])
        fix x assume "x \<in> set (ed_outbox (rs_db s))" "ob_id x = oi_id item"
        then have "x = r" by (rule only)
        then show "status_ok cfg (rs_broker ?s') (ed_dead (rs_db ?s'))
           (x\<lparr>ob_status := Ob_DEAD, ob_last_error_code := Some (take 64 (safe_error_code exc)), ob_lease_owner := None,
              ob_lease_expires_at := None, ob_updated_at := now\<rparr>)" using D(1) db by (simp add: status_ok_def)
      next
        fix e assume "dead_lettered cfg (ed_dead (rs_db s)) e"
        then show "dead_lettered cfg (ed_dead (rs_db ?s')) e" using D(3) db by (auto simp: dead_lettered_def)
      qed (use D shr db in \<open>simp_all add: mark_dead_def row_key_def\<close>)
    qed
  qed
qed

lemma replay_inv:
  assumes inv: "relay_inv cfg s" and rp: "replay_outbox cfg now did (rs_db s) = Some db"
  shows "relay_inv cfg (s\<lparr>rs_db := db\<rparr>)"
proof -
  obtain d where "pending_dead_letter did (ed_dead (rs_db s)) = Some d"
    using rp by (auto simp: replay_outbox_def split: option.splits)
  then have rows: "ed_outbox db = update_where (\<lambda>r. ob_id r = ev_id (dl_envelope d)) (rearm_row now) (ed_outbox (rs_db s))"
    and dead: "ed_dead db = mark_replayed now did (ed_dead (rs_db s))"
    using rp by (auto simp: replay_outbox_def split: if_splits sum.splits)
  have keep: "map f (ed_dead db) = map f (ed_dead (rs_db s))" if "\<And>d. f (d\<lparr>dl_replayed_at := Some now\<rparr>) = f d" for f :: "dead_letter \<Rightarrow> 'z"
    unfolding dead mark_replayed_def by (rule map_update_where) (rule that)
  have from_old: "\<exists>d0 \<in> set (ed_dead (rs_db s)). d = d0 \<or> d = d0\<lparr>dl_replayed_at := Some now\<rparr>" if "d \<in> set (ed_dead db)" for d
    using that unfolding dead mark_replayed_def set_update_where by auto
  have forth: "d \<in> set (ed_dead db) \<or> d\<lparr>dl_replayed_at := Some now\<rparr> \<in> set (ed_dead db)" if "d \<in> set (ed_dead (rs_db s))" for d
    using that unfolding dead mark_replayed_def set_update_where by (cases "dl_id d = did") (auto intro: rev_image_eqI)
  have ok: "dead_ok cfg (ed_dead (rs_db s))" using inv by (simp add: relay_inv_def)
  have "dead_ok cfg (ed_dead db)"
    unfolding dead_ok_def
  proof (intro conjI ballI)
    show "distinct (map dl_event_id (ed_dead db))" using ok keep [of dl_event_id] by (simp add: dead_ok_def)
  qed (use ok from_old in \<open>fastforce simp: dead_ok_def\<close>)+
  show ?thesis
  proof (rule relay_inv_rewrite [OF inv, where p = "\<lambda>r. ob_id r = ev_id (dl_envelope d)" and f = "rearm_row now"])
    show "dead_lettered cfg (ed_dead (rs_db (s\<lparr>rs_db := db\<rparr>))) e" if "dead_lettered cfg (ed_dead (rs_db s)) e" for e
    proof -
      obtain x where x: "x \<in> set (ed_dead (rs_db s))" "dl_event_id x = ev_id e" "dl_envelope x = e"
        "dl_origin x = Origin_OUTBOX_PUBLISH" "rl_max_attempts cfg \<le> dl_attempt_count x"
        using \<open>dead_lettered cfg (ed_dead (rs_db s)) e\<close> by (auto simp: dead_lettered_def)
      consider "x \<in> set (ed_dead db)" | "x\<lparr>dl_replayed_at := Some now\<rparr> \<in> set (ed_dead db)" using forth [OF x(1)] by blast
      then obtain y where "y \<in> set (ed_dead db)" "y = x \<or> y = x\<lparr>dl_replayed_at := Some now\<rparr>" by cases auto
      then show ?thesis unfolding dead_lettered_def using x(2-5) by (intro bexI [of _ y]) auto
    qed
    show "dl_envelope x \<in> ob_envelope ` set (ed_outbox (rs_db s))" if "x \<in> set (ed_dead (rs_db (s\<lparr>rs_db := db\<rparr>)))" for x
      using that from_old [of x] inv by (auto simp: relay_inv_def)
    show "flight_ok (rs_broker (s\<lparr>rs_db := db\<rparr>)) (ed_outbox (rs_db s)) x" if "x \<in> set (rs_flight (s\<lparr>rs_db := db\<rparr>))" for x
      using that inv by (simp add: relay_inv_def)
  qed (use rows \<open>dead_ok cfg (ed_dead db)\<close> in \<open>simp_all add: rearm_row_def row_key_def status_ok_def\<close>)
qed

interpretation relay_system: transition_system "\<lambda>x. snd x = relay_init" "relay_step cfg" "\<lambda>x. relay_inv cfg (snd x)" for cfg
proof unfold_locales
  fix x y assume "relay_step cfg x y" and inv: "relay_inv cfg (snd x)"
  then show "relay_inv cfg (snd y)"
  proof cases
    case (step_reject t now item s exc answer)
    then show ?thesis using flight_row [of cfg s item Ph_claimed] inv by auto
  next
    case (step_enqueue t now e tenant s rows fresh)
    have "relay_inv cfg s" using inv step_enqueue(1) by simp
    from enqueue_inv [OF this step_enqueue(4,5)] show ?thesis unfolding step_enqueue(2) snd_conv .
  next
    case (step_publish t now item s e available reply stored)
    have "relay_inv cfg s" using inv step_publish(1) by simp
    from publish_inv [OF this step_publish(4-6)] show ?thesis unfolding step_publish(2) snd_conv .
  qed (use inv in \<open>auto intro: enqueue_inv claim_inv publish_inv settle_inv crash_inv replay_inv\<close>)
qed (simp add: relay_inv_init)

lemma relay_reachable_inv: "relay_reachable cfg t s \<Longrightarrow> relay_inv cfg s"
  using relay_system.reach_inv [where cfg = cfg] by fastforce

section \<open>No event is lost\<close>

lemma filter_unique:
  assumes "distinct (map f xs)" and "x \<in> set xs"
  shows "filter (\<lambda>y. f y = f x) xs = [x]"
  using assms
proof (induction xs)
  case (Cons a xs)
  show ?case
  proof (cases "a = x")
    case True
    then have "filter (\<lambda>y. f y = f x) xs = []" using Cons.prems by (auto simp: filter_empty_conv image_iff)
    then show ?thesis using True by simp
  next
    case False
    then show ?thesis using Cons by (auto simp: image_iff)
  qed
qed simp

text \<open>
  C29: Whatever the interleaving of producers, workers, crashes, lost acknowledgements and
  replays, an enqueued event keeps exactly one row with its envelope and subject unchanged.
  A row is marked published only if the broker stored the event, marked dead only if a dead
  letter carries the event after the attempt budget, and being published it holds a lease.
\<close>

theorem outbox_never_loses:
  assumes "relay_reachable cfg t s" and "e \<in> set (rs_enqueued s)"
  shows "\<exists>r. filter (\<lambda>x. ob_id x = ev_id e) (ed_outbox (rs_db s)) = [r] \<and> ob_envelope r = e \<and> subject_for cfg e = Inr (ob_subject r) \<and>
    (case ob_status r of
       Ob_PUBLISHED \<Rightarrow> (ob_subject r, e) \<in> set (rs_broker s)
     | Ob_DEAD \<Rightarrow> dead_lettered cfg (ed_dead (rs_db s)) e
     | Ob_PUBLISHING \<Rightarrow> ob_lease_expires_at r \<noteq> None
     | _ \<Rightarrow> True)"
proof -
  have inv: "relay_inv cfg s" using assms(1) by (rule relay_reachable_inv)
  then have "e \<in> ob_envelope ` set (ed_outbox (rs_db s))" using assms(2) by (simp add: relay_inv_def)
  then obtain r where r: "r \<in> set (ed_outbox (rs_db s))" "ob_envelope r = e" by blast
  then have k: "key_ok cfg r" "status_ok cfg (rs_broker s) (ed_dead (rs_db s)) r" using inv by (auto simp: relay_inv_def)
  have "distinct (map ob_id (ed_outbox (rs_db s)))" using inv by (simp add: relay_inv_def)
  then have "filter (\<lambda>x. ob_id x = ob_id r) (ed_outbox (rs_db s)) = [r]" using r(1) by (rule filter_unique)
  then show ?thesis using k r by (auto simp: key_ok_def status_ok_def)
qed

section \<open>Draining\<close>

definition wake :: "outbox_row \<Rightarrow> time" where
  "wake r = (case ob_status r of
     Ob_PUBLISHING \<Rightarrow> (case ob_lease_expires_at r of None \<Rightarrow> ob_available_at r | Some l \<Rightarrow> l)
   | _ \<Rightarrow> ob_available_at r)"

definition acknowledges :: "js_reply \<Rightarrow> bool" where
  "acknowledges reply = (case reply of Js_ack stream _ _ \<Rightarrow> stream \<noteq> [] | Js_raises _ \<Rightarrow> False)"

definition responsive :: "outbox_row list \<Rightarrow> relay_env \<Rightarrow> bool" where
  "responsive rows w \<longleftrightarrow> re_available w \<and> re_locked w = [] \<and> (\<forall>i. acknowledges (re_reply w i)) \<and>
     (\<forall>r \<in> set rows. unfinished r \<longrightarrow> wake r \<le> re_now w)"

definition drainable :: "outbox_row list \<Rightarrow> bool" where
  "drainable rows \<longleftrightarrow> distinct (map ob_id rows) \<and>
     (\<forall>r \<in> set rows. envelope_valid (ob_envelope r) \<and> (ob_status r = Ob_PUBLISHING \<longrightarrow> ob_lease_expires_at r \<noteq> None))"

definition published_row :: "time \<Rightarrow> outbox_row \<Rightarrow> outbox_row" where
  "published_row now r = r\<lparr>ob_status := Ob_PUBLISHED, ob_last_error_code := None, ob_lease_owner := None, ob_lease_expires_at := None,
          ob_published_at := Some now, ob_updated_at := now\<rparr>"

lemma publish_one_ack:
  assumes "acknowledges (re_reply w i)" "re_available w" "envelope_valid (oi_envelope i)"
  shows "publish_one cfg w i db = db\<lparr>ed_outbox := update_where (\<lambda>r. ob_id r = oi_id i) (published_row (re_settle w i)) (ed_outbox db)\<rparr>"
  using assms
  by (auto simp: publish_one_def settle_item_def stored_envelope_def transport_publish_def acknowledges_def mark_published_def
      published_row_def [abs_def] split: js_reply.splits)

lemma publish_batch_ack:
  assumes "\<forall>i. acknowledges (re_reply w i)" "re_available w" "\<forall>i \<in> set items. envelope_valid (oi_envelope i)"
  shows "\<exists>h. ed_outbox (fold (publish_one cfg w) items db) = map h (ed_outbox db) \<and>
    (\<forall>r. row_key (h r) = row_key r \<and>
       (if ob_id r \<in> oi_id ` set items then ob_status (h r) = Ob_PUBLISHED else h r = r))"
  using assms(3)
proof (induction items arbitrary: db)
  case Nil
  then show ?case by (intro exI [of _ id]) simp
next
  case (Cons i items)
  let ?f = "\<lambda>r. if ob_id r = oi_id i then published_row (re_settle w i) r else r"
  obtain h where h: "ed_outbox (fold (publish_one cfg w) items (publish_one cfg w i db)) = map h (ed_outbox (publish_one cfg w i db))"
    "\<And>r. row_key (h r) = row_key r" "\<And>r. if ob_id r \<in> oi_id ` set items then ob_status (h r) = Ob_PUBLISHED else h r = r"
    using Cons.IH [of "publish_one cfg w i db"] Cons.prems by auto
  have one: "ed_outbox (publish_one cfg w i db) = map ?f (ed_outbox db)"
    using publish_one_ack [of w i cfg db] assms(1,2) Cons.prems by (simp add: update_where_def)
  have keep: "row_key (?f r) = row_key r" "ob_id (?f r) = ob_id r" for r by (simp_all add: published_row_def row_key_def)
  have st: "ob_id r = oi_id i \<Longrightarrow> ob_status (?f r) = Ob_PUBLISHED" for r by (simp add: published_row_def)
  show ?case
  proof (intro exI [of _ "h \<circ> ?f"] conjI allI)
    show "ed_outbox (fold (publish_one cfg w) (i # items) db) = map (h \<circ> ?f) (ed_outbox db)" using h(1) one by simp
    fix r
    show "row_key ((h \<circ> ?f) r) = row_key r" using h(2) [of "?f r"] keep(1) [of r] by (simp only: o_apply)
    show "if ob_id r \<in> oi_id ` set (i # items) then ob_status ((h \<circ> ?f) r) = Ob_PUBLISHED else (h \<circ> ?f) r = r"
      using h(3) [of "?f r"] keep(2) [of r] st [of r] by (auto simp: o_def split: if_splits)
  qed
qed

lemma due_unfinished: "outbox_due now r \<Longrightarrow> unfinished r"
  by (auto simp: outbox_due_def unfinished_def)

lemma wake_due: "unfinished r \<Longrightarrow> (ob_status r = Ob_PUBLISHING \<longrightarrow> ob_lease_expires_at r \<noteq> None) \<Longrightarrow> wake r \<le> now \<Longrightarrow> outbox_due now r"
  by (auto simp: outbox_due_def unfinished_def wake_def split: outbox_status.splits option.splits)

lemma candidates_all_due:
  assumes "drainable rows" and "responsive rows w"
  shows "claim_candidates (re_locked w) (re_now w) n rows = map ob_id (take n (sort_key ob_available_at (filter unfinished rows)))"
proof -
  have "filter (\<lambda>r. outbox_due (re_now w) r \<and> ob_id r \<notin> set (re_locked w)) rows = filter unfinished rows"
    using assms wake_due due_unfinished by (intro filter_cong) (auto simp: drainable_def responsive_def)
  then show ?thesis by (simp add: claim_candidates_def)
qed

lemma length_filter_ids:
  assumes "distinct (map f xs)" and "distinct ids" and "set ids \<subseteq> f ` set xs"
  shows "length (filter (\<lambda>x. f x \<in> set ids) xs) = length ids"
proof -
  let ?ys = "map f (filter (\<lambda>x. f x \<in> set ids) xs)"
  have "length (filter (\<lambda>x. f x \<in> set ids) xs) = length ?ys" by simp
  also have "\<dots> = card (set ?ys)" using assms(1) by (metis distinct_card distinct_map_filter)
  also have "set ?ys = set ids" using assms(3) by auto
  finally show ?thesis using assms(2) by (simp add: distinct_card)
qed

definition batch_ids :: "nat \<Rightarrow> outbox_row list \<Rightarrow> uuid list" where
  "batch_ids n rows = map ob_id (take n (sort_key ob_available_at (filter unfinished rows)))"

lemma batch_ids:
  assumes "distinct (map ob_id rows)"
  shows "distinct (batch_ids n rows)" and "length (batch_ids n rows) = min n (pending_count rows)"
    and "set (batch_ids n rows) \<subseteq> ob_id ` {r \<in> set rows. unfinished r}"
proof -
  have "distinct (map ob_id (filter unfinished rows))" using assms by (simp add: distinct_map_filter)
  then have "distinct (map ob_id (sort_key ob_available_at (filter unfinished rows)))" by (simp add: distinct_map)
  then show "distinct (batch_ids n rows)" unfolding batch_ids_def by (metis distinct_take take_map)
  show "length (batch_ids n rows) = min n (pending_count rows)" by (simp add: batch_ids_def pending_count_def)
  show "set (batch_ids n rows) \<subseteq> ob_id ` {r \<in> set rows. unfinished r}"
    using in_set_takeD unfolding batch_ids_def by fastforce
qed

text \<open>One cycle against a responsive broker publishes a batch of the unfinished rows and touches no other row.\<close>

lemma run_once_form:
  assumes d: "drainable (ed_outbox db)" and resp: "responsive (ed_outbox db) w"
    and run: "run_once cfg worker w db = (db', k)"
  shows "\<exists>g. ed_outbox db' = map g (ed_outbox db) \<and>
    (\<forall>r. row_key (g r) = row_key r \<and>
      (if ob_id r \<in> set (batch_ids (rl_batch_size cfg) (ed_outbox db)) then ob_status (g r) = Ob_PUBLISHED else g r = r)) \<and>
    k = length (filter (\<lambda>r. ob_id r \<in> set (batch_ids (rl_batch_size cfg) (ed_outbox db))) (ed_outbox db))"
proof -
  let ?n = "rl_batch_size cfg" and ?rows = "ed_outbox db"
  define ids where "ids = batch_ids ?n ?rows"
  have cand: "claim_candidates (re_locked w) (re_now w) ?n ?rows = ids"
    unfolding ids_def batch_ids_def by (rule candidates_all_due [OF d resp])
  have sub: "set ids \<subseteq> ob_id ` set ?rows" using batch_ids(3) [of ?rows ?n] d by (auto simp: drainable_def ids_def)
  define c where "c = (\<lambda>r. if ob_id r \<in> set ids then claim_row (take 64 worker) (re_now w) (re_now w + rl_lease_seconds cfg * 1000000) r else r)"
  define picked where "picked = map c (filter (\<lambda>r. ob_id r \<in> set ids) ?rows)"
  have ckey: "row_key (c r) = row_key r" for r by (simp add: c_def claim_row_key)
  then have cid: "ob_id (c r) = ob_id r" for r by (simp add: row_key_def)
  have picked: "filter (\<lambda>r. ob_id r \<in> set ids) (map c ?rows) = picked" by (simp add: picked_def filter_map o_def cid)
  have claim: "claim_batch (take 64 worker) ?n (rl_lease_seconds cfg) (re_locked w) (re_now w) ?rows = (map c ?rows, map item_of picked)"
  proof (cases "ids = []")
    case True
    then show ?thesis using cand by (simp add: claim_batch_def Let_def picked_def c_def map_idI)
  next
    case False
    then have "claim_batch (take 64 worker) ?n (rl_lease_seconds cfg) (re_locked w) (re_now w) ?rows =
        (map c ?rows, map item_of (filter (\<lambda>r. ob_id r \<in> set ids) (map c ?rows)))"
      by (simp add: claim_batch_def Let_def cand c_def update_where_def)
    then show ?thesis unfolding picked .
  qed
  have env: "\<forall>i \<in> set (map item_of picked). envelope_valid (oi_envelope i)"
    using d ckey by (auto simp: picked_def item_of_def drainable_def row_key_def)
  have "oi_id ` set (map item_of picked) = ob_id ` {r \<in> set ?rows. ob_id r \<in> set ids}"
    by (auto simp: picked_def image_image item_of_def cid)
  then have item_ids: "oi_id ` set (map item_of picked) = set ids" using sub by auto
  from publish_batch_ack [of w "map item_of picked" cfg "db\<lparr>ed_outbox := map c ?rows\<rparr>", OF _ _ env] resp
  obtain h where h: "ed_outbox (fold (publish_one cfg w) (map item_of picked) (db\<lparr>ed_outbox := map c ?rows\<rparr>)) = map h (map c ?rows)"
    and hr: "\<forall>r. row_key (h r) = row_key r \<and> (if ob_id r \<in> set ids then ob_status (h r) = Ob_PUBLISHED else h r = r)"
    unfolding item_ids responsive_def by auto
  have "ed_outbox db' = map (h \<circ> c) ?rows" and "k = length picked" using run claim h by (auto simp: run_once_def)
  moreover have "row_key ((h \<circ> c) r) = row_key r \<and> (if ob_id r \<in> set ids then ob_status ((h \<circ> c) r) = Ob_PUBLISHED else (h \<circ> c) r = r)" for r
    using hr [rule_format, of "c r"] ckey [of r] cid [of r] by (auto simp: c_def split: if_splits)
  moreover have "length picked = length (filter (\<lambda>r. ob_id r \<in> set ids) ?rows)" by (simp add: picked_def)
  ultimately show ?thesis unfolding ids_def [symmetric] by (intro exI [of _ "h \<circ> c"]) blast
qed

lemma run_once_ack:
  assumes d: "drainable (ed_outbox db)" and resp: "responsive (ed_outbox db) w"
    and run: "run_once cfg worker w db = (db', k)"
  shows "k = min (rl_batch_size cfg) (pending_count (ed_outbox db))"
    and "pending_count (ed_outbox db') = pending_count (ed_outbox db) - k"
    and "\<forall>r \<in> set (ed_outbox db'). r \<in> set (ed_outbox db) \<or> ob_status r = Ob_PUBLISHED"
    and "drainable (ed_outbox db')" and "map row_key (ed_outbox db') = map row_key (ed_outbox db)"
proof -
  let ?rows = "ed_outbox db"
  define ids where "ids = batch_ids (rl_batch_size cfg) ?rows"
  have dist: "distinct (map ob_id ?rows)" using d by (simp add: drainable_def)
  note B = batch_ids [OF dist, of "rl_batch_size cfg", folded ids_def]
  obtain g where db': "ed_outbox db' = map g ?rows" and key: "\<And>r. row_key (g r) = row_key r"
    and stat: "\<And>r. if ob_id r \<in> set ids then ob_status (g r) = Ob_PUBLISHED else g r = r"
    and k: "k = length (filter (\<lambda>r. ob_id r \<in> set ids) ?rows)"
    using run_once_form [OF d resp run, folded ids_def] by blast
  show keys: "map row_key (ed_outbox db') = map row_key ?rows" using key by (simp add: db')
  show old: "\<forall>r \<in> set (ed_outbox db'). r \<in> set ?rows \<or> ob_status r = Ob_PUBLISHED"
  proof
    fix r assume "r \<in> set (ed_outbox db')"
    then obtain r0 where "r0 \<in> set ?rows" "r = g r0" by (auto simp: db')
    then show "r \<in> set ?rows \<or> ob_status r = Ob_PUBLISHED" using stat [of r0] by (auto split: if_splits)
  qed
  have "map fst (map row_key (ed_outbox db')) = map fst (map row_key ?rows)" using keys by simp
  then have "distinct (map ob_id (ed_outbox db'))" using dist by (simp add: row_key_def o_def)
  moreover have "envelope_valid (ob_envelope r)" if "r \<in> set (ed_outbox db')" for r
  proof -
    from that obtain r0 where "r0 \<in> set ?rows" "r = g r0" by (auto simp: db')
    then show ?thesis using d key [of r0] by (auto simp: drainable_def row_key_def)
  qed
  ultimately show "drainable (ed_outbox db')" using d old by (fastforce simp: drainable_def)
  have kl: "k = length ids" unfolding k using length_filter_ids [OF dist B(1)] B(3) by blast
  then show "k = min (rl_batch_size cfg) (pending_count ?rows)" using B(2) by simp
  have picks: "unfinished r" if "r \<in> set ?rows" "ob_id r \<in> set ids" for r
    using B(3) that dist distinct_map_inj [of ob_id ?rows] by blast
  have unf: "unfinished (g r) \<longleftrightarrow> unfinished r \<and> ob_id r \<notin> set ids" for r
  proof (cases "ob_id r \<in> set ids")
    case True
    then show ?thesis using stat [of r] by (simp add: unfinished_def)
  qed (use stat [of r] in simp)
  have "filter (\<lambda>r. ob_id r \<in> set ids) (filter unfinished ?rows) = filter (\<lambda>r. ob_id r \<in> set ids) ?rows"
    using picks by (auto intro: filter_cong)
  then have "length (filter unfinished ?rows) = k + length (filter (\<lambda>r. unfinished r \<and> ob_id r \<notin> set ids) ?rows)"
    using sum_length_filter_compl [of "\<lambda>r. ob_id r \<in> set ids" "filter unfinished ?rows"] k by (simp add: conj_commute)
  then show "pending_count (ed_outbox db') = pending_count ?rows - k"
    by (simp add: pending_count_def db' filter_map o_def unf)
qed

lemma drain_now_ack:
  assumes "drainable (ed_outbox db)" and "\<forall>w \<in> set ws. responsive (ed_outbox db) w" and "1 \<le> rl_batch_size cfg"
    and "pending_count (ed_outbox db) \<le> length ws * rl_batch_size cfg" and "drain_now cfg worker ws db = (db', cnt)"
  shows "cnt = pending_count (ed_outbox db) \<and> pending_count (ed_outbox db') = 0 \<and>
    map row_key (ed_outbox db') = map row_key (ed_outbox db) \<and>
    (\<forall>r \<in> set (ed_outbox db'). r \<in> set (ed_outbox db) \<or> ob_status r = Ob_PUBLISHED)"
  using assms
proof (induction ws arbitrary: db db' cnt)
  case Nil
  then show ?case by simp
next
  case (Cons w ws)
  obtain db1 k where one: "run_once cfg worker w db = (db1, k)" by fastforce
  have "responsive (ed_outbox db) w" using Cons.prems(2) by simp
  note R = run_once_ack [OF Cons.prems(1) this one]
  show ?case
  proof (cases "k = 0")
    case True
    then have "pending_count (ed_outbox db) = 0" using R(1) Cons.prems(3) by simp
    then show ?thesis using True R Cons.prems(5) one by simp
  next
    case False
    obtain db2 cnt' where rest: "drain_now cfg worker ws db1 = (db2, cnt')" by fastforce
    have "\<forall>w' \<in> set ws. responsive (ed_outbox db1) w'"
    proof
      fix w' assume "w' \<in> set ws"
      then have w': "responsive (ed_outbox db) w'" using Cons.prems(2) by simp
      have "wake r \<le> re_now w'" if "r \<in> set (ed_outbox db1)" "unfinished r" for r
        using that R(3) w' by (auto simp: responsive_def unfinished_def)
      then show "responsive (ed_outbox db1) w'" using w' by (simp add: responsive_def)
    qed
    moreover have "pending_count (ed_outbox db1) \<le> length ws * rl_batch_size cfg"
      using R(1,2) Cons.prems(4) by (simp add: min_def split: if_splits)
    ultimately have "cnt' = pending_count (ed_outbox db1) \<and> pending_count (ed_outbox db2) = 0 \<and>
       map row_key (ed_outbox db2) = map row_key (ed_outbox db1) \<and>
       (\<forall>r \<in> set (ed_outbox db2). r \<in> set (ed_outbox db1) \<or> ob_status r = Ob_PUBLISHED)"
      using Cons.IH [OF R(4) _ Cons.prems(3) _ rest] by blast
    moreover have "db' = db2" "cnt = k + cnt'" using Cons.prems(5) one rest False by auto
    moreover have "k \<le> pending_count (ed_outbox db)" using R(1) by simp
    ultimately show ?thesis using R(2,3,5) by auto
  qed
qed

text \<open>
  C30: Once the broker acknowledges again and every delay and lease has run out, draining
  publishes every unfinished row of a reachable state: it settles exactly that many rows,
  loses none, and what was not published before it is published or had been dead-lettered.
\<close>

theorem drain_publishes_all:
  assumes "relay_config_ok cfg" and "relay_reachable cfg t s"
    and "\<forall>w \<in> set ws. responsive (ed_outbox (rs_db s)) w"
    and "pending_count (ed_outbox (rs_db s)) \<le> length ws * rl_batch_size cfg"
    and "drain_now cfg worker ws (rs_db s) = (db', cnt)"
  shows "cnt = pending_count (ed_outbox (rs_db s)) \<and> pending_count (ed_outbox db') = 0 \<and>
    map row_key (ed_outbox db') = map row_key (ed_outbox (rs_db s)) \<and>
    (\<forall>r \<in> set (ed_outbox db'). ob_status r = Ob_PUBLISHED \<or> ob_status r = Ob_DEAD \<and> r \<in> set (ed_outbox (rs_db s)))"
proof -
  have inv: "relay_inv cfg s" using assms(2) by (rule relay_reachable_inv)
  have "status_ok cfg (rs_broker s) (ed_dead (rs_db s)) r \<and> key_ok cfg r" if "r \<in> set (ed_outbox (rs_db s))" for r
    using inv that by (simp add: relay_inv_def)
  then have "envelope_valid (ob_envelope r) \<and> (ob_status r = Ob_PUBLISHING \<longrightarrow> ob_lease_expires_at r \<noteq> None)"
    if "r \<in> set (ed_outbox (rs_db s))" for r
    using that by (force simp: status_ok_def key_ok_def)
  moreover have "distinct (map ob_id (ed_outbox (rs_db s)))" using inv by (simp add: relay_inv_def)
  ultimately have "drainable (ed_outbox (rs_db s))" by (simp add: drainable_def)
  moreover have "1 \<le> rl_batch_size cfg" using assms(1) by (simp add: relay_config_ok_def)
  ultimately have D: "cnt = pending_count (ed_outbox (rs_db s)) \<and> pending_count (ed_outbox db') = 0 \<and>
    map row_key (ed_outbox db') = map row_key (ed_outbox (rs_db s)) \<and>
    (\<forall>r \<in> set (ed_outbox db'). r \<in> set (ed_outbox (rs_db s)) \<or> ob_status r = Ob_PUBLISHED)"
    using drain_now_ack assms(3-5) by blast
  have "ob_status r = Ob_PUBLISHED \<or> ob_status r = Ob_DEAD \<and> r \<in> set (ed_outbox (rs_db s))" if r: "r \<in> set (ed_outbox db')" for r
  proof -
    have "\<not> unfinished r" using D r by (simp add: pending_count_def filter_empty_conv)
    then show ?thesis using D r by (cases "ob_status r") (auto simp: unfinished_def)
  qed
  then show ?thesis using D by blast
qed

section \<open>Settling is not fenced by the lease\<close>

lemma settle_failed:
  assumes inv: "relay_inv cfg s" and fl: "(item, Ph_done (Inl exc)) \<in> set (rs_flight s)"
    and r: "r \<in> set (ed_outbox (rs_db s))" "ob_id r = oi_id item"
    and db: "db = settle_item cfg now item (Inl exc) (rs_db s)"
  shows "\<exists>r' \<in> set (ed_outbox db). row_key r' = row_key r \<and>
     (if oi_attempt_count item < rl_max_attempts cfg
      then ob_status r' = Ob_FAILED \<and>
        ob_available_at r' = now + seconds (backoff_delay (oi_attempt_count item) (rl_base_delay cfg) (rl_max_delay cfg))
      else ob_status r' = Ob_DEAD)"
    and "ed_dead db = (if oi_attempt_count item < rl_max_attempts cfg then ed_dead (rs_db s)
      else fst (record_dead_letter now (ed_next (rs_db s)) (ob_envelope r) Origin_OUTBOX_PUBLISH (classify_failure exc)
        (safe_error_code exc) (oi_attempt_count item) None (Some (safe_error_summary exc)) (ed_dead (rs_db s))))"
proof -
  obtain r0 where r0: "r0 \<in> set (ed_outbox (rs_db s))" "stored_envelope item = Inr (ob_envelope r0)" "ob_id r0 = oi_id item"
    using flight_row [OF inv fl] by metis
  then have e: "stored_envelope item = Inr (ob_envelope r)" using same_row [OF inv r(1) r0(1)] r(2) by simp
  have retry: "classify_failure exc = Retryable" using flight_retryable [OF inv fl] .
  have img: "f r \<in> set (update_where (\<lambda>x. ob_id x = oi_id item) f (ed_outbox (rs_db s)))" for f
    using r by (auto simp: set_update_where image_iff intro: bexI [of _ r])
  show "\<exists>r' \<in> set (ed_outbox db). row_key r' = row_key r \<and>
     (if oi_attempt_count item < rl_max_attempts cfg
      then ob_status r' = Ob_FAILED \<and>
        ob_available_at r' = now + seconds (backoff_delay (oi_attempt_count item) (rl_base_delay cfg) (rl_max_delay cfg))
      else ob_status r' = Ob_DEAD)"
  proof (cases "oi_attempt_count item < rl_max_attempts cfg")
    case True
    let ?f = "\<lambda>r. r\<lparr>ob_status := Ob_FAILED,
        ob_available_at := now + seconds (backoff_delay (oi_attempt_count item) (rl_base_delay cfg) (rl_max_delay cfg)),
        ob_last_error_code := Some (take 64 (safe_error_code exc)), ob_lease_owner := None, ob_lease_expires_at := None, ob_updated_at := now\<rparr>"
    have "ed_outbox db = update_where (\<lambda>x. ob_id x = oi_id item) ?f (ed_outbox (rs_db s))"
      using True retry e by (simp add: db settle_item_def handle_transient_def should_dead_letter_def reschedule_def)
    then have "?f r \<in> set (ed_outbox db)" using img by simp
    then show ?thesis using True by (intro bexI [of _ "?f r"]) (simp_all add: row_key_def)
  next
    case False
    let ?f = "\<lambda>r. r\<lparr>ob_status := Ob_DEAD, ob_last_error_code := Some (take 64 (safe_error_code exc)), ob_lease_owner := None,
          ob_lease_expires_at := None, ob_updated_at := now\<rparr>"
    have "ed_outbox db = update_where (\<lambda>x. ob_id x = oi_id item) ?f (ed_outbox (rs_db s))"
      using False retry e by (simp add: db settle_item_def handle_transient_def should_dead_letter_def dead_letter_item_def mark_dead_def)
    then have "?f r \<in> set (ed_outbox db)" using img by simp
    then show ?thesis using False by (intro bexI [of _ "?f r"]) (simp_all add: row_key_def)
  qed
  show "ed_dead db = (if oi_attempt_count item < rl_max_attempts cfg then ed_dead (rs_db s)
      else fst (record_dead_letter now (ed_next (rs_db s)) (ob_envelope r) Origin_OUTBOX_PUBLISH (classify_failure exc)
        (safe_error_code exc) (oi_attempt_count item) None (Some (safe_error_summary exc)) (ed_dead (rs_db s))))"
    using retry by (auto simp: db settle_item_def e handle_transient_def should_dead_letter_def dead_letter_item_def)
qed

text \<open>
  C31: A worker whose lease ran out still settles the row by its identifier alone: when
  another worker has published the row meanwhile, the late failure makes the published row
  due for publication again, or dead although the broker holds the event.
\<close>

theorem stale_worker_reopens:
  assumes "relay_reachable cfg t s" and "(item, Ph_done (Inl exc)) \<in> set (rs_flight s)"
    and "r \<in> set (ed_outbox (rs_db s))" and "ob_id r = oi_id item" and "ob_status r = Ob_PUBLISHED"
  shows "(ob_subject r, ob_envelope r) \<in> set (rs_broker s) \<and>
    (\<exists>r' \<in> set (ed_outbox (settle_item cfg now item (Inl exc) (rs_db s))). row_key r' = row_key r \<and>
      (if oi_attempt_count item < rl_max_attempts cfg
       then outbox_due (now + seconds (backoff_delay (oi_attempt_count item) (rl_base_delay cfg) (rl_max_delay cfg))) r'
       else ob_status r' = Ob_DEAD))"
proof -
  have inv: "relay_inv cfg s" using assms(1) by (rule relay_reachable_inv)
  have "status_ok cfg (rs_broker s) (ed_dead (rs_db s)) r" using inv assms(3) by (simp add: relay_inv_def)
  then have "(ob_subject r, ob_envelope r) \<in> set (rs_broker s)" using assms(5) by (simp add: status_ok_def)
  moreover from settle_failed(1) [OF inv assms(2-4) refl, of now] obtain r' where
    r': "r' \<in> set (ed_outbox (settle_item cfg now item (Inl exc) (rs_db s)))" "row_key r' = row_key r"
      "if oi_attempt_count item < rl_max_attempts cfg
       then ob_status r' = Ob_FAILED \<and>
         ob_available_at r' = now + seconds (backoff_delay (oi_attempt_count item) (rl_base_delay cfg) (rl_max_delay cfg))
       else ob_status r' = Ob_DEAD" by blast
  moreover have "if oi_attempt_count item < rl_max_attempts cfg
       then outbox_due (now + seconds (backoff_delay (oi_attempt_count item) (rl_base_delay cfg) (rl_max_delay cfg))) r'
       else ob_status r' = Ob_DEAD"
    using r'(3) by (simp add: outbox_due_def split: if_splits)
  ultimately show ?thesis using r'(1,2) by blast
qed

text \<open>
  C32: A dead letter can be replayed once. When a replayed event exhausts its attempts
  again, the replayed dead letter counts as already recorded: the row ends dead and no
  pending dead letter is left from which an operator could replay the event.
\<close>

theorem replayed_event_stranded:
  assumes "relay_reachable cfg t s" and "(item, Ph_done (Inl exc)) \<in> set (rs_flight s)"
    and "rl_max_attempts cfg \<le> oi_attempt_count item"
    and "d \<in> set (ed_dead (rs_db s))" and "dl_event_id d = oi_id item" and "dl_replayed_at d \<noteq> None"
    and "db = settle_item cfg now item (Inl exc) (rs_db s)"
  shows "(\<exists>r \<in> set (ed_outbox db). ob_id r = oi_id item \<and> ob_status r = Ob_DEAD) \<and>
    (\<forall>did x. pending_dead_letter did (ed_dead db) = Some x \<longrightarrow> dl_event_id x \<noteq> oi_id item)"
proof -
  have inv: "relay_inv cfg s" using assms(1) by (rule relay_reachable_inv)
  obtain r where r: "r \<in> set (ed_outbox (rs_db s))" "ob_id r = oi_id item" "key_ok cfg r"
    using flight_row [OF inv assms(2)] by metis
  have nlt: "\<not> oi_attempt_count item < rl_max_attempts cfg" using assms(3) by simp
  note S = settle_failed [OF inv assms(2) r(1,2) assms(7)]
  have ok: "dead_ok cfg (ed_dead (rs_db s))" using inv by (simp add: relay_inv_def)
  have "dead_letter_known (ev_id (ob_envelope r)) Origin_OUTBOX_PUBLISH None d"
    using ok assms(4,5) r by (simp add: dead_ok_def dead_letter_known_def key_ok_def)
  then have same: "ed_dead db = ed_dead (rs_db s)"
    using S(2) nlt assms(4) r(3) by (auto simp: record_dead_letter_def key_ok_def list_ex_iff)
  have "dl_event_id x \<noteq> oi_id item" if "pending_dead_letter did (ed_dead db) = Some x" for did x
  proof
    assume "dl_event_id x = oi_id item"
    moreover have "x \<in> set (ed_dead (rs_db s))" "dl_replayed_at x = None"
      using find_Some_D [OF that [unfolded pending_dead_letter_def]] same by simp_all
    moreover have "distinct (map dl_event_id (ed_dead (rs_db s)))" using ok by (simp add: dead_ok_def)
    ultimately have "x = d" using assms(4,5) by (intro distinct_map_inj [of dl_event_id]) simp_all
    then show False using \<open>dl_replayed_at x = None\<close> assms(6) by simp
  qed
  moreover have "\<exists>r' \<in> set (ed_outbox db). ob_id r' = oi_id item \<and> ob_status r' = Ob_DEAD"
    using S(1) nlt r(2) by (auto simp: row_key_def)
  ultimately show ?thesis by blast
qed

section \<open>Concrete runs\<close>

definition relay_demo_cfg :: "int \<Rightarrow> relay_config" where
  "relay_demo_cfg m = \<lparr>rl_prefix = ''nxs'', rl_environment = ''test'', rl_batch_size = 10, rl_lease_seconds = 30,
     rl_max_attempts = m, rl_base_delay = 1, rl_max_delay = 300\<rparr>"

definition relay_demo_row :: outbox_row where
  "relay_demo_row = \<lparr>ob_id = ev_id demo_envelope, ob_org = 7, ob_event_type = ev_type demo_envelope, ob_event_version = ev_version demo_envelope,
     ob_subject = ''nxs.test.tenant.workflow.run.started'', ob_envelope = demo_envelope, ob_status = Ob_PENDING, ob_attempt_count = 0,
     ob_available_at = 0, ob_last_error_code = None, ob_lease_owner = None, ob_lease_expires_at = None, ob_published_at = None,
     ob_created_at = 0, ob_updated_at = 0\<rparr>"

definition relay_demo_state ::
  "outbox_row \<Rightarrow> dead_letter list \<Rightarrow> uuid \<Rightarrow> (string \<times> envelope) list \<Rightarrow> (outbox_item \<times> publish_phase) list \<Rightarrow> relay_sys" where
  "relay_demo_state r dead n broker flight =
     \<lparr>rs_db = \<lparr>ed_outbox = [r], ed_dead = dead, ed_next = n\<rparr>, rs_broker = broker, rs_flight = flight, rs_enqueued = [demo_envelope]\<rparr>"

abbreviation relay_demo_claim :: "string \<Rightarrow> time \<Rightarrow> outbox_row \<Rightarrow> outbox_row" where
  "relay_demo_claim w now r \<equiv> claim_row w now (now + 30000000) r"

lemma relay_demo_subject: "subject_for (relay_demo_cfg m) demo_envelope = Inr ''nxs.test.tenant.workflow.run.started''"
  and relay_demo_scope: "ev_scope demo_envelope = Scope_TENANT" "ev_org demo_envelope = Some 7"
proof -
  have "build_subject ''nxs'' ''test'' Scope_TENANT ''workflow'' ''run.started'' =
      Inr \<lparr>sj_prefix = ''nxs'', sj_environment = ''test'', sj_scope = Scope_TENANT, sj_domain = ''workflow'', sj_event = ''run.started''\<rparr>"
    by code_simp
  then show "subject_for (relay_demo_cfg m) demo_envelope = Inr ''nxs.test.tenant.workflow.run.started''"
    by (simp add: subject_for_def envelope_subject_def relay_demo_cfg_def demo_envelope_def ev_domain_def ev_name_def subject_str_def)
qed (simp_all add: demo_envelope_def)

lemma relay_demo_enqueued: "relay_reachable (relay_demo_cfg m) 0 (relay_demo_state relay_demo_row [] 0 [] [])"
proof -
  have "publisher_enqueue (relay_demo_cfg m) (Some 7) 0 [] demo_envelope = Inr ([relay_demo_row], True)"
    by (simp add: publisher_enqueue_def enqueue_def relay_demo_subject relay_demo_scope require_tenant_def relay_demo_row_def)
  then have "relay_step (relay_demo_cfg m) (0, relay_init) (0, relay_demo_state relay_demo_row [] 0 [] [])"
    using step_enqueue [of 0 0 demo_envelope "relay_demo_cfg m" "Some 7" relay_init "[relay_demo_row]" True] demo_envelope_valid
    by (simp add: relay_init_def relay_demo_state_def)
  then show ?thesis by blast
qed

lemma relay_reachable_step: "relay_reachable cfg t s \<Longrightarrow> relay_step cfg (t, s) (t', s') \<Longrightarrow> relay_reachable cfg t' s'"
  by (meson rtranclp.rtrancl_into_rtrancl)

lemma relay_demo_claims:
  assumes "relay_reachable (relay_demo_cfg m) t (relay_demo_state r dead n broker flight)" "t \<le> now" "outbox_due now r"
  shows "relay_reachable (relay_demo_cfg m) now (relay_demo_state (relay_demo_claim w now r) dead n broker
    ((item_of (relay_demo_claim w now r), Ph_claimed) # flight))"
proof (rule relay_reachable_step [OF assms(1)])
  have "claim_batch w 10 30 [] now [r] = ([relay_demo_claim w now r], [item_of (relay_demo_claim w now r)])"
    using assms(3) by (simp add: claim_batch_def claim_candidates_def update_where_def Let_def) (simp add: claim_row_def)
  then show "relay_step (relay_demo_cfg m) (t, relay_demo_state r dead n broker flight)
      (now, relay_demo_state (relay_demo_claim w now r) dead n broker ((item_of (relay_demo_claim w now r), Ph_claimed) # flight))"
    using step_claim [of t now w "relay_demo_cfg m" "[]" "relay_demo_state r dead n broker flight"
        "[relay_demo_claim w now r]" "[item_of (relay_demo_claim w now r)]"] assms(2)
    by (simp add: relay_demo_state_def relay_demo_cfg_def)
qed

lemma relay_demo_publishes:
  assumes "relay_reachable cfg t (relay_demo_state r dead n broker flight)" "t \<le> now" "(i, Ph_claimed) \<in> set flight"
    "oi_envelope i = demo_envelope" "broker_honest True reply stored"
  shows "relay_reachable cfg now (relay_demo_state r dead n ((if stored then [(oi_subject i, demo_envelope)] else []) @ broker)
    ((i, Ph_done (transport_publish True reply)) # remove1 (i, Ph_claimed) flight))"
proof (rule relay_reachable_step [OF assms(1)])
  have "stored_envelope i = Inr demo_envelope" using assms(4) demo_envelope_valid by (simp add: stored_envelope_def)
  then show "relay_step cfg (t, relay_demo_state r dead n broker flight) (now, relay_demo_state r dead n
      ((if stored then [(oi_subject i, demo_envelope)] else []) @ broker) ((i, Ph_done (transport_publish True reply)) # remove1 (i, Ph_claimed) flight))"
    using step_publish [of t now i "relay_demo_state r dead n broker flight" demo_envelope True reply stored cfg] assms(2,3,5)
    by (simp add: relay_demo_state_def)
qed

lemma relay_demo_settles:
  assumes "relay_reachable cfg t (relay_demo_state r dead n broker flight)" "t \<le> now" "(i, Ph_done answer) \<in> set flight"
    "settle_item cfg now i answer \<lparr>ed_outbox = [r], ed_dead = dead, ed_next = n\<rparr> = \<lparr>ed_outbox = [r'], ed_dead = dead', ed_next = n'\<rparr>"
  shows "relay_reachable cfg now (relay_demo_state r' dead' n' broker (remove1 (i, Ph_done answer) flight))"
proof (rule relay_reachable_step [OF assms(1)])
  show "relay_step cfg (t, relay_demo_state r dead n broker flight) (now, relay_demo_state r' dead' n' broker (remove1 (i, Ph_done answer) flight))"
    using step_settle [of t now i answer "relay_demo_state r dead n broker flight" cfg] assms(2-4) by (simp add: relay_demo_state_def)
qed

text \<open>Worker a's lease runs out, worker b publishes the row, then a's publication fails.\<close>

definition stale_first :: outbox_row where
  "stale_first = relay_demo_claim ''a'' 0 relay_demo_row"

definition stale_second :: outbox_row where
  "stale_second = relay_demo_claim ''b'' 31000000 stale_first"

definition stale_state :: relay_sys where
  "stale_state = relay_demo_state (published_row 31000000 stale_second) [] 0 [(''nxs.test.tenant.workflow.run.started'', demo_envelope)]
     [(item_of stale_first, Ph_done (Inl EventPublishError))]"

lemmas stale_defs = stale_second_def stale_first_def relay_demo_row_def claim_row_def item_of_def published_row_def

lemma stale_reachable: "relay_reachable (relay_demo_cfg 8) 31000000 stale_state"
proof -
  have "relay_reachable (relay_demo_cfg 8) 0 (relay_demo_state stale_first [] 0 [] [(item_of stale_first, Ph_claimed)])"
    using relay_demo_claims [OF relay_demo_enqueued, where now = 0 and w = "''a''" and m = 8] by (simp add: stale_first_def relay_demo_row_def outbox_due_def)
  then have "relay_reachable (relay_demo_cfg 8) 31000000
      (relay_demo_state stale_second [] 0 [] [(item_of stale_second, Ph_claimed), (item_of stale_first, Ph_claimed)])"
    using relay_demo_claims [of 8 0 stale_first "[]" 0 "[]" "[(item_of stale_first, Ph_claimed)]" 31000000 "''b''"]
    unfolding stale_second_def by (simp add: stale_first_def claim_row_def outbox_due_def)
  then have pub: "relay_reachable (relay_demo_cfg 8) 31000000 (relay_demo_state stale_second [] 0
      [(''nxs.test.tenant.workflow.run.started'', demo_envelope)]
      [(item_of stale_second, Ph_done (Inr \<lparr>pr_stream = ''NXS'', pr_sequence = 1, pr_duplicate = False\<rparr>)), (item_of stale_first, Ph_claimed)])"
    using relay_demo_publishes [of "relay_demo_cfg 8" 31000000 stale_second "[]" 0 "[]"
        "[(item_of stale_second, Ph_claimed), (item_of stale_first, Ph_claimed)]" 31000000 "item_of stale_second" "Js_ack ''NXS'' 1 False" True]
    by (simp add: broker_honest_def transport_publish_def) (simp add: stale_defs)
  have st: "settle_item (relay_demo_cfg 8) 31000000 (item_of stale_second) (Inr receipt) \<lparr>ed_outbox = [stale_second], ed_dead = [], ed_next = 0\<rparr> =
      \<lparr>ed_outbox = [published_row 31000000 stale_second], ed_dead = [], ed_next = 0\<rparr>" for receipt
  proof -
    have "envelope_valid (oi_envelope (item_of stale_second))" "oi_id (item_of stale_second) = ob_id stale_second"
      using demo_envelope_valid by (simp_all add: stale_defs)
    then show ?thesis by (simp add: settle_item_def stored_envelope_def mark_published_def update_where_def published_row_def)
  qed
  have "relay_reachable (relay_demo_cfg 8) 31000000 (relay_demo_state (published_row 31000000 stale_second) [] 0
      [(''nxs.test.tenant.workflow.run.started'', demo_envelope)] [(item_of stale_first, Ph_claimed)])"
    using relay_demo_settles [OF pub order_refl _ st] by simp
  then show ?thesis
    using relay_demo_publishes [of "relay_demo_cfg 8" 31000000 "published_row 31000000 stale_second" "[]" 0
        "[(''nxs.test.tenant.workflow.run.started'', demo_envelope)]" "[(item_of stale_first, Ph_claimed)]" 31000000 "item_of stale_first"
        "Js_raises (Other_exception [''TimeoutError''])" False]
    unfolding stale_state_def by (simp add: broker_honest_def transport_publish_def) (simp add: stale_defs)
qed

theorem outbox_never_loses_witness:
  "\<exists>r. ed_outbox (rs_db stale_state) = [r] \<and> ob_envelope r = demo_envelope \<and> (ob_subject r, demo_envelope) \<in> set (rs_broker stale_state)"
proof -
  have "demo_envelope \<in> set (rs_enqueued stale_state)" by (simp add: stale_state_def relay_demo_state_def)
  from outbox_never_loses [OF stale_reachable this] show ?thesis
    by (auto simp: stale_state_def relay_demo_state_def published_row_def split: if_splits)
qed

theorem stale_worker_reopens_witness:
  "\<exists>r' \<in> set (ed_outbox (settle_item (relay_demo_cfg 8) 40000000 (item_of stale_first) (Inl EventPublishError) (rs_db stale_state))).
     row_key r' = row_key (published_row 31000000 stale_second) \<and> outbox_due 41000000 r'"
proof -
  have "(item_of stale_first, Ph_done (Inl EventPublishError)) \<in> set (rs_flight stale_state)"
    "published_row 31000000 stale_second \<in> set (ed_outbox (rs_db stale_state))"
    by (simp_all add: stale_state_def relay_demo_state_def)
  moreover have "ob_id (published_row 31000000 stale_second) = oi_id (item_of stale_first)"
    "ob_status (published_row 31000000 stale_second) = Ob_PUBLISHED" "oi_attempt_count (item_of stale_first) = 1"
    by (simp_all add: stale_defs)
  moreover have "seconds (backoff_delay 1 1 300) = 1000000" by (simp add: seconds_def backoff_delay_def py_round_def)
  ultimately show ?thesis
    using stale_worker_reopens [OF stale_reachable, of "item_of stale_first" EventPublishError "published_row 31000000 stale_second" 40000000]
    by (simp add: relay_demo_cfg_def)
qed

definition relay_demo_env :: relay_env where
  "relay_demo_env = \<lparr>re_now = 32000000, re_locked = [], re_available = True, re_reply = (\<lambda>_. Js_ack ''NXS'' 2 True), re_settle = (\<lambda>_. 32000000)\<rparr>"

text \<open>The row of a worker that crashed after its claim.\<close>

theorem drain_publishes_all_witness:
  "snd (drain_now (relay_demo_cfg 8) ''c'' [relay_demo_env] \<lparr>ed_outbox = [stale_first], ed_dead = [], ed_next = 0\<rparr>) = 1"
proof -
  let ?s = "relay_demo_state stale_first [] 0 [] [(item_of stale_first, Ph_claimed)]"
  have reach: "relay_reachable (relay_demo_cfg 8) 0 ?s"
    using relay_demo_claims [OF relay_demo_enqueued, where now = 0 and w = "''a''" and m = 8] by (simp add: stale_first_def relay_demo_row_def outbox_due_def)
  have cfg: "relay_config_ok (relay_demo_cfg 8)" by (simp add: relay_config_ok_def relay_demo_cfg_def)
  have resp: "\<forall>w \<in> set [relay_demo_env]. responsive (ed_outbox (rs_db ?s)) w"
    by (simp add: responsive_def relay_demo_env_def acknowledges_def relay_demo_state_def wake_def stale_defs)
  have one: "pending_count (ed_outbox (rs_db ?s)) = 1"
    by (simp add: pending_count_def relay_demo_state_def unfinished_def stale_defs)
  then have "pending_count (ed_outbox (rs_db ?s)) \<le> length [relay_demo_env] * rl_batch_size (relay_demo_cfg 8)"
    by (simp add: relay_demo_cfg_def)
  from drain_publishes_all [OF cfg reach resp this, of "''c''", OF prod.collapse [symmetric]] one
  have "snd (drain_now (relay_demo_cfg 8) ''c'' [relay_demo_env] (rs_db ?s)) = 1" by simp
  then show ?thesis by (simp only: relay_demo_state_def relay_sys.simps)
qed

text \<open>One attempt allowed: the event is dead-lettered, replayed, claimed again and fails again.\<close>

definition strand_dead :: "dead_letter list" where
  "strand_dead = fst (record_dead_letter 0 0 demo_envelope Origin_OUTBOX_PUBLISH Retryable (safe_error_code EventPublishError) 1 None
     (Some (safe_error_summary EventPublishError)) [])"

definition strand_row :: outbox_row where
  "strand_row = relay_demo_claim ''a'' 10 (rearm_row 10 (stale_first\<lparr>ob_status := Ob_DEAD,
     ob_last_error_code := Some (safe_error_code EventPublishError), ob_lease_owner := None, ob_lease_expires_at := None, ob_updated_at := 0\<rparr>))"

definition strand_state :: relay_sys where
  "strand_state = relay_demo_state strand_row (mark_replayed 10 0 strand_dead) 1 [] [(item_of strand_row, Ph_done (Inl EventPublishError))]"

lemma strand_reachable: "relay_reachable (relay_demo_cfg 1) 10 strand_state"
proof -
  let ?dead = "stale_first\<lparr>ob_status := Ob_DEAD, ob_last_error_code := Some (safe_error_code EventPublishError),
     ob_lease_owner := None, ob_lease_expires_at := None, ob_updated_at := 0\<rparr>"
  have timeout: "transport_publish True (Js_raises (Other_exception [''TimeoutError''])) = Inl EventPublishError"
    "broker_honest True (Js_raises (Other_exception [''TimeoutError''])) False" by (simp_all add: transport_publish_def broker_honest_def)
  have env: "envelope_valid (oi_envelope (item_of stale_first))" "oi_envelope (item_of stale_first) = demo_envelope"
    "oi_id (item_of stale_first) = ob_id stale_first" "oi_attempt_count (item_of stale_first) = 1"
    "oi_envelope (item_of strand_row) = demo_envelope" using demo_envelope_valid by (simp_all add: stale_defs strand_row_def rearm_row_def)
  have "relay_reachable (relay_demo_cfg 1) 0 (relay_demo_state stale_first [] 0 [] [(item_of stale_first, Ph_claimed)])"
    using relay_demo_claims [OF relay_demo_enqueued, where now = 0 and w = "''a''" and m = 1] by (simp add: stale_first_def relay_demo_row_def outbox_due_def)
  then have failed: "relay_reachable (relay_demo_cfg 1) 0 (relay_demo_state stale_first [] 0 [] [(item_of stale_first, Ph_done (Inl EventPublishError))])"
    using relay_demo_publishes [of "relay_demo_cfg 1" 0 stale_first "[]" 0 "[]" "[(item_of stale_first, Ph_claimed)]" 0 "item_of stale_first",
        OF _ _ _ env(2) timeout(2)] timeout(1) by simp
  have "settle_item (relay_demo_cfg 1) 0 (item_of stale_first) (Inl EventPublishError) \<lparr>ed_outbox = [stale_first], ed_dead = [], ed_next = 0\<rparr> =
      \<lparr>ed_outbox = [?dead], ed_dead = strand_dead, ed_next = 1\<rparr>"
    using env by (simp add: settle_item_def stored_envelope_def classify_failure_def handle_transient_def should_dead_letter_def relay_demo_cfg_def
        dead_letter_item_def mark_dead_def update_where_def strand_dead_def)
  from relay_demo_settles [OF failed order_refl _ this]
  have dead: "relay_reachable (relay_demo_cfg 1) 0 (relay_demo_state ?dead strand_dead 1 [] [])" by simp
  have "pending_dead_letter 0 strand_dead = Some (hd strand_dead)" "dl_origin (hd strand_dead) = Origin_OUTBOX_PUBLISH"
    "dl_envelope (hd strand_dead) = demo_envelope"
    by (simp_all add: strand_dead_def record_dead_letter_def relay_demo_scope pending_dead_letter_def)
  then have "replay_outbox (relay_demo_cfg 1) 10 0 \<lparr>ed_outbox = [?dead], ed_dead = strand_dead, ed_next = 1\<rparr> =
      Some \<lparr>ed_outbox = [rearm_row 10 ?dead], ed_dead = mark_replayed 10 0 strand_dead, ed_next = 1\<rparr>"
    using demo_envelope_valid by (simp add: replay_outbox_def relay_demo_subject update_where_def) (simp add: stale_defs)
  then have "relay_step (relay_demo_cfg 1) (0, relay_demo_state ?dead strand_dead 1 [] [])
      (10, relay_demo_state (rearm_row 10 ?dead) (mark_replayed 10 0 strand_dead) 1 [] [])"
    using step_replay [of 0 10 "relay_demo_cfg 1" 0 "relay_demo_state ?dead strand_dead 1 [] []"] by (simp add: relay_demo_state_def)
  from relay_reachable_step [OF dead this]
  have "relay_reachable (relay_demo_cfg 1) 10 (relay_demo_state strand_row (mark_replayed 10 0 strand_dead) 1 [] [(item_of strand_row, Ph_claimed)])"
    using relay_demo_claims [of 1 10 "rearm_row 10 ?dead" "mark_replayed 10 0 strand_dead" 1 "[]" "[]" 10 "''a''"]
    by (simp add: strand_row_def) (simp add: rearm_row_def outbox_due_def)
  then show ?thesis
    using relay_demo_publishes [of "relay_demo_cfg 1" 10 strand_row "mark_replayed 10 0 strand_dead" 1 "[]" "[(item_of strand_row, Ph_claimed)]" 10
        "item_of strand_row", OF _ _ _ env(5) timeout(2)] timeout(1) by (simp add: strand_state_def)
qed

theorem replayed_event_stranded_witness:
  "pending_dead_letter 0 (ed_dead (settle_item (relay_demo_cfg 1) 20 (item_of strand_row) (Inl EventPublishError) (rs_db strand_state))) = None"
proof -
  let ?d = "(hd strand_dead)\<lparr>dl_replayed_at := Some 10\<rparr>" and ?db = "settle_item (relay_demo_cfg 1) 20 (item_of strand_row) (Inl EventPublishError) (rs_db strand_state)"
  have fl: "(item_of strand_row, Ph_done (Inl EventPublishError)) \<in> set (rs_flight strand_state)" by (simp add: strand_state_def relay_demo_state_def)
  have att: "rl_max_attempts (relay_demo_cfg 1) \<le> oi_attempt_count (item_of strand_row)"
    by (simp add: relay_demo_cfg_def strand_row_def rearm_row_def stale_defs)
  have d: "?d \<in> set (ed_dead (rs_db strand_state))" "dl_event_id ?d = oi_id (item_of strand_row)" "dl_replayed_at ?d \<noteq> None"
    by (simp_all add: strand_state_def relay_demo_state_def strand_dead_def record_dead_letter_def relay_demo_scope mark_replayed_def
        update_where_def strand_row_def rearm_row_def stale_defs)
  note S = replayed_event_stranded [OF strand_reachable fl att d refl, of 20]
  have only: "dl_event_id x = oi_id (item_of strand_row)" if "x \<in> set (ed_dead ?db)" for x
    using that by (auto simp: strand_state_def relay_demo_state_def settle_item_def stored_envelope_def handle_transient_def dead_letter_item_def
        record_dead_letter_def strand_dead_def mark_replayed_def update_where_def relay_demo_scope strand_row_def rearm_row_def stale_defs
        split: if_splits)
  show ?thesis
  proof (rule ccontr)
    assume "pending_dead_letter 0 (ed_dead ?db) \<noteq> None"
    then obtain x where x: "pending_dead_letter 0 (ed_dead ?db) = Some x" by blast
    then have "x \<in> set (ed_dead ?db)" unfolding pending_dead_letter_def using find_Some_D by metis
    then show False using only S x by blast
  qed
qed

end
