(* ===== verification/Event_Consumer.thy ===== *)
theory Event_Consumer
  imports Event_Outbox
begin

text \<open>
  \<^verbatim>\<open>events/idempotency.py\<close>, \<^verbatim>\<open>events/consumer.py\<close> and the replay of a consumer's dead letter in
  \<^verbatim>\<open>scripts/nxs_events\<close>: receipts, the processing of one delivery on every path, and any number of
  deliveries interleaved. The handler, the outcome of each commit and of each answer to the
  broker are arguments.
\<close>

section \<open>Receipts\<close>

datatype receipt_status = Rc_PROCESSING | Rc_PROCESSED | Rc_FAILED | Rc_DEAD

record receipt =
  rc_consumer :: string
  rc_event_id :: uuid
  rc_org :: "uuid option"
  rc_event_type :: string
  rc_status :: receipt_status
  rc_attempt_count :: int
  rc_last_error_code :: "string option"
  rc_updated_at :: time
  rc_processed_at :: "time option"

record receipt_claim =
  rk_should_process :: bool
  rk_already_finished :: bool
  rk_attempt :: int

definition receipt_for :: "string \<Rightarrow> uuid \<Rightarrow> receipt \<Rightarrow> bool" where
  "receipt_for consumer_name eid r \<longleftrightarrow> rc_consumer r = consumer_name \<and> rc_event_id r = eid"

text \<open>
  \<^verbatim>\<open>claim\<close>: \<open>vanished\<close> is the number of rounds in which the insert met a row that was gone when
  it was read; the fifth such round raises.
\<close>

definition claim_receipt ::
  "time \<Rightarrow> nat \<Rightarrow> string \<Rightarrow> envelope \<Rightarrow> int \<Rightarrow> receipt list \<Rightarrow> ev_error + (receipt list \<times> receipt_claim)" where
  "claim_receipt now vanished consumer_name e delivery_count rows =
     (if 5 \<le> vanished then Inl (Other_exception [''RuntimeError''])
      else case find (receipt_for consumer_name (ev_id e)) rows of
        None \<Rightarrow>
          Inr (rows @ [\<lparr>rc_consumer = consumer_name, rc_event_id = ev_id e, rc_org = ev_org e, rc_event_type = ev_type e,
                 rc_status = Rc_PROCESSING, rc_attempt_count = max 1 delivery_count, rc_last_error_code = None,
                 rc_updated_at = now, rc_processed_at = None\<rparr>],
               \<lparr>rk_should_process = True, rk_already_finished = False, rk_attempt = max 1 delivery_count\<rparr>)
      | Some row \<Rightarrow>
          if rc_status row = Rc_PROCESSED \<or> rc_status row = Rc_DEAD then
            Inr (rows, \<lparr>rk_should_process = False, rk_already_finished = True, rk_attempt = rc_attempt_count row\<rparr>)
          else
            Inr (update_where (receipt_for consumer_name (ev_id e))
                   (\<lambda>r. r\<lparr>rc_status := Rc_PROCESSING, rc_attempt_count := rc_attempt_count row + 1, rc_updated_at := now\<rparr>) rows,
                 \<lparr>rk_should_process = True, rk_already_finished = False, rk_attempt = rc_attempt_count row + 1\<rparr>))"

definition mark_processed :: "time \<Rightarrow> string \<Rightarrow> uuid \<Rightarrow> receipt list \<Rightarrow> receipt list" where
  "mark_processed now consumer_name eid =
     update_where (receipt_for consumer_name eid)
       (\<lambda>r. r\<lparr>rc_status := Rc_PROCESSED, rc_last_error_code := None, rc_updated_at := now, rc_processed_at := Some now\<rparr>)"

definition record_terminal :: "time \<Rightarrow> string \<Rightarrow> envelope \<Rightarrow> string \<Rightarrow> int \<Rightarrow> receipt list \<Rightarrow> receipt list" where
  "record_terminal now consumer_name e error_code attempt rows =
     (if list_ex (receipt_for consumer_name (ev_id e)) rows then
        update_where (receipt_for consumer_name (ev_id e))
          (\<lambda>r. r\<lparr>rc_status := Rc_DEAD, rc_last_error_code := Some (take 64 error_code), rc_updated_at := now\<rparr>) rows
      else rows @ [\<lparr>rc_consumer = consumer_name, rc_event_id = ev_id e, rc_org = ev_org e, rc_event_type = ev_type e,
             rc_status = Rc_DEAD, rc_attempt_count = max 1 attempt, rc_last_error_code = Some (take 64 error_code),
             rc_updated_at = now, rc_processed_at = None\<rparr>])"

section \<open>The consumer\<close>

record consumer_spec =
  sp_name :: string
  sp_event_types :: "string list"
  sp_max_delivery_attempts :: "int option"

record consumer_config =
  cc_max_delivery_attempts :: int
  cc_base_delay :: rat
  cc_max_delay :: rat

definition max_attempts :: "consumer_config \<Rightarrow> consumer_spec \<Rightarrow> int" where
  "max_attempts cfg spec =
     (case sp_max_delivery_attempts spec of
        None \<Rightarrow> cc_max_delivery_attempts cfg
      | Some n \<Rightarrow> if n = 0 then cc_max_delivery_attempts cfg else n)"

text \<open>The tables, and the effects handlers committed, by consumer and event.\<close>

record consumer_db =
  cd_receipts :: "receipt list"
  cd_dead :: "dead_letter list"
  cd_next :: uuid
  cd_effects :: "(string \<times> uuid) list"

record consumer_stats =
  cs_processed :: nat
  cs_duplicates :: nat
  cs_retried :: nat
  cs_dead_lettered :: nat

record message =
  ms_subject :: string
  ms_data :: envelope
  ms_delivery :: int

datatype answer = An_ack | An_nak rat | An_term | An_none

text \<open>
  How a transaction ends: committed, rolled back with an exception, or committed although
  the commit raised.
\<close>

datatype tx_end = Tx_commit | Tx_abort ev_error | Tx_unknown ev_error

record delivery_env =
  de_now :: time
  de_vanished :: nat
  de_handler :: "int \<Rightarrow> ev_error + unit"
  de_commit :: tx_end
  de_ack :: "ev_error + unit"
  de_answer_ok :: bool

record terminal_env =
  te_now :: time
  te_commit :: tx_end
  te_term_ok :: bool
  te_nak_ok :: bool

definition end_tx :: "tx_end \<Rightarrow> consumer_db \<Rightarrow> consumer_db \<Rightarrow> consumer_db \<times> (ev_error option)" where
  "end_tx commit old new =
     (case commit of Tx_commit \<Rightarrow> (new, None) | Tx_abort exc \<Rightarrow> (old, Some exc) | Tx_unknown exc \<Rightarrow> (new, Some exc))"

definition handle_event ::
  "consumer_spec \<Rightarrow> delivery_env \<Rightarrow> envelope \<Rightarrow> int \<Rightarrow> consumer_db \<Rightarrow> ev_error + (consumer_db \<times> receipt_claim)" where
  "handle_event spec env e delivery db =
     bindE (claim_receipt (de_now env) (de_vanished env) (sp_name spec) e delivery (cd_receipts db)) (\<lambda>(rows, claim).
     if rk_already_finished claim then Inr (db\<lparr>cd_receipts := rows\<rparr>, claim)
     else bindE (de_handler env (rk_attempt claim)) (\<lambda>_.
       Inr (db\<lparr>cd_receipts := mark_processed (de_now env) (sp_name spec) (ev_id e) rows,
               cd_effects := cd_effects db @ [(sp_name spec, ev_id e)]\<rparr>, claim)))"

text \<open>The transaction and the acknowledgement: whether the event was finished before, and what was raised.\<close>

definition attempt_delivery ::
  "consumer_spec \<Rightarrow> delivery_env \<Rightarrow> envelope \<Rightarrow> int \<Rightarrow> consumer_db \<Rightarrow> consumer_db \<times> bool \<times> (ev_error + unit)" where
  "attempt_delivery spec env e delivery db =
     (case handle_event spec env e delivery db of
        Inl exc \<Rightarrow> (db, False, Inl exc)
      | Inr (new, claim) \<Rightarrow>
          (case end_tx (de_commit env) db new of
             (db', Some exc) \<Rightarrow> (db', rk_already_finished claim, Inl exc)
           | (db', None) \<Rightarrow> (db', rk_already_finished claim, de_ack env)))"

text \<open>The \<^verbatim>\<open>except\<close> clauses: terminal, or retried within the budget.\<close>

definition retry_or_terminal :: "consumer_config \<Rightarrow> consumer_spec \<Rightarrow> int \<Rightarrow> rat option" where
  "retry_or_terminal cfg spec delivery =
     (if should_dead_letter delivery (max_attempts cfg spec) then None
      else Some (backoff_delay delivery (cc_base_delay cfg) (cc_max_delay cfg)))"

definition route_failure :: "consumer_config \<Rightarrow> consumer_spec \<Rightarrow> ev_error \<Rightarrow> int \<Rightarrow> rat option" where
  "route_failure cfg spec exc delivery =
     (if exc = HandlerTerminalError then None
      else if ''TimeoutError'' \<in> set (class_names exc) \<or> exc = HandlerRetryableError then retry_or_terminal cfg spec delivery
      else if classify_failure exc = Retryable then retry_or_terminal cfg spec delivery
      else None)"

text \<open>
  The first part of \<^verbatim>\<open>_process\<close>: either an answer, or the exception and envelope with which
  \<^verbatim>\<open>_terminal\<close> is called.
\<close>

datatype delivery_result = Dr_answer answer | Dr_terminal envelope ev_error int

definition process_delivery ::
  "consumer_config \<Rightarrow> consumer_spec \<Rightarrow> event_registry \<Rightarrow> delivery_env \<Rightarrow> message \<Rightarrow> consumer_db \<times> consumer_stats \<Rightarrow>
     (consumer_db \<times> consumer_stats) \<times> delivery_result" where
  "process_delivery cfg spec reg env msg = (\<lambda>(db, stats).
     case to_envelope (ms_data msg) of
       Inl exc \<Rightarrow> ((db, stats\<lparr>cs_dead_lettered := cs_dead_lettered stats + 1\<rparr>), Dr_answer (if de_answer_ok env then An_term else An_none))
     | Inr e \<Rightarrow>
         (case bindE (check_provenance (ms_subject msg) e) (\<lambda>_. decode reg e) of
            Inl exc \<Rightarrow> ((db, stats), Dr_terminal e exc (ms_delivery msg))
          | Inr payload \<Rightarrow>
              if ev_type e \<notin> set (sp_event_types spec) then ((db, stats), Dr_terminal e EventContractError (ms_delivery msg))
              else
                (case attempt_delivery spec env e (ms_delivery msg) db of
                   (db', duplicate, outcome) \<Rightarrow>
                     let stats' = (if duplicate then stats\<lparr>cs_duplicates := cs_duplicates stats + 1\<rparr> else stats)
                     in case outcome of
                          Inr _ \<Rightarrow>
                            ((db', if duplicate then stats' else stats'\<lparr>cs_processed := cs_processed stats' + 1\<rparr>), Dr_answer An_ack)
                        | Inl exc \<Rightarrow>
                            (case route_failure cfg spec exc (ms_delivery msg) of
                               None \<Rightarrow> ((db', stats'), Dr_terminal e exc (ms_delivery msg))
                             | Some delay \<Rightarrow>
                                 ((db', stats'\<lparr>cs_retried := cs_retried stats' + 1\<rparr>),
                                  Dr_answer (if de_answer_ok env then An_nak delay else An_none))))))"

text \<open>\<^verbatim>\<open>_terminal\<close>\<close>

definition terminal_records ::
  "consumer_spec \<Rightarrow> terminal_env \<Rightarrow> envelope \<Rightarrow> ev_error \<Rightarrow> int \<Rightarrow> consumer_db \<Rightarrow> consumer_db" where
  "terminal_records spec env e exc delivery db =
     db\<lparr>cd_receipts := record_terminal (te_now env) (sp_name spec) e (safe_error_code exc) delivery (cd_receipts db),
        cd_dead := fst (record_dead_letter (te_now env) (cd_next db) e Origin_CONSUMER (classify_failure exc) (safe_error_code exc)
          delivery (Some (sp_name spec)) (Some (safe_error_summary exc)) (cd_dead db)),
        cd_next := cd_next db + 1\<rparr>"

definition process_terminal ::
  "consumer_config \<Rightarrow> consumer_spec \<Rightarrow> terminal_env \<Rightarrow> envelope \<Rightarrow> ev_error \<Rightarrow> int \<Rightarrow> consumer_db \<times> consumer_stats \<Rightarrow>
     (consumer_db \<times> consumer_stats) \<times> answer" where
  "process_terminal cfg spec env e exc delivery = (\<lambda>(db, stats).
     case end_tx (te_commit env) db (terminal_records spec env e exc delivery db) of
       (db', Some store_exc) \<Rightarrow> ((db', stats), if te_nak_ok env then An_nak (cc_max_delay cfg) else An_none)
     | (db', None) \<Rightarrow>
         ((db', stats\<lparr>cs_dead_lettered := cs_dead_lettered stats + 1\<rparr>), if te_term_ok env then An_term else An_none))"

section \<open>Replay of a consumer dead letter\<close>

text \<open>
  \<^verbatim>\<open>_replay\<close> for the origin \<^verbatim>\<open>CONSUMER\<close>: the receipt is armed again and the event published once
  more; an unacknowledged publication rolls everything back.
\<close>

definition replay_consumer :: "relay_config \<Rightarrow> bool \<Rightarrow> js_reply \<Rightarrow> time \<Rightarrow> uuid \<Rightarrow> consumer_db \<Rightarrow> consumer_db option" where
  "replay_consumer rcfg available reply now did db =
     (case pending_dead_letter did (cd_dead db) of
        None \<Rightarrow> None
      | Some d \<Rightarrow>
          if dl_origin d = Origin_OUTBOX_PUBLISH \<or> \<not> envelope_valid (dl_envelope d) then None
          else case bindE (subject_for rcfg (dl_envelope d)) (\<lambda>_. transport_publish available reply) of
            Inl _ \<Rightarrow> None
          | Inr _ \<Rightarrow>
              Some (db\<lparr>cd_receipts := update_where (\<lambda>r. dl_consumer_name d = Some (rc_consumer r) \<and> rc_event_id r = ev_id (dl_envelope d))
                         (\<lambda>r. r\<lparr>rc_status := Rc_PROCESSING, rc_last_error_code := None, rc_updated_at := now\<rparr>) (cd_receipts db),
                       cd_dead := mark_replayed now did (cd_dead db)\<rparr>))"

section \<open>Deliveries in any order\<close>

text \<open>
  The tables, the deliveries on their way to \<^verbatim>\<open>_terminal\<close>, and the answers given, with the
  event they are about.
\<close>

record consumer_sys =
  sy_db :: consumer_db
  sy_stats :: consumer_stats
  sy_terminal :: "(envelope \<times> ev_error \<times> int) list"
  sy_answers :: "(envelope \<times> answer) list"

definition consumer_init :: consumer_sys where
  "consumer_init =
     \<lparr>sy_db = \<lparr>cd_receipts = [], cd_dead = [], cd_next = 0, cd_effects = []\<rparr>,
      sy_stats = \<lparr>cs_processed = 0, cs_duplicates = 0, cs_retried = 0, cs_dead_lettered = 0\<rparr>, sy_terminal = [], sy_answers = []\<rparr>"


section \<open>At most one effect per event\<close>

definition finished_receipt :: "consumer_spec \<Rightarrow> receipt list \<Rightarrow> uuid \<Rightarrow> bool" where
  "finished_receipt spec rows eid \<longleftrightarrow> (\<exists>r \<in> set rows. receipt_for (sp_name spec) eid r)"

definition dead_receipt :: "consumer_spec \<Rightarrow> receipt list \<Rightarrow> uuid \<Rightarrow> bool" where
  "dead_receipt spec rows eid \<longleftrightarrow> (\<exists>r \<in> set rows. receipt_for (sp_name spec) eid r \<and> rc_status r = Rc_DEAD)"



text \<open>What later transactions keep of earlier ones.\<close>

definition db_grows :: "consumer_spec \<Rightarrow> consumer_db \<Rightarrow> consumer_db \<Rightarrow> bool" where
  "db_grows spec db db' \<longleftrightarrow>
     (\<forall>i. finished_receipt spec (cd_receipts db) i \<longrightarrow> finished_receipt spec (cd_receipts db') i) \<and>
     (\<forall>i. dead_receipt spec (cd_receipts db) i \<longrightarrow> dead_receipt spec (cd_receipts db') i) \<and>
     set (cd_dead db) \<subseteq> set (cd_dead db')"

lemma db_grows_refl [simp]: "db_grows spec db db"
  by (simp add: db_grows_def)

lemma list_ex_update_where: "(\<And>r. p (f r) = p r) \<Longrightarrow> list_ex p (update_where q f rows) = list_ex p rows"
  by (induction rows) (auto simp: update_where_def)











section \<open>Replay after a failed acknowledgement\<close>

definition handler_succeeds :: "delivery_env \<Rightarrow> bool" where
  "handler_succeeds env \<longleftrightarrow> de_vanished env = 0 \<and> (\<forall>k. de_handler env k = Inr ()) \<and> de_commit env = Tx_commit"

definition accepted_message :: "consumer_spec \<Rightarrow> event_registry \<Rightarrow> message \<Rightarrow> bool" where
  "accepted_message spec reg msg \<longleftrightarrow> envelope_valid (ms_data msg) \<and> ev_scope (ms_data msg) = Scope_TENANT \<and>
     check_provenance (ms_subject msg) (ms_data msg) = Inr () \<and> decode reg (ms_data msg) = Inr (ev_payload (ms_data msg)) \<and>
     ev_type (ms_data msg) \<in> set (sp_event_types spec)"

text \<open>A delivery whose handler runs: its effect commits, then the acknowledgement decides.\<close>

lemma attempt_runs:
  assumes ok: "handler_succeeds env"
    and rows: "find (receipt_for (sp_name spec) (ev_id e)) (cd_receipts db) = None \<or>
      (\<exists>r. find (receipt_for (sp_name spec) (ev_id e)) (cd_receipts db) = Some r \<and> rc_status r = Rc_PROCESSING)"
  shows "\<exists>db'. attempt_delivery spec env e k db = (db', False, de_ack env) \<and>
    cd_effects db' = cd_effects db @ [(sp_name spec, ev_id e)] \<and> cd_dead db' = cd_dead db \<and> cd_next db' = cd_next db \<and>
    list_ex (receipt_for (sp_name spec) (ev_id e)) (cd_receipts db')"
proof -
  have "\<exists>rows claim. claim_receipt (de_now env) 0 (sp_name spec) e k (cd_receipts db) = Inr (rows, claim) \<and>
    \<not> rk_already_finished claim \<and> list_ex (receipt_for (sp_name spec) (ev_id e)) rows"
  proof (cases "find (receipt_for (sp_name spec) (ev_id e)) (cd_receipts db)")
    case None
    then show ?thesis by (simp add: claim_receipt_def receipt_for_def)
  next
    case (Some r)
    then have r: "r \<in> set (cd_receipts db)" "receipt_for (sp_name spec) (ev_id e) r" "rc_status r = Rc_PROCESSING"
      using rows find_Some_D by fastforce+
    then have "list_ex (receipt_for (sp_name spec) (ev_id e)) (cd_receipts db)" by (auto simp: list_ex_iff)
    then have "list_ex (receipt_for (sp_name spec) (ev_id e)) (update_where (receipt_for (sp_name spec) (ev_id e))
        (\<lambda>x. x\<lparr>rc_status := Rc_PROCESSING, rc_attempt_count := rc_attempt_count r + 1, rc_updated_at := de_now env\<rparr>) (cd_receipts db))"
      by (subst list_ex_update_where) (simp_all add: receipt_for_def)
    then show ?thesis using Some r(3) by (simp add: claim_receipt_def)
  qed
  then obtain rows claim where c: "claim_receipt (de_now env) 0 (sp_name spec) e k (cd_receipts db) = Inr (rows, claim)"
    "\<not> rk_already_finished claim" "list_ex (receipt_for (sp_name spec) (ev_id e)) rows" by blast
  let ?db = "db\<lparr>cd_receipts := mark_processed (de_now env) (sp_name spec) (ev_id e) rows, cd_effects := cd_effects db @ [(sp_name spec, ev_id e)]\<rparr>"
  have "handle_event spec env e k db = Inr (?db, claim)" using ok c by (simp add: handle_event_def handler_succeeds_def)
  then have "attempt_delivery spec env e k db = (?db, False, de_ack env)"
    using ok c(2) by (simp add: attempt_delivery_def handler_succeeds_def end_tx_def)
  moreover have "list_ex (receipt_for (sp_name spec) (ev_id e)) (cd_receipts ?db)"
    using c(3) by (simp add: mark_processed_def list_ex_update_where receipt_for_def)
  ultimately show ?thesis by (intro exI [of _ ?db]) simp
qed

lemma find_update_where:
  assumes "list_ex p rows" and "\<And>r. p (f r) = p r"
  shows "\<exists>r. find p (update_where p f rows) = Some (f r)"
  using assms by (induction rows) (auto simp: update_where_def)

lemma process_accepted:
  assumes "accepted_message spec reg msg" and "attempt_delivery spec env (ms_data msg) (ms_delivery msg) db = (db', False, outcome)"
  shows "outcome = Inr () \<Longrightarrow> process_delivery cfg spec reg env msg (db, stats) =
      ((db', stats\<lparr>cs_processed := cs_processed stats + 1\<rparr>), Dr_answer An_ack)"
    and "outcome = Inl exc \<Longrightarrow> route_failure cfg spec exc (ms_delivery msg) = None \<Longrightarrow>
      process_delivery cfg spec reg env msg (db, stats) = ((db', stats), Dr_terminal (ms_data msg) exc (ms_delivery msg))"
  using assms by (auto simp: process_delivery_def accepted_message_def to_envelope_def)

text \<open>
  C34: The guarantee ends at the replay tool. When the acknowledgement of a processed event
  raises an exception that is not retryable, the event is recorded dead although its effect
  committed; replaying that dead letter arms the receipt again and the next delivery
  commits the effect a second time.
\<close>

theorem replay_repeats_effect:
  assumes msg: "accepted_message spec reg msg"
    and new: "find (receipt_for (sp_name spec) (ev_id (ms_data msg))) (cd_receipts db) = None"
      "\<not> list_ex (dead_letter_known (ev_id (ms_data msg)) Origin_CONSUMER (Some (sp_name spec))) (cd_dead db)"
      "\<forall>d \<in> set (cd_dead db). dl_id d \<noteq> cd_next db"
    and env: "handler_succeeds env1" "de_ack env1 = Inl exc" "route_failure cfg spec exc (ms_delivery msg) = None"
      "te_commit env2 = Tx_commit" "handler_succeeds env3" "de_ack env3 = Inr ()"
    and pub: "subject_for rcfg (ms_data msg) = Inr sub" "transport_publish available reply = Inr receipt"
  shows "\<exists>db1 db2 db3 db4 st2 st4 ans.
    process_delivery cfg spec reg env1 msg (db, stats) = ((db1, stats), Dr_terminal (ms_data msg) exc (ms_delivery msg)) \<and>
    process_terminal cfg spec env2 (ms_data msg) exc (ms_delivery msg) (db1, stats) = ((db2, st2), ans) \<and>
    replay_consumer rcfg available reply now (cd_next db) db2 = Some db3 \<and>
    process_delivery cfg spec reg env3 msg (db3, st2) = ((db4, st4), Dr_answer An_ack) \<and>
    cd_effects db4 = cd_effects db @ [(sp_name spec, ev_id (ms_data msg)), (sp_name spec, ev_id (ms_data msg))]"
proof -
  let ?e = "ms_data msg" and ?k = "ms_delivery msg" and ?x = "(sp_name spec, ev_id (ms_data msg))"
  let ?p = "receipt_for (sp_name spec) (ev_id ?e)"
  have e: "envelope_valid ?e" "ev_scope ?e = Scope_TENANT" using msg by (simp_all add: accepted_message_def)
  then obtain org where org: "ev_org ?e = Some org" by (auto simp: envelope_valid_def)
  obtain db1 where db1: "attempt_delivery spec env1 ?e ?k db = (db1, False, Inl exc)" "cd_effects db1 = cd_effects db @ [?x]"
    "cd_dead db1 = cd_dead db" "cd_next db1 = cd_next db" "list_ex ?p (cd_receipts db1)"
    using attempt_runs [OF env(1), of spec ?e db ?k] new(1) env(2) by auto
  define db2 where "db2 = terminal_records spec env2 ?e exc ?k db1"
  obtain d where d: "cd_dead db2 = cd_dead db @ [d]" "dl_id d = cd_next db" "dl_replayed_at d = None" "dl_origin d = Origin_CONSUMER"
    "dl_envelope d = ?e" "dl_consumer_name d = Some (sp_name spec)"
    using new(2) e org db1(3,4) by (simp add: db2_def terminal_records_def record_dead_letter_def)
  have r2: "list_ex ?p (cd_receipts db2)"
    using db1(5) by (simp add: db2_def terminal_records_def record_terminal_def list_ex_update_where receipt_for_def)
  have pend: "pending_dead_letter (cd_next db) (cd_dead db2) = Some d"
    using d new(3) unfolding pending_dead_letter_def by (intro find_SomeI) auto
  define db3 where "db3 = db2\<lparr>cd_receipts := update_where ?p (\<lambda>r. r\<lparr>rc_status := Rc_PROCESSING, rc_last_error_code := None,
    rc_updated_at := now\<rparr>) (cd_receipts db2), cd_dead := mark_replayed now (cd_next db) (cd_dead db2)\<rparr>"
  have "(\<lambda>r. dl_consumer_name d = Some (rc_consumer r) \<and> rc_event_id r = ev_id (dl_envelope d)) = ?p"
    using d by (auto simp: fun_eq_iff receipt_for_def)
  then have replay: "replay_consumer rcfg available reply now (cd_next db) db2 = Some db3"
    using pend d e(1) pub by (simp add: replay_consumer_def db3_def)
  have "\<exists>r. find ?p (cd_receipts db3) = Some r \<and> rc_status r = Rc_PROCESSING"
    using find_update_where [OF r2, of "\<lambda>r. r\<lparr>rc_status := Rc_PROCESSING, rc_last_error_code := None, rc_updated_at := now\<rparr>"]
    by (auto simp: db3_def receipt_for_def)
  then obtain db4 where db4: "attempt_delivery spec env3 ?e ?k db3 = (db4, False, Inr ())" "cd_effects db4 = cd_effects db3 @ [?x]"
    using attempt_runs [OF env(5), of spec ?e db3 ?k] env(6) by auto
  have "process_terminal cfg spec env2 ?e exc ?k (db1, stats) =
      ((db2, stats\<lparr>cs_dead_lettered := cs_dead_lettered stats + 1\<rparr>), if te_term_ok env2 then An_term else An_none)"
    using env(4) by (simp add: process_terminal_def end_tx_def db2_def)
  moreover have "cd_effects db4 = cd_effects db @ [?x, ?x]"
    using db1(2) db4(2) by (simp add: db3_def db2_def terminal_records_def)
  ultimately show ?thesis
    using process_accepted(2) [OF msg db1(1) refl env(3)] process_accepted(1) [OF msg db4(1) refl] replay by blast
qed

section \<open>A concrete consumer\<close>

definition consumer_demo_cfg :: consumer_config where
  "consumer_demo_cfg = \<lparr>cc_max_delivery_attempts = 8, cc_base_delay = 1, cc_max_delay = 300\<rparr>"

definition consumer_demo_spec :: consumer_spec where
  "consumer_demo_spec = \<lparr>sp_name = ''billing'', sp_event_types = [''workflow.run.started''], sp_max_delivery_attempts = None\<rparr>"

definition consumer_demo_registry :: event_registry where
  "consumer_demo_registry = [((''workflow.run.started'', 1), \<lambda>_. True)]"

definition consumer_demo_message :: message where
  "consumer_demo_message = \<lparr>ms_subject = ''nxs.test.tenant.workflow.run.started'', ms_data = demo_envelope, ms_delivery = 1\<rparr>"

definition consumer_demo_env :: "ev_error + unit \<Rightarrow> delivery_env" where
  "consumer_demo_env ack = \<lparr>de_now = 0, de_vanished = 0, de_handler = (\<lambda>_. Inr ()), de_commit = Tx_commit, de_ack = ack, de_answer_ok = True\<rparr>"


lemma consumer_demo_accepted: "accepted_message consumer_demo_spec consumer_demo_registry consumer_demo_message"
proof -
  have parse: "parse_subject ''nxs.test.tenant.workflow.run.started'' =
      Inr \<lparr>sj_prefix = ''nxs'', sj_environment = ''test'', sj_scope = Scope_TENANT, sj_domain = ''workflow'', sj_event = ''run.started''\<rparr>"
    by code_simp
  have "check_provenance ''nxs.test.tenant.workflow.run.started'' demo_envelope = Inr ()"
    unfolding check_provenance_def parse by (simp add: demo_envelope_def ev_domain_def payload_org_agrees_def)
  moreover have "decode consumer_demo_registry demo_envelope = Inr (ev_payload demo_envelope)"
    by (simp add: decode_def model_for_def consumer_demo_registry_def demo_envelope_def)
  moreover have "ev_scope demo_envelope = Scope_TENANT" "ev_type demo_envelope = ''workflow.run.started''" by (simp_all add: demo_envelope_def)
  ultimately show ?thesis
    using demo_envelope_valid by (simp add: accepted_message_def consumer_demo_message_def consumer_demo_spec_def)
qed

lemma consumer_demo_handler: "handler_succeeds (consumer_demo_env ack)"
  by (simp add: handler_succeeds_def consumer_demo_env_def)



theorem replay_repeats_effect_witness:
  "\<exists>db3 db4 st2 st4. process_delivery consumer_demo_cfg consumer_demo_spec consumer_demo_registry (consumer_demo_env (Inr ()))
       consumer_demo_message (db3, st2) = ((db4, st4), Dr_answer An_ack) \<and>
     cd_effects db4 = [(''billing'', ev_id demo_envelope), (''billing'', ev_id demo_envelope)]"
proof -
  let ?exc = "Other_exception [''ConnectionClosedError'', ''Error'']"
  let ?rcfg = "\<lparr>rl_prefix = ''nxs'', rl_environment = ''test'', rl_batch_size = 10, rl_lease_seconds = 30, rl_max_attempts = 8,
    rl_base_delay = 1, rl_max_delay = 300\<rparr> :: relay_config"
  let ?db = "sy_db consumer_init"
  have "build_subject ''nxs'' ''test'' Scope_TENANT ''workflow'' ''run.started'' =
      Inr \<lparr>sj_prefix = ''nxs'', sj_environment = ''test'', sj_scope = Scope_TENANT, sj_domain = ''workflow'', sj_event = ''run.started''\<rparr>"
    by code_simp
  then have sub: "subject_for ?rcfg (ms_data consumer_demo_message) = Inr ''nxs.test.tenant.workflow.run.started''"
    by (simp add: subject_for_def envelope_subject_def demo_envelope_def ev_domain_def ev_name_def subject_str_def consumer_demo_message_def)
  have route: "route_failure consumer_demo_cfg consumer_demo_spec ?exc (ms_delivery consumer_demo_message) = None"
    by (simp add: route_failure_def classify_failure_def retryable_names_def)
  have "find (receipt_for (sp_name consumer_demo_spec) (ev_id (ms_data consumer_demo_message))) (cd_receipts ?db) = None"
    "\<not> list_ex (dead_letter_known (ev_id (ms_data consumer_demo_message)) Origin_CONSUMER (Some (sp_name consumer_demo_spec))) (cd_dead ?db)"
    "\<forall>d \<in> set (cd_dead ?db). dl_id d \<noteq> cd_next ?db" "cd_effects ?db = []" by (simp_all add: consumer_init_def)
  moreover have "de_ack (consumer_demo_env ack) = ack" for ack by (simp add: consumer_demo_env_def)
  moreover have "transport_publish True (Js_ack ''NXS'' 2 False) = Inr \<lparr>pr_stream = ''NXS'', pr_sequence = 2, pr_duplicate = False\<rparr>"
    by (simp add: transport_publish_def)
  ultimately show ?thesis
    using replay_repeats_effect [OF consumer_demo_accepted _ _ _ consumer_demo_handler _ route _ consumer_demo_handler _ sub,
        of ?db "Inl ?exc" "\<lparr>te_now = 0, te_commit = Tx_commit, te_term_ok = True, te_nak_ok = True\<rparr>" "Inr ()"]
    by (fastforce simp: consumer_demo_spec_def consumer_demo_message_def)
qed

end
