(* ===== verification/Campaign_Store.thy ===== *)
theory Campaign_Store
  imports Python_Text
begin

text \<open>
  \<^verbatim>\<open>campaigns/state_machine.py\<close>, \<^verbatim>\<open>entities.py\<close>, \<^verbatim>\<open>identity.py\<close>, \<^verbatim>\<open>errors.py\<close> and the tables of
  \<^verbatim>\<open>domain/campaigns/models.py\<close>: states and their transition tables, drafts and requests with their
  validation, quiet hours, and the rows of one organization as its tenant session sees them.
  A table lists its rows in the order of insertion, which is the order \<^verbatim>\<open>created_at, id\<close>.
  Columns nothing reads (the timestamps of a row, the ids of windows, preferences, epochs,
  suppressions and history entries) are left out.
\<close>

section \<open>States\<close>

datatype campaign_state =
    Camp_DRAFT | Camp_PREPARING | Camp_READY | Camp_SCHEDULED | Camp_RUNNING | Camp_PAUSED
  | Camp_CANCELLING | Camp_COMPLETED | Camp_FAILED | Camp_CANCELLED

datatype snapshot_state = Snap_OPEN | Snap_SEALED | Snap_FAILED

datatype recipient_state = Rec_PENDING | Rec_ELIGIBLE | Rec_DEFERRED | Rec_SUPPRESSED | Rec_CANCELLED

datatype crun_state =
    Crun_PENDING_RELEASE | Crun_MATERIALIZING | Crun_RUNNING | Crun_PAUSED | Crun_CANCELLING
  | Crun_COMPLETED | Crun_FAILED | Crun_CANCELLED

datatype attempt_state =
    Att_PENDING | Att_CLAIMED | Att_WORKFLOW_RUNNING | Att_READY_TO_SEND | Att_DISPATCH_AUTHORIZED
  | Att_DISPATCHED | Att_SUPPRESSED | Att_FAILED | Att_CANCELLED

datatype permit_state = Perm_PENDING | Perm_AUTHORIZED | Perm_CONSUMED | Perm_FAILED | Perm_EXPIRED

datatype campaign_error =
    CampaignNotFoundError | CampaignRunNotFoundError | CampaignInvalidStateError | CampaignConflictError
  | CampaignExecutionFencedError | CampaignDispatchFailedError | Campaign_ValueError | Campaign_NoResultFound
  | Campaign_IntegrityError

fun campaign_moves :: "campaign_state \<Rightarrow> campaign_state list" where
  "campaign_moves Camp_DRAFT = [Camp_PREPARING, Camp_CANCELLING]"
| "campaign_moves Camp_PREPARING = [Camp_READY, Camp_DRAFT, Camp_CANCELLING]"
| "campaign_moves Camp_READY = [Camp_SCHEDULED, Camp_RUNNING, Camp_CANCELLING]"
| "campaign_moves Camp_SCHEDULED = [Camp_RUNNING, Camp_FAILED, Camp_CANCELLING]"
| "campaign_moves Camp_RUNNING = [Camp_PAUSED, Camp_COMPLETED, Camp_FAILED, Camp_CANCELLING]"
| "campaign_moves Camp_PAUSED = [Camp_RUNNING, Camp_FAILED, Camp_CANCELLING]"
| "campaign_moves Camp_CANCELLING = [Camp_CANCELLED]"
| "campaign_moves _ = []"

definition require_campaign_transition :: "campaign_state \<Rightarrow> campaign_state \<Rightarrow> campaign_error + unit" where
  "require_campaign_transition current target = checkE (target \<in> set (campaign_moves current)) CampaignInvalidStateError"

fun attempt_moves :: "attempt_state \<Rightarrow> attempt_state list" where
  "attempt_moves Att_PENDING = [Att_CLAIMED, Att_SUPPRESSED, Att_CANCELLED]"
| "attempt_moves Att_CLAIMED = [Att_WORKFLOW_RUNNING, Att_SUPPRESSED, Att_FAILED, Att_CANCELLED]"
| "attempt_moves Att_WORKFLOW_RUNNING = [Att_READY_TO_SEND, Att_SUPPRESSED, Att_FAILED, Att_CANCELLED]"
| "attempt_moves Att_READY_TO_SEND = [Att_DISPATCH_AUTHORIZED, Att_SUPPRESSED, Att_FAILED, Att_CANCELLED]"
| "attempt_moves Att_DISPATCH_AUTHORIZED = [Att_DISPATCHED, Att_FAILED]"
| "attempt_moves _ = []"

definition resolve_attempt_transition :: "attempt_state \<Rightarrow> attempt_state \<Rightarrow> campaign_error + unit" where
  "resolve_attempt_transition current target = checkE (target \<in> set (attempt_moves current)) CampaignInvalidStateError"

definition attempt_over :: "attempt_state \<Rightarrow> bool" where
  "attempt_over st \<longleftrightarrow> st = Att_DISPATCHED \<or> st = Att_SUPPRESSED \<or> st = Att_FAILED \<or> st = Att_CANCELLED"

text \<open>Attempts follow a lifecycle of the shared interface: closed, without loops, absorbing at its ends.\<close>

interpretation attempt_life: lifecycle attempt_moves attempt_over Att_PENDING
proof unfold_locales
  show "attempt_over s \<longleftrightarrow> attempt_moves s = []" for s by (cases s) (simp_all add: attempt_over_def)
  show "s \<notin> set (attempt_moves s)" for s by (cases s) simp_all
  show "Att_PENDING \<notin> set (attempt_moves s)" for s by (cases s) simp_all
  show "\<exists>t. attempt_over t \<and> (\<lambda>a b. b \<in> set (attempt_moves a))\<^sup>*\<^sup>* s t" for s
  proof (cases "attempt_moves s = []")
    case True
    then show ?thesis by (intro exI [of _ s]) (cases s, simp_all add: attempt_over_def)
  next
    case False
    then have "\<exists>t. t \<in> set (attempt_moves s) \<and> attempt_over t" by (cases s) (auto simp: attempt_over_def)
    then show ?thesis by blast
  qed
qed

section \<open>Drafts and requests\<close>

datatype msg_channel = Chan_WHATSAPP | Chan_EMAIL | Chan_SMS

fun msg_channel_value :: "msg_channel \<Rightarrow> string" where
  "msg_channel_value Chan_WHATSAPP = ''WHATSAPP''"
| "msg_channel_value Chan_EMAIL = ''EMAIL''"
| "msg_channel_value Chan_SMS = ''SMS''"

datatype audience_source = Src_EXPLICIT_CUSTOMERS | Src_SAVED_SEGMENT | Src_IMPORT_ARTIFACT

datatype eligibility_reason =
    El_ELIGIBLE | El_DEFERRED_QUIET_HOURS | El_SUPPRESSED_GLOBAL | El_SUPPRESSED_CAMPAIGN | El_NO_CONSENT
  | El_UNSUBSCRIBED | El_DO_NOT_CONTACT | El_CUSTOMER_INACTIVE | El_IDENTITY_INACTIVE | El_INVALID_DESTINATION
  | El_NO_CHANNEL | El_DUPLICATE | El_TENANT_MISMATCH | El_CANCELLED

datatype suppression_scope = Supp_GLOBAL | Supp_CAMPAIGN | Supp_CUSTOMER | Supp_IDENTITY

text \<open>Wall times are microseconds since local midnight.\<close>

record quiet_hours =
  qh_enabled :: bool
  qh_timezone :: string
  qh_start :: int
  qh_end :: int

record throttle_policy =
  tp_recipients_per_tick :: int
  tp_messages_per_minute :: int
  tp_campaign_limit :: int
  tp_org_per_minute :: int

definition throttle_ok :: "throttle_policy \<Rightarrow> bool" where
  "throttle_ok p \<longleftrightarrow> 1 \<le> tp_recipients_per_tick p \<and> tp_recipients_per_tick p \<le> 500 \<and>
     1 \<le> tp_messages_per_minute p \<and> tp_messages_per_minute p \<le> 100000 \<and>
     1 \<le> tp_campaign_limit p \<and> tp_campaign_limit p \<le> 10000000 \<and>
     1 \<le> tp_org_per_minute p \<and> tp_org_per_minute p \<le> 1000000"

record audience_member =
  am_customer :: uuid
  am_identity :: uuid
  am_conversation :: uuid

record campaign_draft =
  dr_release_version :: uuid
  dr_recipient_version :: uuid
  dr_account :: uuid
  dr_channel :: msg_channel
  dr_content :: json
  dr_subject :: "string option"
  dr_source :: audience_source
  dr_audience :: "audience_member list"
  dr_source_reference :: "string option"
  dr_quiet :: quiet_hours
  dr_throttle :: throttle_policy

text \<open>\<^verbatim>\<open>CampaignDraft._bounded\<close>; the size of its JSON text is an argument.\<close>

definition draft_ok :: "nat \<Rightarrow> campaign_draft \<Rightarrow> bool" where
  "draft_ok json_length d \<longleftrightarrow>
     (if dr_source d = Src_EXPLICIT_CUSTOMERS then dr_audience d \<noteq> [] \<and> length (dr_audience d) \<le> 500
      else dr_audience d = [] \<and> dr_source_reference d \<noteq> None) \<and>
     distinct (map am_customer (dr_audience d)) \<and>
     int (length (dr_audience d)) \<le> tp_campaign_limit (dr_throttle d) \<and>
     (dr_channel d = Chan_EMAIL \<or> dr_subject d = None) \<and> json_length \<le> 1048576 \<and>
     throttle_ok (dr_throttle d)"

record preference_request =
  pq_customer :: uuid
  pq_identity :: uuid
  pq_channel :: msg_channel
  pq_consent :: bool
  pq_unsubscribed :: bool
  pq_do_not_contact :: bool
  pq_evidence :: "string option"

definition preference_request_ok :: "preference_request \<Rightarrow> bool" where
  "preference_request_ok q \<longleftrightarrow>
     (pq_consent q \<longrightarrow> pq_evidence q \<noteq> None \<and> pq_evidence q \<noteq> Some []) \<and>
     \<not> ((pq_unsubscribed q \<or> pq_do_not_contact q) \<and> pq_consent q)"

record suppression_request =
  sq_channel :: msg_channel
  sq_scope :: suppression_scope
  sq_campaign :: "uuid option"
  sq_customer :: "uuid option"
  sq_identity :: "uuid option"
  sq_reason :: string

definition suppression_request_ok :: "suppression_request \<Rightarrow> bool" where
  "suppression_request_ok q =
     (let supplied = filter (\<lambda>x. x \<noteq> None) [sq_campaign q, sq_customer q, sq_identity q]
      in case sq_scope q of
           Supp_GLOBAL \<Rightarrow> supplied = []
         | Supp_CAMPAIGN \<Rightarrow> sq_campaign q \<noteq> None \<and> length supplied = 1
         | Supp_CUSTOMER \<Rightarrow> sq_customer q \<noteq> None \<and> length supplied = 1
         | Supp_IDENTITY \<Rightarrow> sq_identity q \<noteq> None \<and> length supplied = 1)"

text \<open>
  \<^verbatim>\<open>str.upper\<close> on Latin-1 text. The two letters whose capital lies outside Latin-1 stay as
  they are: neither form is an ASCII letter.
\<close>

definition upper_one :: "char \<Rightarrow> string" where
  "upper_one c = (let n = code_point c in
     if 97 \<le> n \<and> n \<le> 122 \<or> 224 \<le> n \<and> n \<le> 254 \<and> n \<noteq> 247 then [char_of (n - 32)]
     else if n = 223 then ''SS'' else [c])"

definition py_upper :: "string \<Rightarrow> string" where
  "py_upper s = concat (map upper_one s)"

section \<open>Quiet hours\<close>

text \<open>
  What the code uses of a time zone: the wall clock at an instant, and the instant of a
  wall clock reading, both in microseconds.
\<close>

record zone =
  zn_local :: "time \<Rightarrow> int"
  zn_utc :: "int \<Rightarrow> time"

abbreviation day_us :: int where
  "day_us \<equiv> 86400000000"

definition quiet_inside :: "quiet_hours \<Rightarrow> int \<Rightarrow> bool" where
  "quiet_inside p current \<longleftrightarrow>
     qh_start p < qh_end p \<and> qh_start p \<le> current \<and> current < qh_end p \<or>
     qh_end p \<le> qh_start p \<and> (qh_start p \<le> current \<or> current < qh_end p)"

definition quiet_hours_next :: "(string \<Rightarrow> zone) \<Rightarrow> time \<Rightarrow> quiet_hours \<Rightarrow> time option" where
  "quiet_hours_next zones now p =
     (if \<not> qh_enabled p then None
      else let z = zones (qh_timezone p); local = zn_local z now; current = local mod day_us in
        if \<not> quiet_inside p current then None
        else let end_date = local div day_us + (if qh_end p \<le> qh_start p \<and> qh_start p \<le> current then 1 else 0)
             in Some (zn_utc z (end_date * day_us + qh_end p)))"

section \<open>Identities\<close>

text \<open>The canonical JSON text of \<^verbatim>\<open>recipient_identity\<close>, hashed.\<close>

definition recipient_identity ::
  "(string \<Rightarrow> string) \<Rightarrow> uuid \<Rightarrow> uuid \<Rightarrow> nat \<Rightarrow> uuid \<Rightarrow> uuid \<Rightarrow> msg_channel \<Rightarrow> string" where
  "recipient_identity sha org campaign revision run recipient channel =
     sha (''{\"campaign_id\":\"'' @ uuid_str campaign @ ''\",\"channel\":\"'' @ msg_channel_value channel @
          ''\",\"organization_id\":\"'' @ uuid_str org @ ''\",\"recipient_id\":\"'' @ uuid_str recipient @
          ''\",\"revision\":'' @ decimal revision @ '',\"run_id\":\"'' @ uuid_str run @ ''\"}'')"

definition downstream_key :: "string \<Rightarrow> string \<Rightarrow> string" where
  "downstream_key prefix logical = ''campaign:'' @ prefix @ '':'' @ logical"

section \<open>Rows\<close>

record campaign_row =
  ca_id :: uuid
  ca_key :: string
  ca_name :: string
  ca_state :: campaign_state
  ca_revision :: nat
  ca_draft :: campaign_draft
  ca_prepared :: "uuid option"

record revision_row =
  cv_id :: uuid
  cv_campaign :: uuid
  cv_number :: nat
  cv_content_hash :: string
  cv_spec :: campaign_draft

record snapshot_row =
  sn_id :: uuid
  sn_revision :: uuid
  sn_state :: snapshot_state
  sn_source_digest :: string
  sn_cursor :: nat
  sn_resolved :: nat
  sn_eligible :: nat
  sn_rejected :: nat
  sn_sealed_at :: "time option"

record recipient_row =
  rp_id :: uuid
  rp_snapshot :: uuid
  rp_customer :: uuid
  rp_identity :: uuid
  rp_conversation :: uuid
  rp_channel :: msg_channel
  rp_fingerprint :: string
  rp_state :: recipient_state
  rp_reason :: eligibility_reason
  rp_next_at :: "time option"
  rp_consent_epoch :: nat
  rp_suppression_epoch :: nat

record crun_row =
  ru_id :: uuid
  ru_campaign :: uuid
  ru_revision :: uuid
  ru_snapshot :: uuid
  ru_state :: crun_state
  ru_key :: string
  ru_release_run :: "uuid option"
  ru_occurrence :: "uuid option"
  ru_schedule :: "uuid option"
  ru_claimed :: int
  ru_dispatched :: int
  ru_suppressed :: int
  ru_failed :: int
  ru_authorized :: int
  ru_cursor :: nat
  ru_materialized :: bool
  ru_cancel_count :: int
  ru_cancel_complete :: bool

record attempt_row =
  at_id :: uuid
  at_run :: uuid
  at_recipient :: uuid
  at_logical :: string
  at_state :: attempt_state
  at_number :: nat
  at_owner :: "uuid option"
  at_token :: "uuid option"
  at_claimed_at :: "time option"
  at_p14 :: string
  at_workflow :: "uuid option"
  at_p09 :: string
  at_message :: "uuid option"
  at_error :: "eligibility_reason option"

record permit_row =
  pm_id :: uuid
  pm_attempt :: uuid
  pm_state :: permit_state
  pm_token :: uuid
  pm_consent_epoch :: nat
  pm_suppression_epoch :: nat
  pm_p09 :: string
  pm_authorized_at :: time
  pm_consumed_at :: "time option"
  pm_message :: "uuid option"

record preference_row =
  pf_customer :: uuid
  pf_identity :: uuid
  pf_channel :: msg_channel
  pf_consent :: bool
  pf_unsubscribed :: bool
  pf_do_not_contact :: bool
  pf_epoch :: nat
  pf_evidence :: "string option"

record suppression_row =
  su_channel :: msg_channel
  su_scope :: suppression_scope
  su_campaign :: "uuid option"
  su_customer :: "uuid option"
  su_identity :: "uuid option"
  su_reason :: string
  su_active :: bool

record run_window =
  tw_run :: uuid
  tw_channel :: msg_channel
  tw_start :: time
  tw_count :: int

record org_window =
  ow_channel :: msg_channel
  ow_start :: time
  ow_count :: int

text \<open>What the campaign domain reads of the customer domain.\<close>

record customer_row =
  cu_id :: uuid
  cu_status :: string

record identity_row =
  ci_id :: uuid
  ci_customer :: uuid
  ci_status :: string
  ci_type :: string
  ci_value :: string

record conversation_row =
  cn_id :: uuid
  cn_customer :: uuid
  cn_status :: string
  cn_channel :: string

datatype hist_entity = Hist_CAMPAIGN | Hist_RUN | Hist_ATTEMPT | Hist_PERMIT

datatype any_state =
    Of_campaign campaign_state | Of_run crun_state | Of_attempt attempt_state | Of_permit permit_state

datatype hist_reason = Because string | Denied eligibility_reason

record history_row =
  hy_entity :: hist_entity
  hy_id :: uuid
  hy_from :: "any_state option"
  hy_to :: any_state
  hy_reason :: hist_reason

text \<open>What \<^verbatim>\<open>_campaign_event\<close> and \<^verbatim>\<open>_recipient_event\<close> put into the outbox of the same transaction.\<close>

record campaign_event =
  ce_type :: string
  ce_aggregate :: uuid
  ce_state :: any_state
  ce_reason :: "eligibility_reason option"
  ce_count :: "nat option"

record campaign_db =
  kb_campaigns :: "campaign_row list"
  kb_revisions :: "revision_row list"
  kb_snapshots :: "snapshot_row list"
  kb_recipients :: "recipient_row list"
  kb_runs :: "crun_row list"
  kb_attempts :: "attempt_row list"
  kb_permits :: "permit_row list"
  kb_preferences :: "preference_row list"
  kb_epochs :: "(msg_channel \<times> nat) list"
  kb_suppressions :: "suppression_row list"
  kb_windows :: "run_window list"
  kb_org_windows :: "org_window list"
  kb_history :: "history_row list"
  kb_events :: "campaign_event list"
  kb_customers :: "customer_row list"
  kb_identities :: "identity_row list"
  kb_conversations :: "conversation_row list"
  kb_next :: uuid

text \<open>What the repository is given: its organization, hashes and time zones.\<close>

record campaign_env =
  en_org :: uuid
  en_sha :: "string \<Rightarrow> string"
  en_draft_digest :: "campaign_draft \<Rightarrow> string"
  en_source_digest :: "campaign_draft \<Rightarrow> string"
  en_zones :: "string \<Rightarrow> zone"

end
