(* ===== verification/Campaign_Repository.thy ===== *)
theory Campaign_Repository
  imports Campaign_Store
begin

text \<open>
  \<^verbatim>\<open>domain/campaigns/repository.py\<close>: every operation of \<^verbatim>\<open>CampaignRepository\<close> that reads or
  writes state, on the rows of one organization. An operation that raises leaves no trace:
  its transaction is rolled back. Readings of the database clock, rows locked by other
  transactions and the ids other services hand out are arguments.
\<close>

section \<open>Rows by key\<close>

definition find_campaign :: "campaign_db \<Rightarrow> uuid \<Rightarrow> campaign_row option" where
  "find_campaign d i = find (\<lambda>r. ca_id r = i) (kb_campaigns d)"

definition find_revision :: "campaign_db \<Rightarrow> uuid \<Rightarrow> revision_row option" where
  "find_revision d i = find (\<lambda>r. cv_id r = i) (kb_revisions d)"

definition snapshot_for :: "campaign_db \<Rightarrow> uuid \<Rightarrow> snapshot_row option" where
  "snapshot_for d revision = find (\<lambda>r. sn_revision r = revision) (kb_snapshots d)"

definition find_crun :: "campaign_db \<Rightarrow> uuid \<Rightarrow> crun_row option" where
  "find_crun d i = find (\<lambda>r. ru_id r = i) (kb_runs d)"

definition find_attempt :: "campaign_db \<Rightarrow> uuid \<Rightarrow> attempt_row option" where
  "find_attempt d i = find (\<lambda>r. at_id r = i) (kb_attempts d)"

definition find_recipient :: "campaign_db \<Rightarrow> uuid \<Rightarrow> recipient_row option" where
  "find_recipient d i = find (\<lambda>r. rp_id r = i) (kb_recipients d)"

definition find_permit :: "campaign_db \<Rightarrow> uuid \<Rightarrow> permit_row option" where
  "find_permit d i = find (\<lambda>r. pm_id r = i) (kb_permits d)"

definition upd_campaign :: "uuid \<Rightarrow> (campaign_row \<Rightarrow> campaign_row) \<Rightarrow> campaign_db \<Rightarrow> campaign_db" where
  "upd_campaign i f d = d\<lparr>kb_campaigns := update_where (\<lambda>r. ca_id r = i) f (kb_campaigns d)\<rparr>"

definition upd_crun :: "uuid \<Rightarrow> (crun_row \<Rightarrow> crun_row) \<Rightarrow> campaign_db \<Rightarrow> campaign_db" where
  "upd_crun i f d = d\<lparr>kb_runs := update_where (\<lambda>r. ru_id r = i) f (kb_runs d)\<rparr>"

definition upd_snapshot :: "uuid \<Rightarrow> (snapshot_row \<Rightarrow> snapshot_row) \<Rightarrow> campaign_db \<Rightarrow> campaign_db" where
  "upd_snapshot i f d = d\<lparr>kb_snapshots := update_where (\<lambda>r. sn_id r = i) f (kb_snapshots d)\<rparr>"

definition upd_attempt :: "uuid \<Rightarrow> (attempt_row \<Rightarrow> attempt_row) \<Rightarrow> campaign_db \<Rightarrow> campaign_db" where
  "upd_attempt i f d = d\<lparr>kb_attempts := update_where (\<lambda>r. at_id r = i) f (kb_attempts d)\<rparr>"

definition upd_recipient :: "uuid \<Rightarrow> (recipient_row \<Rightarrow> recipient_row) \<Rightarrow> campaign_db \<Rightarrow> campaign_db" where
  "upd_recipient i f d = d\<lparr>kb_recipients := update_where (\<lambda>r. rp_id r = i) f (kb_recipients d)\<rparr>"

definition upd_permit :: "uuid \<Rightarrow> (permit_row \<Rightarrow> permit_row) \<Rightarrow> campaign_db \<Rightarrow> campaign_db" where
  "upd_permit i f d = d\<lparr>kb_permits := update_where (\<lambda>r. pm_id r = i) f (kb_permits d)\<rparr>"

definition note_transition ::
  "hist_entity \<Rightarrow> uuid \<Rightarrow> any_state option \<Rightarrow> any_state \<Rightarrow> hist_reason \<Rightarrow> campaign_db \<Rightarrow> campaign_db" where
  "note_transition entity i from_state to_state reason d =
     d\<lparr>kb_history := kb_history d @
        [\<lparr>hy_entity = entity, hy_id = i, hy_from = from_state, hy_to = to_state, hy_reason = reason\<rparr>]\<rparr>"

section \<open>Campaigns and their preparation\<close>

definition create_campaign ::
  "string \<Rightarrow> string \<Rightarrow> campaign_draft \<Rightarrow> campaign_db \<Rightarrow> campaign_error + campaign_row \<times> campaign_db" where
  "create_campaign key name draft d =
     (let row = \<lparr>ca_id = kb_next d, ca_key = key, ca_name = name, ca_state = Camp_DRAFT, ca_revision = 1,
                 ca_draft = draft, ca_prepared = None\<rparr>;
          d1 = d\<lparr>kb_campaigns := kb_campaigns d @ [row], kb_next := Suc (kb_next d)\<rparr>
      in bindE (checkE (\<not> list_ex (\<lambda>c. ca_key c = key) (kb_campaigns d)) Campaign_IntegrityError) (\<lambda>_.
         Inr (row, note_transition Hist_CAMPAIGN (ca_id row) None (Of_campaign Camp_DRAFT) (Because ''CAMPAIGN_CREATED'') d1)))"

definition update_campaign ::
  "campaign_row \<Rightarrow> string option \<Rightarrow> campaign_draft option \<Rightarrow> campaign_db \<Rightarrow> campaign_error + campaign_row \<times> campaign_db" where
  "update_campaign row name draft d =
     bindE (checkE (ca_state row = Camp_DRAFT) CampaignInvalidStateError) (\<lambda>_.
       let row1 = row\<lparr>ca_name := case_option (ca_name row) id name, ca_draft := case_option (ca_draft row) id draft,
                     ca_revision := Suc (ca_revision row)\<rparr>
       in Inr (row1, upd_campaign (ca_id row) (\<lambda>_. row1) d))"

text \<open>
  The references of a revision to workflow versions and an account are foreign keys of other
  domains; whether they hold is an argument.
\<close>

definition begin_preparation ::
  "campaign_env \<Rightarrow> (campaign_draft \<Rightarrow> bool) \<Rightarrow> campaign_row \<Rightarrow> campaign_db
     \<Rightarrow> campaign_error + (revision_row \<times> snapshot_row) \<times> campaign_db" where
  "begin_preparation env references_exist row d =
     bindE (require_campaign_transition (ca_state row) Camp_PREPARING) (\<lambda>_.
       let draft = ca_draft row; n = kb_next d;
           revision = \<lparr>cv_id = n, cv_campaign = ca_id row, cv_number = ca_revision row,
                       cv_content_hash = en_draft_digest env draft, cv_spec = draft\<rparr>;
           snapshot = \<lparr>sn_id = Suc n, sn_revision = n, sn_state = Snap_OPEN,
                       sn_source_digest = en_source_digest env draft, sn_cursor = 0, sn_resolved = 0,
                       sn_eligible = 0, sn_rejected = 0, sn_sealed_at = None\<rparr>;
           d1 = upd_campaign (ca_id row) (\<lambda>r. r\<lparr>ca_state := Camp_PREPARING\<rparr>) d;
           d2 = d1\<lparr>kb_revisions := kb_revisions d @ [revision], kb_snapshots := kb_snapshots d @ [snapshot],
                   kb_next := n + 2\<rparr>
       in bindE (checkE (\<not> list_ex (\<lambda>v. cv_campaign v = ca_id row \<and> cv_number v = ca_revision row) (kb_revisions d) \<and>
                         references_exist draft) Campaign_IntegrityError) (\<lambda>_.
          Inr ((revision, snapshot),
               note_transition Hist_CAMPAIGN (ca_id row) (Some (Of_campaign (ca_state row)))
                 (Of_campaign Camp_PREPARING) (Because ''CAMPAIGN_PREPARING'') d2)))"

definition active_preparation ::
  "uuid \<Rightarrow> nat \<Rightarrow> campaign_db \<Rightarrow> campaign_error + revision_row \<times> snapshot_row" where
  "active_preparation campaign number d =
     bindE (of_option CampaignInvalidStateError
       (find (\<lambda>v. cv_campaign v = campaign \<and> cv_number v = number) (kb_revisions d))) (\<lambda>revision.
     bindE (of_option CampaignInvalidStateError (snapshot_for d (cv_id revision))) (\<lambda>snapshot.
     bindE (checkE (sn_state snapshot = Snap_OPEN) CampaignInvalidStateError) (\<lambda>_.
     Inr (revision, snapshot))))"

section \<open>Eligibility\<close>

text \<open>\<^verbatim>\<open>_policy_epoch\<close> creates the row of a channel on first use.\<close>

definition policy_epoch :: "msg_channel \<Rightarrow> campaign_db \<Rightarrow> nat \<times> campaign_db" where
  "policy_epoch channel d =
     (case map_of (kb_epochs d) channel of
        Some e \<Rightarrow> (e, d)
      | None \<Rightarrow> (1, d\<lparr>kb_epochs := kb_epochs d @ [(channel, 1)]\<rparr>))"

definition suppression_matches :: "uuid \<Rightarrow> uuid \<Rightarrow> uuid \<Rightarrow> msg_channel \<Rightarrow> suppression_row \<Rightarrow> bool" where
  "suppression_matches campaign customer identity channel s \<longleftrightarrow>
     su_channel s = channel \<and> su_active s \<and>
     (su_scope s = Supp_GLOBAL \<or>
      su_scope s = Supp_CAMPAIGN \<and> su_campaign s = Some campaign \<or>
      su_scope s = Supp_CUSTOMER \<and> su_customer s = Some customer \<or>
      su_scope s = Supp_IDENTITY \<and> su_identity s = Some identity)"

text \<open>
  The reason, the next eligible instant, the two epochs and the destination. Of several
  matching suppressions the query may return any; the model takes the oldest, on which only the
  choice between the two reasons for a suppression depends.
\<close>

definition eligibility ::
  "campaign_env \<Rightarrow> time \<Rightarrow> uuid \<Rightarrow> uuid \<Rightarrow> uuid \<Rightarrow> uuid \<Rightarrow> msg_channel \<Rightarrow> quiet_hours \<Rightarrow> campaign_db
     \<Rightarrow> (eligibility_reason \<times> time option \<times> nat \<times> nat \<times> string) \<times> campaign_db" where
  "eligibility env now campaign customer identity conversation channel quiet d =
     (let cu = find (\<lambda>r. cu_id r = customer) (kb_customers d);
          ci = find (\<lambda>r. ci_id r = identity \<and> ci_customer r = customer) (kb_identities d);
          cn = find (\<lambda>r. cn_id r = conversation \<and> cn_customer r = customer) (kb_conversations d);
          (epoch, d1) = policy_epoch channel d;
          pf = find (\<lambda>r. pf_identity r = identity \<and> pf_channel r = channel) (kb_preferences d);
          consent = (case pf of None \<Rightarrow> 0 | Some p \<Rightarrow> pf_epoch p);
          destination = (case ci of None \<Rightarrow> ''invalid'' | Some r \<Rightarrow> ci_value r);
          suppression = find (suppression_matches campaign customer identity channel) (kb_suppressions d);
          (reason, next_at) =
            (if case cu of None \<Rightarrow> True | Some r \<Rightarrow> cu_status r \<noteq> ''ACTIVE'' then (El_CUSTOMER_INACTIVE, None)
             else if case ci of None \<Rightarrow> True | Some r \<Rightarrow> ci_status r \<noteq> ''ACTIVE'' then (El_IDENTITY_INACTIVE, None)
             else if case ci of None \<Rightarrow> True
                     | Some r \<Rightarrow> ci_type r \<noteq> (if channel = Chan_EMAIL then ''EMAIL'' else ''PHONE'')
                  then (El_INVALID_DESTINATION, None)
             else if case cn of None \<Rightarrow> True
                     | Some r \<Rightarrow> cn_status r = ''CLOSED'' \<or> py_upper (cn_channel r) \<noteq> msg_channel_value channel
                  then (El_NO_CHANNEL, None)
             else if case pf of None \<Rightarrow> False | Some p \<Rightarrow> pf_unsubscribed p then (El_UNSUBSCRIBED, None)
             else if case pf of None \<Rightarrow> False | Some p \<Rightarrow> pf_do_not_contact p then (El_DO_NOT_CONTACT, None)
             else if case pf of None \<Rightarrow> True | Some p \<Rightarrow> \<not> pf_consent p then (El_NO_CONSENT, None)
             else case suppression of
                    Some s \<Rightarrow> (if su_scope s = Supp_CAMPAIGN then El_SUPPRESSED_CAMPAIGN else El_SUPPRESSED_GLOBAL, None)
                  | None \<Rightarrow>
                      (case quiet_hours_next (en_zones env) now quiet of
                         Some due \<Rightarrow> (El_DEFERRED_QUIET_HOURS, Some due)
                       | None \<Rightarrow> (El_ELIGIBLE, None)))
      in ((reason, next_at, consent, epoch, destination), d1))"

section \<open>Materializing the audience\<close>

definition recipient_state_for :: "eligibility_reason \<Rightarrow> recipient_state" where
  "recipient_state_for reason =
     (if reason = El_DEFERRED_QUIET_HOURS then Rec_DEFERRED
      else if reason \<noteq> El_ELIGIBLE then Rec_SUPPRESSED else Rec_ELIGIBLE)"

text \<open>One member of the batch; the clock is read once for each, the reading indexed by the members still to come.\<close>

definition materialize_member ::
  "campaign_env \<Rightarrow> revision_row \<Rightarrow> snapshot_row \<Rightarrow> time \<Rightarrow> audience_member \<Rightarrow> campaign_db \<Rightarrow> campaign_error + campaign_db" where
  "materialize_member env revision snapshot now m d =
     (let spec = cv_spec revision;
          ((reason, next_at, consent, epoch, destination), d1) =
            eligibility env now (cv_campaign revision) (am_customer m) (am_identity m) (am_conversation m)
              (dr_channel spec) (dr_quiet spec) d;
          state = recipient_state_for reason;
          recipient = \<lparr>rp_id = kb_next d1, rp_snapshot = sn_id snapshot, rp_customer = am_customer m,
                       rp_identity = am_identity m, rp_conversation = am_conversation m,
                       rp_channel = dr_channel spec, rp_fingerprint = en_sha env destination,
                       rp_state = state, rp_reason = reason, rp_next_at = next_at,
                       rp_consent_epoch = consent, rp_suppression_epoch = epoch\<rparr>;
          ok = (list_ex (\<lambda>r. cu_id r = am_customer m) (kb_customers d) \<and>
                list_ex (\<lambda>r. ci_id r = am_identity m) (kb_identities d) \<and>
                list_ex (\<lambda>r. cn_id r = am_conversation m) (kb_conversations d) \<and>
                \<not> list_ex (\<lambda>r. rp_snapshot r = sn_id snapshot \<and> rp_customer r = am_customer m \<and>
                             rp_channel r = dr_channel spec) (kb_recipients d))
      in bindE (checkE ok Campaign_IntegrityError) (\<lambda>_.
         Inr (upd_snapshot (sn_id snapshot)
               (\<lambda>s. s\<lparr>sn_resolved := Suc (sn_resolved s),
                     sn_eligible := sn_eligible s + (if state = Rec_ELIGIBLE then 1 else 0),
                     sn_rejected := sn_rejected s + (if state = Rec_ELIGIBLE then 0 else 1)\<rparr>)
               (d1\<lparr>kb_recipients := kb_recipients d1 @ [recipient], kb_next := Suc (kb_next d1)\<rparr>))))"

fun materialize_members ::
  "campaign_env \<Rightarrow> revision_row \<Rightarrow> snapshot_row \<Rightarrow> (nat \<Rightarrow> time) \<Rightarrow> audience_member list \<Rightarrow> campaign_db
     \<Rightarrow> campaign_error + campaign_db" where
  "materialize_members env revision snapshot clock [] d = Inr d"
| "materialize_members env revision snapshot clock (m # ms) d =
     bindE (materialize_member env revision snapshot (clock (length ms)) m d)
       (materialize_members env revision snapshot clock ms)"

definition materialize_batch ::
  "campaign_env \<Rightarrow> uuid \<Rightarrow> nat \<Rightarrow> (nat \<Rightarrow> time) \<Rightarrow> campaign_db \<Rightarrow> campaign_error + snapshot_row \<times> campaign_db" where
  "materialize_batch env revision_id limit clock d =
     (case (find_revision d revision_id, snapshot_for d revision_id) of
        (Some revision, Some snapshot) \<Rightarrow>
          bindE (checkE (sn_state snapshot = Snap_OPEN) CampaignInvalidStateError) (\<lambda>_.
          bindE (checkE (dr_source (cv_spec revision) = Src_EXPLICIT_CUSTOMERS) CampaignInvalidStateError) (\<lambda>_.
          let members = take limit (drop (sn_cursor snapshot) (dr_audience (cv_spec revision)))
          in bindE (materialize_members env revision snapshot clock members d) (\<lambda>d1.
             let d2 = upd_snapshot (sn_id snapshot) (\<lambda>s. s\<lparr>sn_cursor := sn_cursor s + length members\<rparr>) d1
             in bindE (of_option Campaign_NoResultFound (snapshot_for d2 revision_id)) (\<lambda>s. Inr (s, d2)))))
      | _ \<Rightarrow> Inl CampaignInvalidStateError)"

definition seal_preparation ::
  "uuid \<Rightarrow> uuid \<Rightarrow> time \<Rightarrow> campaign_db \<Rightarrow> campaign_error + campaign_db" where
  "seal_preparation campaign_id revision_id now d =
     (case (find_campaign d campaign_id, snapshot_for d revision_id) of
        (Some campaign, Some snapshot) \<Rightarrow>
          bindE (checkE (ca_state campaign = Camp_PREPARING) CampaignInvalidStateError) (\<lambda>_.
          bindE (of_option CampaignInvalidStateError (find_revision d revision_id)) (\<lambda>revision.
          bindE (checkE (sn_cursor snapshot = length (dr_audience (cv_spec revision))) CampaignInvalidStateError) (\<lambda>_.
          let d1 = upd_snapshot (sn_id snapshot) (\<lambda>s. s\<lparr>sn_state := Snap_SEALED, sn_sealed_at := Some now\<rparr>) d;
              d2 = upd_campaign campaign_id (\<lambda>c. c\<lparr>ca_state := Camp_READY, ca_prepared := Some revision_id\<rparr>) d1
          in Inr (note_transition Hist_CAMPAIGN campaign_id (Some (Of_campaign Camp_PREPARING)) (Of_campaign Camp_READY)
                    (Because ''CAMPAIGN_PREPARED'') d2))))
      | _ \<Rightarrow> Inl CampaignInvalidStateError)"

section \<open>Runs and their release\<close>

definition new_crun :: "uuid \<Rightarrow> uuid \<Rightarrow> uuid \<Rightarrow> string \<Rightarrow> uuid \<Rightarrow> crun_row" where
  "new_crun campaign revision snapshot key i =
     \<lparr>ru_id = i, ru_campaign = campaign, ru_revision = revision, ru_snapshot = snapshot,
      ru_state = Crun_PENDING_RELEASE, ru_key = key, ru_release_run = None, ru_occurrence = None, ru_schedule = None,
      ru_claimed = 0, ru_dispatched = 0, ru_suppressed = 0, ru_failed = 0, ru_authorized = 0, ru_cursor = 0,
      ru_materialized = False, ru_cancel_count = 0, ru_cancel_complete = False\<rparr>"

definition create_crun ::
  "campaign_row \<Rightarrow> string \<Rightarrow> campaign_db \<Rightarrow> campaign_error + crun_row \<times> campaign_db" where
  "create_crun campaign key d =
     bindE (checkE (ca_state campaign = Camp_READY \<or> ca_state campaign = Camp_SCHEDULED) CampaignInvalidStateError) (\<lambda>_.
     bindE (of_option CampaignInvalidStateError (ca_prepared campaign)) (\<lambda>revision.
     bindE (of_option CampaignInvalidStateError (snapshot_for d revision)) (\<lambda>snapshot.
     bindE (checkE (sn_state snapshot = Snap_SEALED) CampaignInvalidStateError) (\<lambda>_.
     case find (\<lambda>r. ru_key r = key) (kb_runs d) of
       Some existing \<Rightarrow> Inr (existing, d)
     | None \<Rightarrow>
         (let row = new_crun (ca_id campaign) revision (sn_id snapshot) key (kb_next d)
          in Inr (row, note_transition Hist_RUN (ru_id row) None (Of_run Crun_PENDING_RELEASE)
                    (Because ''CAMPAIGN_RUN_CREATED'')
                    (d\<lparr>kb_runs := kb_runs d @ [row], kb_next := Suc (kb_next d)\<rparr>)))))))"

definition set_release_run :: "uuid \<Rightarrow> uuid \<Rightarrow> campaign_db \<Rightarrow> campaign_error + campaign_db" where
  "set_release_run run_id workflow d =
     bindE (of_option CampaignInvalidStateError (find_crun d run_id)) (\<lambda>row.
     bindE (checkE (ru_state row = Crun_PENDING_RELEASE) CampaignInvalidStateError) (\<lambda>_.
     bindE (checkE (ru_release_run row = None \<or> ru_release_run row = Some workflow) CampaignExecutionFencedError) (\<lambda>_.
     Inr (upd_crun run_id (\<lambda>r. r\<lparr>ru_release_run := Some workflow\<rparr>) d))))"

definition bind_scheduled_release ::
  "uuid \<Rightarrow> uuid \<Rightarrow> uuid \<Rightarrow> uuid \<Rightarrow> uuid \<Rightarrow> campaign_db \<Rightarrow> campaign_error + campaign_db" where
  "bind_scheduled_release run_id schedule occurrence workflow version d =
     bindE (of_option CampaignInvalidStateError (find_crun d run_id)) (\<lambda>row.
     bindE (of_option CampaignInvalidStateError (find_campaign d (ru_campaign row))) (\<lambda>campaign.
     if ru_occurrence row = Some occurrence \<and> ru_release_run row = Some workflow then Inr d
     else
     bindE (checkE (ru_occurrence row = None \<and> ru_release_run row = None) CampaignExecutionFencedError) (\<lambda>_.
     bindE (checkE (ru_state row = Crun_PENDING_RELEASE) CampaignInvalidStateError) (\<lambda>_.
     bindE (checkE (ca_state campaign = Camp_SCHEDULED) CampaignInvalidStateError) (\<lambda>_.
     bindE (checkE (ru_schedule row = Some schedule) CampaignExecutionFencedError) (\<lambda>_.
     bindE (of_option CampaignExecutionFencedError (find_revision d (ru_revision row))) (\<lambda>revision.
     bindE (checkE (dr_release_version (cv_spec revision) = version) CampaignExecutionFencedError) (\<lambda>_.
     bindE (checkE (\<not> list_ex (\<lambda>r. ru_occurrence r = Some occurrence) (kb_runs d)) Campaign_IntegrityError) (\<lambda>_.
     Inr (note_transition Hist_RUN run_id (Some (Of_run (ru_state row))) (Of_run (ru_state row))
            (Because ''SCHEDULED_RELEASE_BOUND'')
            (upd_crun run_id (\<lambda>r. r\<lparr>ru_release_run := Some workflow, ru_occurrence := Some occurrence\<rparr>) d)))))))))))"

definition bind_schedule :: "uuid \<Rightarrow> uuid \<Rightarrow> campaign_db \<Rightarrow> campaign_error + campaign_db" where
  "bind_schedule run_id schedule d =
     bindE (of_option CampaignInvalidStateError (find_crun d run_id)) (\<lambda>row.
     bindE (checkE (ru_schedule row = None \<or> ru_schedule row = Some schedule) CampaignExecutionFencedError) (\<lambda>_.
     bindE (checkE (\<not> list_ex (\<lambda>r. ru_schedule r = Some schedule \<and> ru_id r \<noteq> run_id) (kb_runs d)) Campaign_IntegrityError) (\<lambda>_.
     Inr (upd_crun run_id (\<lambda>r. r\<lparr>ru_schedule := Some schedule\<rparr>) d))))"

definition mark_campaign_scheduled :: "uuid \<Rightarrow> campaign_db \<Rightarrow> campaign_error + campaign_db" where
  "mark_campaign_scheduled campaign_id d =
     bindE (of_option CampaignInvalidStateError (find_campaign d campaign_id)) (\<lambda>campaign.
     if ca_state campaign = Camp_SCHEDULED then Inr d
     else bindE (require_campaign_transition (ca_state campaign) Camp_SCHEDULED) (\<lambda>_.
       Inr (note_transition Hist_CAMPAIGN campaign_id (Some (Of_campaign (ca_state campaign))) (Of_campaign Camp_SCHEDULED)
              (Because ''CAMPAIGN_SCHEDULED'')
              (upd_campaign campaign_id
                (\<lambda>c. c\<lparr>ca_state := Camp_SCHEDULED, ca_revision := Suc (ca_revision c)\<rparr>) d))))"

definition begin_run_activation :: "uuid \<Rightarrow> campaign_db \<Rightarrow> campaign_error + campaign_db" where
  "begin_run_activation run_id d =
     bindE (of_option CampaignInvalidStateError (find_crun d run_id)) (\<lambda>row.
     let campaign = find_campaign d (ru_campaign row);
         campaign_in = (\<lambda>states. case campaign of None \<Rightarrow> False | Some c \<Rightarrow> ca_state c \<in> set states)
     in if ru_state row = Crun_MATERIALIZING then
          bindE (checkE (campaign_in [Camp_RUNNING]) CampaignInvalidStateError) (\<lambda>_. Inr d)
        else if ru_state row = Crun_RUNNING then Inr d
        else
          bindE (checkE (ru_state row = Crun_PENDING_RELEASE) CampaignInvalidStateError) (\<lambda>_.
          bindE (of_option CampaignInvalidStateError campaign) (\<lambda>c.
          bindE (checkE (campaign_in [Camp_READY, Camp_SCHEDULED]) CampaignInvalidStateError) (\<lambda>_.
          Inr (note_transition Hist_RUN run_id (Some (Of_run Crun_PENDING_RELEASE)) (Of_run Crun_MATERIALIZING)
                 (Because ''ATTEMPT_MATERIALIZATION_STARTED'')
              (note_transition Hist_CAMPAIGN (ca_id c) (Some (Of_campaign (ca_state c))) (Of_campaign Camp_RUNNING)
                 (Because ''CAMPAIGN_STARTED'')
              (upd_crun run_id (\<lambda>r. r\<lparr>ru_state := Crun_MATERIALIZING\<rparr>)
              (upd_campaign (ca_id c) (\<lambda>r. r\<lparr>ca_state := Camp_RUNNING\<rparr>) d))))))))"

end
