(* ===== verification/Campaign_Execution.thy ===== *)
theory Campaign_Execution
  imports Campaign_Repository
begin

text \<open>
  The second half of \<^verbatim>\<open>domain/campaigns/repository.py\<close>: attempts of a released run, claims and
  their fence, send permits with the throttle, cancellation, pause and resume, contact preferences
  and suppressions.
\<close>

section \<open>Attempts\<close>

definition attempt_candidates :: "crun_row \<Rightarrow> campaign_db \<Rightarrow> recipient_row list" where
  "attempt_candidates run d =
     filter (\<lambda>r. rp_snapshot r = ru_snapshot run \<and> (rp_state r = Rec_ELIGIBLE \<or> rp_state r = Rec_DEFERRED))
       (kb_recipients d)"

definition new_attempt :: "campaign_env \<Rightarrow> crun_row \<Rightarrow> revision_row \<Rightarrow> recipient_row \<Rightarrow> uuid \<Rightarrow> attempt_row" where
  "new_attempt env run revision recipient i =
     (let logical = recipient_identity (en_sha env) (en_org env) (ru_campaign run) (cv_number revision) (ru_id run)
                      (rp_id recipient) (rp_channel recipient)
      in \<lparr>at_id = i, at_run = ru_id run, at_recipient = rp_id recipient, at_logical = logical,
          at_state = Att_PENDING, at_number = 1, at_owner = None, at_token = None, at_claimed_at = None,
          at_p14 = downstream_key ''workflow'' logical, at_workflow = None,
          at_p09 = downstream_key ''message'' logical, at_message = None, at_error = None\<rparr>)"

fun add_attempts ::
  "campaign_env \<Rightarrow> crun_row \<Rightarrow> revision_row \<Rightarrow> recipient_row list \<Rightarrow> campaign_db \<Rightarrow> campaign_error + campaign_db" where
  "add_attempts env run revision [] d = Inr d"
| "add_attempts env run revision (r # rs) d =
     (let a = new_attempt env run revision r (kb_next d)
      in bindE (checkE (\<not> list_ex (\<lambda>b. at_logical b = at_logical a \<or> at_p14 b = at_p14 a \<or> at_p09 b = at_p09 a)
                          (kb_attempts d)) Campaign_IntegrityError) (\<lambda>_.
         add_attempts env run revision rs
           (d\<lparr>kb_attempts := kb_attempts d @ [a], kb_next := Suc (kb_next d)\<rparr>)))"

text \<open>The answer is the number of attempts created.\<close>

definition materialize_attempt_batch ::
  "campaign_env \<Rightarrow> uuid \<Rightarrow> nat \<Rightarrow> campaign_db \<Rightarrow> campaign_error + nat \<times> campaign_db" where
  "materialize_attempt_batch env run_id limit d =
     bindE (checkE (1 \<le> limit) Campaign_ValueError) (\<lambda>_.
     bindE (of_option CampaignInvalidStateError (find_crun d run_id)) (\<lambda>run.
     bindE (checkE (ru_state run = Crun_MATERIALIZING) CampaignInvalidStateError) (\<lambda>_.
     bindE (of_option CampaignInvalidStateError (find_revision d (ru_revision run))) (\<lambda>revision.
     let candidates = attempt_candidates run d;
         recipients = take limit (drop (ru_cursor run) candidates);
         cursor = ru_cursor run + length recipients
     in bindE (add_attempts env run revision recipients d) (\<lambda>d1.
        if length candidates \<le> cursor then
          Inr (length recipients,
               note_transition Hist_RUN run_id (Some (Of_run Crun_MATERIALIZING)) (Of_run Crun_RUNNING)
                 (Because ''ATTEMPT_MATERIALIZATION_COMPLETED'')
                 (upd_crun run_id (\<lambda>r. r\<lparr>ru_state := Crun_RUNNING, ru_cursor := cursor, ru_materialized := True\<rparr>) d1))
        else Inr (length recipients, upd_crun run_id (\<lambda>r. r\<lparr>ru_cursor := cursor\<rparr>) d1))))))"

section \<open>Claims\<close>

text \<open>
  What a claim is used for: the run, the revision, the recipient and the attempt it names and
  the keys of the attempt, with its owner and token.
\<close>

record recipient_claim =
  cl_run :: crun_row
  cl_recipient :: recipient_row
  cl_attempt :: attempt_row
  cl_owner :: uuid
  cl_token :: uuid

definition recipient_due :: "time \<Rightarrow> campaign_db \<Rightarrow> attempt_row \<Rightarrow> bool" where
  "recipient_due now d a \<longleftrightarrow>
     list_ex (\<lambda>r. rp_id r = at_recipient a \<and> (case rp_next_at r of None \<Rightarrow> True | Some t \<Rightarrow> t \<le> now)) (kb_recipients d)"

definition claim_recipient ::
  "uuid \<Rightarrow> uuid \<Rightarrow> time \<Rightarrow> uuid list \<Rightarrow> campaign_db \<Rightarrow> campaign_error + recipient_claim option \<times> campaign_db" where
  "claim_recipient run_id owner now locked d =
     (case find_crun d run_id of
        None \<Rightarrow> Inr (None, d)
      | Some run \<Rightarrow>
          if ru_state run \<noteq> Crun_RUNNING then Inr (None, d)
          else if case find_campaign d (ru_campaign run) of None \<Rightarrow> True | Some c \<Rightarrow> ca_state c \<noteq> Camp_RUNNING
          then Inr (None, d)
          else case find (\<lambda>a. at_run a = run_id \<and> at_state a = Att_PENDING \<and> recipient_due now d a \<and>
                              at_id a \<notin> set locked) (kb_attempts d) of
                 None \<Rightarrow> Inr (None, d)
               | Some a \<Rightarrow>
                   (let token = kb_next d;
                        claimed = (\<lambda>r. r\<lparr>at_state := Att_CLAIMED, at_owner := Some owner, at_token := Some token,
                                         at_claimed_at := Some now\<rparr>);
                        counted = (\<lambda>r. r\<lparr>ru_claimed := ru_claimed r + 1\<rparr>)
                    in bindE (resolve_attempt_transition (at_state a) Att_CLAIMED) (\<lambda>_.
                       bindE (of_option Campaign_NoResultFound (find_recipient d (at_recipient a))) (\<lambda>recipient.
                       Inr (Some \<lparr>cl_run = counted run, cl_recipient = recipient, cl_attempt = claimed a,
                                  cl_owner = owner, cl_token = token\<rparr>,
                            note_transition Hist_ATTEMPT (at_id a) (Some (Of_attempt Att_PENDING)) (Of_attempt Att_CLAIMED)
                              (Because ''RECIPIENT_CLAIMED'')
                              (upd_attempt (at_id a) claimed (upd_crun run_id counted (d\<lparr>kb_next := Suc token\<rparr>))))))))"

definition owned_attempt ::
  "recipient_claim \<Rightarrow> attempt_state \<Rightarrow> campaign_db \<Rightarrow> campaign_error + attempt_row" where
  "owned_attempt claim state d =
     bindE (of_option CampaignExecutionFencedError (find_attempt d (at_id (cl_attempt claim)))) (\<lambda>row.
     bindE (checkE (at_state row = state \<and> at_owner row = Some (cl_owner claim) \<and> at_token row = Some (cl_token claim))
       CampaignExecutionFencedError) (\<lambda>_.
     Inr row))"

definition mark_workflow_started ::
  "recipient_claim \<Rightarrow> uuid \<Rightarrow> campaign_db \<Rightarrow> campaign_error + attempt_row \<times> campaign_db" where
  "mark_workflow_started claim workflow d =
     bindE (owned_attempt claim Att_CLAIMED d) (\<lambda>row.
     bindE (resolve_attempt_transition (at_state row) Att_WORKFLOW_RUNNING) (\<lambda>_.
     let started = (\<lambda>r. r\<lparr>at_state := Att_WORKFLOW_RUNNING, at_workflow := Some workflow\<rparr>)
     in Inr (started row,
          note_transition Hist_ATTEMPT (at_id row) (Some (Of_attempt Att_CLAIMED)) (Of_attempt Att_WORKFLOW_RUNNING)
            (Because ''RECIPIENT_WORKFLOW_STARTED'') (upd_attempt (at_id row) started d))))"

definition mark_workflow_completed ::
  "recipient_claim \<Rightarrow> campaign_db \<Rightarrow> campaign_error + attempt_row \<times> campaign_db" where
  "mark_workflow_completed claim d =
     bindE (owned_attempt claim Att_WORKFLOW_RUNNING d) (\<lambda>row.
     bindE (resolve_attempt_transition (at_state row) Att_READY_TO_SEND) (\<lambda>_.
     let ready = (\<lambda>r. r\<lparr>at_state := Att_READY_TO_SEND\<rparr>)
     in Inr (ready row,
          note_transition Hist_ATTEMPT (at_id row) (Some (Of_attempt Att_WORKFLOW_RUNNING)) (Of_attempt Att_READY_TO_SEND)
            (Because ''RECIPIENT_WORKFLOW_COMPLETED'') (upd_attempt (at_id row) ready d))))"

definition owned_workflow_run_id :: "recipient_claim \<Rightarrow> campaign_db \<Rightarrow> campaign_error + uuid" where
  "owned_workflow_run_id claim d =
     bindE (owned_attempt claim Att_WORKFLOW_RUNNING d) (\<lambda>row.
     of_option CampaignInvalidStateError (at_workflow row))"

section \<open>The throttle\<close>

definition minute_of :: "time \<Rightarrow> time" where
  "minute_of now = now - now mod 60000000"

definition run_window_key :: "uuid \<Rightarrow> msg_channel \<Rightarrow> time \<Rightarrow> run_window \<Rightarrow> bool" where
  "run_window_key run channel start w \<longleftrightarrow> tw_run w = run \<and> tw_channel w = channel \<and> tw_start w = start"

definition org_window_key :: "msg_channel \<Rightarrow> time \<Rightarrow> org_window \<Rightarrow> bool" where
  "org_window_key channel start w \<longleftrightarrow> ow_channel w = channel \<and> ow_start w = start"

text \<open>\<^verbatim>\<open>INSERT ... ON CONFLICT DO NOTHING\<close> of an empty window.\<close>

definition ensure_windows :: "uuid \<Rightarrow> msg_channel \<Rightarrow> time \<Rightarrow> campaign_db \<Rightarrow> campaign_db" where
  "ensure_windows run channel start d =
     d\<lparr>kb_windows := (if list_ex (run_window_key run channel start) (kb_windows d) then kb_windows d
                      else kb_windows d @ [\<lparr>tw_run = run, tw_channel = channel, tw_start = start, tw_count = 0\<rparr>]),
       kb_org_windows := (if list_ex (org_window_key channel start) (kb_org_windows d) then kb_org_windows d
                          else kb_org_windows d @ [\<lparr>ow_channel = channel, ow_start = start, ow_count = 0\<rparr>])\<rparr>"

definition reserve_throttle ::
  "crun_row \<Rightarrow> msg_channel \<Rightarrow> throttle_policy \<Rightarrow> time \<Rightarrow> campaign_db \<Rightarrow> campaign_error + campaign_db" where
  "reserve_throttle run channel policy now d =
     (let start = minute_of now; d1 = ensure_windows (ru_id run) channel start d
      in bindE (of_option CampaignExecutionFencedError (find (run_window_key (ru_id run) channel start) (kb_windows d1))) (\<lambda>w.
         bindE (of_option CampaignExecutionFencedError (find (org_window_key channel start) (kb_org_windows d1))) (\<lambda>ow.
         bindE (checkE (ru_authorized run < tp_campaign_limit policy) CampaignInvalidStateError) (\<lambda>_.
         bindE (checkE (tw_count w < tp_messages_per_minute policy) CampaignInvalidStateError) (\<lambda>_.
         bindE (checkE (ow_count ow < tp_org_per_minute policy) CampaignInvalidStateError) (\<lambda>_.
         Inr (d1\<lparr>kb_windows := update_where (run_window_key (ru_id run) channel start)
                                (\<lambda>r. r\<lparr>tw_count := tw_count r + 1\<rparr>) (kb_windows d1),
                kb_org_windows := update_where (org_window_key channel start)
                                (\<lambda>r. r\<lparr>ow_count := ow_count r + 1\<rparr>) (kb_org_windows d1)\<rparr>)))))))"

section \<open>Send permits\<close>

text \<open>The clock is read for the eligibility, for the throttle window and for the permit.\<close>

record permit_clock =
  pk_eligibility :: time
  pk_throttle :: time
  pk_permit :: time

definition deny_send ::
  "uuid \<Rightarrow> attempt_row \<Rightarrow> eligibility_reason \<Rightarrow> time option \<Rightarrow> nat \<Rightarrow> nat \<Rightarrow> campaign_db \<Rightarrow> campaign_error + campaign_db" where
  "deny_send run_id attempt reason next_at consent epoch d =
     (let deferred = (reason = El_DEFERRED_QUIET_HOURS);
          d1 = upd_recipient (at_recipient attempt)
                 (\<lambda>r. r\<lparr>rp_state := if deferred then Rec_DEFERRED else Rec_SUPPRESSED, rp_reason := reason,
                       rp_next_at := next_at, rp_consent_epoch := consent, rp_suppression_epoch := epoch\<rparr>) d
      in if deferred then
           Inr (note_transition Hist_ATTEMPT (at_id attempt) (Some (Of_attempt (at_state attempt)))
                  (Of_attempt (at_state attempt)) (Denied reason)
                  (upd_attempt (at_id attempt) (\<lambda>a. a\<lparr>at_error := Some reason\<rparr>) d1))
         else
           bindE (resolve_attempt_transition (at_state attempt) Att_SUPPRESSED) (\<lambda>_.
           Inr (note_transition Hist_ATTEMPT (at_id attempt) (Some (Of_attempt (at_state attempt)))
                  (Of_attempt Att_SUPPRESSED) (Denied reason)
               (upd_crun run_id (\<lambda>r. r\<lparr>ru_suppressed := ru_suppressed r + 1\<rparr>)
               (upd_attempt (at_id attempt) (\<lambda>a. a\<lparr>at_state := Att_SUPPRESSED, at_error := Some reason\<rparr>) d1)))))"

definition grant_send ::
  "uuid \<Rightarrow> attempt_row \<Rightarrow> time \<Rightarrow> nat \<Rightarrow> nat \<Rightarrow> campaign_db \<Rightarrow> campaign_error + permit_row \<times> campaign_db" where
  "grant_send run_id attempt now consent epoch d =
     (let n = kb_next d;
          permit = \<lparr>pm_id = n, pm_attempt = at_id attempt, pm_state = Perm_AUTHORIZED, pm_token = Suc n,
                    pm_consent_epoch = consent, pm_suppression_epoch = epoch, pm_p09 = at_p09 attempt,
                    pm_authorized_at = now, pm_consumed_at = None, pm_message = None\<rparr>
      in bindE (resolve_attempt_transition (at_state attempt) Att_DISPATCH_AUTHORIZED) (\<lambda>_.
         bindE (checkE (\<not> list_ex (\<lambda>p. pm_p09 p = at_p09 attempt) (kb_permits d)) Campaign_IntegrityError) (\<lambda>_.
         Inr (permit,
           note_transition Hist_ATTEMPT (at_id attempt) (Some (Of_attempt Att_READY_TO_SEND))
             (Of_attempt Att_DISPATCH_AUTHORIZED) (Because ''SEND_AUTHORIZED'')
           (note_transition Hist_PERMIT n None (Of_permit Perm_AUTHORIZED) (Because ''SEND_AUTHORIZED'')
           (upd_crun run_id (\<lambda>r. r\<lparr>ru_authorized := ru_authorized r + 1\<rparr>)
           (upd_attempt (at_id attempt) (\<lambda>a. a\<lparr>at_state := Att_DISPATCH_AUTHORIZED, at_error := None\<rparr>)
             (d\<lparr>kb_permits := kb_permits d @ [permit], kb_next := n + 2\<rparr>))))))))"

text \<open>A permit, or the reason of a denial.\<close>

definition authorize_permit ::
  "campaign_env \<Rightarrow> recipient_claim \<Rightarrow> permit_clock \<Rightarrow> campaign_db
     \<Rightarrow> campaign_error + (permit_row + eligibility_reason) \<times> campaign_db" where
  "authorize_permit env claim clock d =
     bindE (of_option CampaignExecutionFencedError (find_crun d (ru_id (cl_run claim)))) (\<lambda>run.
     bindE (checkE (ru_state run = Crun_RUNNING) CampaignExecutionFencedError) (\<lambda>_.
     bindE (of_option CampaignExecutionFencedError (find_campaign d (ru_campaign run))) (\<lambda>campaign.
     bindE (checkE (ca_state campaign = Camp_RUNNING) CampaignExecutionFencedError) (\<lambda>_.
     bindE (owned_attempt claim Att_READY_TO_SEND d) (\<lambda>attempt.
     bindE (of_option Campaign_NoResultFound (find_recipient d (at_recipient attempt))) (\<lambda>recipient.
     bindE (of_option CampaignExecutionFencedError (find_revision d (ru_revision run))) (\<lambda>revision.
     let spec = cv_spec revision;
         ((reason, next_at, consent, epoch, _), d1) =
           eligibility env (pk_eligibility clock) (ca_id campaign) (rp_customer recipient) (rp_identity recipient)
             (rp_conversation recipient) (rp_channel recipient) (dr_quiet spec) d
     in if reason \<noteq> El_ELIGIBLE then
          bindE (deny_send (ru_id run) attempt reason next_at consent epoch d1) (\<lambda>d2. Inr (Inr reason, d2))
        else
          bindE (reserve_throttle run (rp_channel recipient) (dr_throttle spec) (pk_throttle clock) d1) (\<lambda>d2.
          case find (\<lambda>p. pm_attempt p = at_id attempt) (kb_permits d2) of
            Some existing \<Rightarrow> Inr (Inl existing, d2)
          | None \<Rightarrow>
              bindE (grant_send (ru_id run) attempt (pk_permit clock) consent epoch d2) (\<lambda>(permit, d3).
              Inr (Inl permit, d3))))))))))"

definition dispatch_context ::
  "uuid \<Rightarrow> campaign_db \<Rightarrow> campaign_error + permit_row \<times> campaign_draft \<times> recipient_row \<times> attempt_row" where
  "dispatch_context permit_id d =
     bindE (of_option CampaignExecutionFencedError (find_permit d permit_id)) (\<lambda>permit.
     bindE (of_option Campaign_NoResultFound (find_attempt d (pm_attempt permit))) (\<lambda>attempt.
     bindE (of_option Campaign_NoResultFound (find_recipient d (at_recipient attempt))) (\<lambda>recipient.
     bindE (of_option CampaignExecutionFencedError (find_crun d (at_run attempt))) (\<lambda>run.
     bindE (of_option CampaignExecutionFencedError (find_revision d (ru_revision run))) (\<lambda>revision.
     Inr (permit, cv_spec revision, recipient, attempt))))))"

definition run_remaining :: "uuid \<Rightarrow> campaign_db \<Rightarrow> nat" where
  "run_remaining run_id d = length (filter (\<lambda>a. at_run a = run_id \<and> \<not> attempt_over (at_state a)) (kb_attempts d))"

text \<open>
  The tail of \<^verbatim>\<open>consume_permit\<close>: the run completes when no attempt is left, and its campaign
  with it. The run's own history entry is written only together with the campaign's.
\<close>

definition complete_run :: "uuid \<Rightarrow> campaign_db \<Rightarrow> campaign_db" where
  "complete_run run_id d =
     (case find_crun d run_id of
        None \<Rightarrow> d
      | Some run \<Rightarrow>
          if ru_state run \<noteq> Crun_RUNNING \<or> run_remaining run_id d \<noteq> 0 then d
          else let d1 = upd_crun run_id (\<lambda>r. r\<lparr>ru_state := Crun_COMPLETED\<rparr>) d
               in case find_campaign d1 (ru_campaign run) of
                    None \<Rightarrow> d1
                  | Some c \<Rightarrow>
                      if ca_state c \<noteq> Camp_RUNNING then d1
                      else note_transition Hist_CAMPAIGN (ca_id c) (Some (Of_campaign Camp_RUNNING))
                             (Of_campaign Camp_COMPLETED) (Because ''CAMPAIGN_COMPLETED'')
                          (note_transition Hist_RUN run_id (Some (Of_run Crun_RUNNING)) (Of_run Crun_COMPLETED)
                             (Because ''CAMPAIGN_RUN_COMPLETED'')
                          (upd_campaign (ca_id c) (\<lambda>r. r\<lparr>ca_state := Camp_COMPLETED\<rparr>) d1)))"

definition consume_permit ::
  "uuid \<Rightarrow> uuid \<Rightarrow> uuid \<Rightarrow> time \<Rightarrow> campaign_db \<Rightarrow> campaign_error + permit_row \<times> campaign_db" where
  "consume_permit permit_id token message now d =
     bindE (of_option CampaignExecutionFencedError (find_permit d permit_id)) (\<lambda>permit.
     if pm_state permit = Perm_CONSUMED \<and> pm_message permit = Some message then Inr (permit, d)
     else
     bindE (checkE (pm_state permit = Perm_AUTHORIZED \<and> pm_token permit = token) CampaignExecutionFencedError) (\<lambda>_.
     bindE (of_option Campaign_NoResultFound (find_attempt d (pm_attempt permit))) (\<lambda>attempt.
     bindE (checkE (at_state attempt = Att_DISPATCH_AUTHORIZED) CampaignExecutionFencedError) (\<lambda>_.
     let consumed = (\<lambda>p. p\<lparr>pm_state := Perm_CONSUMED, pm_consumed_at := Some now, pm_message := Some message\<rparr>);
         d1 = upd_permit permit_id consumed d;
         d2 = upd_attempt (at_id attempt) (\<lambda>a. a\<lparr>at_state := Att_DISPATCHED, at_message := Some message\<rparr>) d1;
         d3 = upd_crun (at_run attempt) (\<lambda>r. r\<lparr>ru_dispatched := ru_dispatched r + 1\<rparr>) d2;
         d4 = note_transition Hist_PERMIT permit_id (Some (Of_permit Perm_AUTHORIZED)) (Of_permit Perm_CONSUMED)
                (Because ''SEND_CONSUMED'') d3;
         d5 = note_transition Hist_ATTEMPT (at_id attempt) (Some (Of_attempt Att_DISPATCH_AUTHORIZED))
                (Of_attempt Att_DISPATCHED) (Because ''RECIPIENT_DISPATCHED'') d4
     in Inr (consumed permit, complete_run (at_run attempt) d5)))))"

section \<open>Cancellation\<close>

definition run_cancellable :: "crun_row \<Rightarrow> bool" where
  "run_cancellable r \<longleftrightarrow> ru_state r = Crun_PENDING_RELEASE \<or> ru_state r = Crun_MATERIALIZING \<or>
     ru_state r = Crun_RUNNING \<or> ru_state r = Crun_PAUSED"

definition note_runs :: "(crun_row \<Rightarrow> crun_state) \<Rightarrow> hist_reason \<Rightarrow> crun_row list \<Rightarrow> campaign_db \<Rightarrow> campaign_db" where
  "note_runs target reason rows d =
     fold (\<lambda>r. note_transition Hist_RUN (ru_id r) (Some (Of_run (ru_state r))) (Of_run (target r)) reason) rows d"

definition begin_cancellation :: "uuid \<Rightarrow> campaign_db \<Rightarrow> campaign_error + campaign_db" where
  "begin_cancellation campaign_id d =
     bindE (of_option CampaignInvalidStateError (find_campaign d campaign_id)) (\<lambda>campaign.
     if ca_state campaign = Camp_CANCELLED then Inr d
     else
       bindE (if ca_state campaign = Camp_CANCELLING then Inr d
              else bindE (require_campaign_transition (ca_state campaign) Camp_CANCELLING) (\<lambda>_.
                Inr (note_transition Hist_CAMPAIGN campaign_id (Some (Of_campaign (ca_state campaign)))
                       (Of_campaign Camp_CANCELLING) (Because ''CAMPAIGN_CANCELLATION_STARTED'')
                    (upd_campaign campaign_id
                       (\<lambda>c. c\<lparr>ca_state := Camp_CANCELLING, ca_revision := Suc (ca_revision c)\<rparr>) d)))) (\<lambda>d1.
       let sel = (\<lambda>r. ru_campaign r = campaign_id \<and> run_cancellable r)
       in Inr (note_runs (\<lambda>_. Crun_CANCELLING) (Because ''CAMPAIGN_RUN_CANCELLATION_STARTED'') (filter sel (kb_runs d1))
            (d1\<lparr>kb_runs := update_where sel (\<lambda>r. r\<lparr>ru_state := Crun_CANCELLING, ru_cancel_complete := False\<rparr>)
                            (kb_runs d1)\<rparr>))))"

definition attempt_cancellable :: "attempt_state \<Rightarrow> bool" where
  "attempt_cancellable st \<longleftrightarrow>
     st = Att_PENDING \<or> st = Att_CLAIMED \<or> st = Att_WORKFLOW_RUNNING \<or> st = Att_READY_TO_SEND"

text \<open>The attempts joined with the campaign's runs under cancellation.\<close>

definition to_cancel :: "uuid \<Rightarrow> campaign_db \<Rightarrow> attempt_row list" where
  "to_cancel campaign_id d =
     filter (\<lambda>a. attempt_cancellable (at_state a) \<and>
        list_ex (\<lambda>r. ru_id r = at_run a \<and> ru_campaign r = campaign_id \<and> ru_state r = Crun_CANCELLING) (kb_runs d))
       (kb_attempts d)"

fun cancel_attempts :: "attempt_row list \<Rightarrow> campaign_db \<Rightarrow> campaign_error + campaign_db" where
  "cancel_attempts [] d = Inr d"
| "cancel_attempts (a # as) d =
     bindE (resolve_attempt_transition (at_state a) Att_CANCELLED) (\<lambda>_.
     bindE (of_option Campaign_NoResultFound (find_recipient d (at_recipient a))) (\<lambda>recipient.
     let d1 = upd_attempt (at_id a) (\<lambda>r. r\<lparr>at_state := Att_CANCELLED, at_error := Some El_CANCELLED\<rparr>) d;
         d2 = (if rp_state recipient = Rec_ELIGIBLE \<or> rp_state recipient = Rec_DEFERRED
               then upd_recipient (at_recipient a) (\<lambda>r. r\<lparr>rp_state := Rec_CANCELLED, rp_reason := El_CANCELLED\<rparr>) d1
               else d1)
     in cancel_attempts as
          (note_transition Hist_ATTEMPT (at_id a) (Some (Of_attempt (at_state a))) (Of_attempt Att_CANCELLED)
             (Because ''CAMPAIGN_CANCELLED'') d2)))"

definition finish_cancellation :: "uuid \<Rightarrow> campaign_db \<Rightarrow> campaign_db" where
  "finish_cancellation campaign_id d =
     (let sel = (\<lambda>r. ru_campaign r = campaign_id \<and> ru_state r = Crun_CANCELLING);
          d1 = note_runs (\<lambda>_. Crun_CANCELLED) (Because ''CAMPAIGN_RUN_CANCELLED'') (filter sel (kb_runs d))
                 (d\<lparr>kb_runs := update_where sel (\<lambda>r. r\<lparr>ru_state := Crun_CANCELLED, ru_cancel_complete := True\<rparr>)
                                (kb_runs d)\<rparr>)
      in note_transition Hist_CAMPAIGN campaign_id (Some (Of_campaign Camp_CANCELLING)) (Of_campaign Camp_CANCELLED)
           (Because ''CAMPAIGN_CANCELLED'') (upd_campaign campaign_id (\<lambda>c. c\<lparr>ca_state := Camp_CANCELLED\<rparr>) d1))"

text \<open>The number of attempts cancelled by this batch and whether the campaign is done.\<close>

definition cancel_attempt_batch ::
  "uuid \<Rightarrow> nat \<Rightarrow> uuid list \<Rightarrow> campaign_db \<Rightarrow> campaign_error + (nat \<times> bool) \<times> campaign_db" where
  "cancel_attempt_batch campaign_id limit locked d =
     bindE (checkE (1 \<le> limit) Campaign_ValueError) (\<lambda>_.
     bindE (of_option CampaignInvalidStateError (find_campaign d campaign_id)) (\<lambda>campaign.
     if ca_state campaign = Camp_CANCELLED then Inr ((0, True), d)
     else
     bindE (checkE (ca_state campaign = Camp_CANCELLING) CampaignInvalidStateError) (\<lambda>_.
     let batch = take limit (filter (\<lambda>a. at_id a \<notin> set locked) (to_cancel campaign_id d))
     in bindE (cancel_attempts batch d) (\<lambda>d1.
        let d2 = d1\<lparr>kb_runs := map (\<lambda>r. r\<lparr>ru_cancel_count := ru_cancel_count r +
                                 int (length (filter (\<lambda>a. at_run a = ru_id r) batch))\<rparr>) (kb_runs d1)\<rparr>;
            finished = (to_cancel campaign_id d2 = [])
        in Inr ((length batch, finished), if finished then finish_cancellation campaign_id d2 else d2)))))"

section \<open>Pause, failure and resume\<close>

definition transition_campaign_state ::
  "uuid \<Rightarrow> campaign_state \<Rightarrow> string \<Rightarrow> campaign_db \<Rightarrow> campaign_error + campaign_db" where
  "transition_campaign_state campaign_id target reason d =
     bindE (of_option CampaignInvalidStateError (find_campaign d campaign_id)) (\<lambda>row.
     bindE (require_campaign_transition (ca_state row) target) (\<lambda>_.
     let d1 = note_transition Hist_CAMPAIGN campaign_id (Some (Of_campaign (ca_state row))) (Of_campaign target)
                (Because reason)
                (upd_campaign campaign_id (\<lambda>c. c\<lparr>ca_state := target, ca_revision := Suc (ca_revision c)\<rparr>) d);
         sel = (\<lambda>r. ru_campaign r = campaign_id \<and>
                    (ru_state r = Crun_PENDING_RELEASE \<or> ru_state r = Crun_RUNNING));
         move = (\<lambda>to. d1\<lparr>kb_runs := update_where sel (\<lambda>r. r\<lparr>ru_state := to\<rparr>) (kb_runs d1)\<rparr>)
     in Inr (if target = Camp_PAUSED then move Crun_PAUSED
             else if target = Camp_FAILED then move Crun_FAILED else d1)))"

definition resume_campaign :: "uuid \<Rightarrow> campaign_db \<Rightarrow> campaign_error + campaign_db" where
  "resume_campaign campaign_id d =
     bindE (transition_campaign_state campaign_id Camp_RUNNING ''CAMPAIGN_RESUMED'' d) (\<lambda>d1.
     Inr (d1\<lparr>kb_runs := update_where (\<lambda>r. ru_campaign r = campaign_id \<and> ru_state r = Crun_PAUSED)
                          (\<lambda>r. r\<lparr>ru_state := Crun_RUNNING\<rparr>) (kb_runs d1)\<rparr>))"

section \<open>Preferences and suppressions\<close>

definition set_preference :: "preference_request \<Rightarrow> campaign_db \<Rightarrow> campaign_error + nat \<times> campaign_db" where
  "set_preference q d =
     (let key = (\<lambda>p. pf_identity p = pq_identity q \<and> pf_channel p = pq_channel q)
      in case find key (kb_preferences d) of
           None \<Rightarrow>
             bindE (checkE (list_ex (\<lambda>r. cu_id r = pq_customer q) (kb_customers d) \<and>
                            list_ex (\<lambda>r. ci_id r = pq_identity q) (kb_identities d)) Campaign_IntegrityError) (\<lambda>_.
             Inr (1, d\<lparr>kb_preferences := kb_preferences d @
                    [\<lparr>pf_customer = pq_customer q, pf_identity = pq_identity q, pf_channel = pq_channel q,
                      pf_consent = pq_consent q, pf_unsubscribed = pq_unsubscribed q,
                      pf_do_not_contact = pq_do_not_contact q, pf_epoch = 1, pf_evidence = pq_evidence q\<rparr>]\<rparr>))
         | Some row \<Rightarrow>
             bindE (checkE (pf_customer row = pq_customer q) CampaignExecutionFencedError) (\<lambda>_.
             Inr (Suc (pf_epoch row), d\<lparr>kb_preferences := update_where key
                    (\<lambda>p. p\<lparr>pf_consent := pq_consent q, pf_unsubscribed := pq_unsubscribed q,
                          pf_do_not_contact := pq_do_not_contact q, pf_epoch := Suc (pf_epoch p),
                          pf_evidence := pq_evidence q\<rparr>) (kb_preferences d)\<rparr>)))"

definition add_suppression :: "suppression_request \<Rightarrow> campaign_db \<Rightarrow> campaign_error + nat \<times> campaign_db" where
  "add_suppression q d =
     (let (epoch, d1) = policy_epoch (sq_channel q) d;
          known = (\<lambda>present ref. case ref of None \<Rightarrow> True | Some i \<Rightarrow> present i);
          row = \<lparr>su_channel = sq_channel q, su_scope = sq_scope q, su_campaign = sq_campaign q,
                 su_customer = sq_customer q, su_identity = sq_identity q, su_reason = sq_reason q, su_active = True\<rparr>
      in bindE (checkE (known (\<lambda>i. list_ex (\<lambda>r. ca_id r = i) (kb_campaigns d)) (sq_campaign q) \<and>
                        known (\<lambda>i. list_ex (\<lambda>r. cu_id r = i) (kb_customers d)) (sq_customer q) \<and>
                        known (\<lambda>i. list_ex (\<lambda>r. ci_id r = i) (kb_identities d)) (sq_identity q)) Campaign_IntegrityError) (\<lambda>_.
         Inr (Suc epoch, d1\<lparr>kb_epochs := update_where (\<lambda>(c, _). c = sq_channel q) (\<lambda>(c, e). (c, Suc e)) (kb_epochs d1),
                           kb_suppressions := kb_suppressions d1 @ [row]\<rparr>)))"

end
