(* ===== verification/Campaign_Service.thy ===== *)
theory Campaign_Service
  imports Campaign_Execution
begin

text \<open>
  \<^verbatim>\<open>campaigns/service.py\<close>. A service call is a sequence of transactions: what a committed
  transaction wrote stays when a later one raises. The scheduler, the workflow engine and
  messaging are called between transactions; their answers are arguments.
\<close>

section \<open>Sequences of transactions\<close>

type_synonym 'a campaign_act = "campaign_db \<Rightarrow> (campaign_error + 'a) \<times> campaign_db"

definition okA :: "'a \<Rightarrow> 'a campaign_act" where
  "okA x d = (Inr x, d)"

definition failA :: "campaign_error \<Rightarrow> 'a campaign_act" where
  "failA e d = (Inl e, d)"

definition seqA :: "'a campaign_act \<Rightarrow> ('a \<Rightarrow> 'b campaign_act) \<Rightarrow> 'b campaign_act" where
  "seqA m f d = (case m d of (Inl e, d1) \<Rightarrow> (Inl e, d1) | (Inr x, d1) \<Rightarrow> f x d1)"

text \<open>A transaction is committed or rolled back as a whole; reading does not write.\<close>

definition tx :: "(campaign_db \<Rightarrow> campaign_error + 'a \<times> campaign_db) \<Rightarrow> 'a campaign_act" where
  "tx body d = (case body d of Inl e \<Rightarrow> (Inl e, d) | Inr (x, d1) \<Rightarrow> (Inr x, d1))"

definition readA :: "(campaign_db \<Rightarrow> campaign_error + 'a) \<Rightarrow> 'a campaign_act" where
  "readA body d = (body d, d)"

definition callA :: "campaign_error + 'a \<Rightarrow> 'a campaign_act" where
  "callA answer d = (answer, d)"

definition requireA :: "bool \<Rightarrow> campaign_error \<Rightarrow> unit campaign_act" where
  "requireA b e = (if b then okA () else failA e)"

definition emit ::
  "string \<Rightarrow> uuid \<Rightarrow> any_state \<Rightarrow> eligibility_reason option \<Rightarrow> nat option \<Rightarrow> campaign_db \<Rightarrow> campaign_db" where
  "emit event_type aggregate state reason number d =
     d\<lparr>kb_events := kb_events d @ [\<lparr>ce_type = event_type, ce_aggregate = aggregate, ce_state = state,
                                    ce_reason = reason, ce_count = number\<rparr>]\<rparr>"

definition campaign_event :: "string \<Rightarrow> uuid \<Rightarrow> nat option \<Rightarrow> campaign_db \<Rightarrow> campaign_error + campaign_db" where
  "campaign_event event_type campaign_id number d =
     bindE (of_option CampaignNotFoundError (find_campaign d campaign_id)) (\<lambda>c.
     Inr (emit event_type campaign_id (Of_campaign (ca_state c)) None number d))"

definition recipient_event :: "string \<Rightarrow> recipient_claim \<Rightarrow> campaign_db \<Rightarrow> campaign_db" where
  "recipient_event event_type claim =
     emit event_type (rp_id (cl_recipient claim)) (Of_attempt (at_state (cl_attempt claim)))
       (at_error (cl_attempt claim)) None"

section \<open>The transactions\<close>

definition create_tx ::
  "string \<Rightarrow> string \<Rightarrow> campaign_draft \<Rightarrow> campaign_db \<Rightarrow> campaign_error + campaign_row \<times> campaign_db" where
  "create_tx key name draft d =
     (case create_campaign key name draft d of
        Inl Campaign_IntegrityError \<Rightarrow> Inl CampaignConflictError
      | Inl e \<Rightarrow> Inl e
      | Inr (c, d1) \<Rightarrow> Inr (c, emit ''campaign.created'' (ca_id c) (Of_campaign (ca_state c)) None None d1))"

definition update_tx ::
  "uuid \<Rightarrow> nat \<Rightarrow> string option \<Rightarrow> campaign_draft option \<Rightarrow> campaign_db \<Rightarrow> campaign_error + campaign_row \<times> campaign_db" where
  "update_tx campaign_id expected name draft d =
     bindE (of_option CampaignNotFoundError (find_campaign d campaign_id)) (\<lambda>row.
     bindE (checkE (ca_revision row = expected) CampaignConflictError) (\<lambda>_.
     update_campaign row name draft d))"

definition preparation_tx ::
  "campaign_env \<Rightarrow> (campaign_draft \<Rightarrow> bool) \<Rightarrow> uuid \<Rightarrow> campaign_db
     \<Rightarrow> campaign_error + (revision_row \<times> snapshot_row) \<times> campaign_db" where
  "preparation_tx env references_exist campaign_id d =
     bindE (of_option CampaignNotFoundError (find_campaign d campaign_id)) (\<lambda>row.
     if ca_state row = Camp_DRAFT then begin_preparation env references_exist row d
     else if ca_state row = Camp_PREPARING then
       bindE (active_preparation (ca_id row) (ca_revision row) d) (\<lambda>p. Inr (p, d))
     else Inl CampaignInvalidStateError)"

definition seal_tx :: "uuid \<Rightarrow> uuid \<Rightarrow> nat \<Rightarrow> time \<Rightarrow> campaign_db \<Rightarrow> campaign_error + unit \<times> campaign_db" where
  "seal_tx campaign_id revision_id number now d =
     bindE (seal_preparation campaign_id revision_id now d) (\<lambda>d1.
     bindE (campaign_event ''campaign.prepared'' campaign_id (Some number) d1) (\<lambda>d2. Inr ((), d2)))"

text \<open>A scheduled run and a started run differ in their key.\<close>

definition scheduled_run_tx ::
  "uuid \<Rightarrow> campaign_db \<Rightarrow> campaign_error + (crun_row \<times> revision_row) \<times> campaign_db" where
  "scheduled_run_tx campaign_id d =
     bindE (of_option CampaignInvalidStateError (find_campaign d campaign_id)) (\<lambda>row.
     bindE (of_option CampaignInvalidStateError (ca_prepared row)) (\<lambda>prepared.
     bindE (create_crun row (''campaign:scheduled:'' @ uuid_str campaign_id @ '':'' @ uuid_str prepared) d) (\<lambda>(run, d1).
     bindE (of_option CampaignInvalidStateError (find_revision d1 (ru_revision run))) (\<lambda>revision.
     Inr ((run, revision), d1)))))"

definition schedule_tx :: "uuid \<Rightarrow> uuid \<Rightarrow> uuid \<Rightarrow> campaign_db \<Rightarrow> campaign_error + unit \<times> campaign_db" where
  "schedule_tx campaign_id run_id schedule d =
     bindE (bind_schedule run_id schedule d) (\<lambda>d1.
     bindE (mark_campaign_scheduled campaign_id d1) (\<lambda>d2.
     bindE (campaign_event ''campaign.scheduled'' campaign_id None d2) (\<lambda>d3. Inr ((), d3))))"

definition started_run_tx ::
  "uuid \<Rightarrow> string \<Rightarrow> campaign_db \<Rightarrow> campaign_error + (crun_row \<times> revision_row) \<times> campaign_db" where
  "started_run_tx campaign_id key d =
     bindE (of_option CampaignNotFoundError (find_campaign d campaign_id)) (\<lambda>row.
     bindE (create_crun row key d) (\<lambda>(run, d1).
     bindE (of_option CampaignInvalidStateError (find_revision d1 (ru_revision run))) (\<lambda>revision.
     Inr ((run, revision), d1))))"

definition unit_tx :: "(campaign_db \<Rightarrow> campaign_error + campaign_db) \<Rightarrow> campaign_db \<Rightarrow> campaign_error + unit \<times> campaign_db" where
  "unit_tx body d = bindE (body d) (\<lambda>d1. Inr ((), d1))"

definition claim_tx ::
  "uuid \<Rightarrow> uuid \<Rightarrow> time \<Rightarrow> uuid list \<Rightarrow> campaign_db \<Rightarrow> campaign_error + recipient_claim option \<times> campaign_db" where
  "claim_tx run_id owner now locked d =
     bindE (claim_recipient run_id owner now locked d) (\<lambda>(claim, d1).
     Inr (claim, case claim of None \<Rightarrow> d1 | Some c \<Rightarrow> recipient_event ''campaign.recipient.claimed'' c d1))"

definition workflow_started_tx ::
  "recipient_claim \<Rightarrow> uuid \<Rightarrow> campaign_db \<Rightarrow> campaign_error + attempt_row \<times> campaign_db" where
  "workflow_started_tx claim workflow d =
     bindE (mark_workflow_started claim workflow d) (\<lambda>(attempt, d1).
     Inr (attempt, recipient_event ''campaign.recipient.workflow_started'' (claim\<lparr>cl_attempt := attempt\<rparr>) d1))"

definition dispatched_tx ::
  "permit_row \<Rightarrow> recipient_row \<Rightarrow> attempt_row \<Rightarrow> uuid \<Rightarrow> time \<Rightarrow> campaign_db
     \<Rightarrow> campaign_error + permit_row \<times> campaign_db" where
  "dispatched_tx permit recipient attempt message now d =
     bindE (consume_permit (pm_id permit) (pm_token permit) message now d) (\<lambda>(consumed, d1).
     bindE (of_option CampaignRunNotFoundError (find_crun d1 (at_run attempt))) (\<lambda>run.
     let claim = \<lparr>cl_run = run, cl_recipient = recipient, cl_attempt = attempt,
                  cl_owner = case_option 0 id (at_owner attempt), cl_token = case_option 0 id (at_token attempt)\<rparr>;
         d2 = recipient_event ''campaign.recipient.dispatched'' claim d1
     in Inr (consumed,
          if ru_state run = Crun_COMPLETED then
            (case find_campaign d2 (ru_campaign run) of
               None \<Rightarrow> d2
             | Some c \<Rightarrow> emit ''campaign.completed'' (ca_id c) (Of_campaign (ca_state c)) None None d2)
          else d2)))"

definition pause_tx :: "uuid \<Rightarrow> campaign_db \<Rightarrow> campaign_error + unit \<times> campaign_db" where
  "pause_tx campaign_id d =
     bindE (of_option CampaignNotFoundError (find_campaign d campaign_id)) (\<lambda>_.
     bindE (transition_campaign_state campaign_id Camp_PAUSED ''CAMPAIGN_PAUSED'' d) (\<lambda>d1.
     bindE (campaign_event ''campaign.paused'' campaign_id None d1) (\<lambda>d2. Inr ((), d2))))"

definition resume_tx :: "uuid \<Rightarrow> campaign_db \<Rightarrow> campaign_error + unit \<times> campaign_db" where
  "resume_tx campaign_id d =
     bindE (resume_campaign campaign_id d) (\<lambda>d1.
     bindE (campaign_event ''campaign.resumed'' campaign_id None d1) (\<lambda>d2. Inr ((), d2)))"

section \<open>The service\<close>

text \<open>
  \<^verbatim>\<open>_validate_draft\<close> asks the workflow service for both versions and the messaging accounts
  for the account: its outcome is an argument.
\<close>

definition create_campaign_call ::
  "(campaign_draft \<Rightarrow> campaign_error + unit) \<Rightarrow> string \<Rightarrow> string \<Rightarrow> campaign_draft \<Rightarrow> campaign_row campaign_act" where
  "create_campaign_call validate key name draft =
     seqA (callA (validate draft)) (\<lambda>_. tx (create_tx key name draft))"

definition update_campaign_call ::
  "(campaign_draft \<Rightarrow> campaign_error + unit) \<Rightarrow> uuid \<Rightarrow> nat \<Rightarrow> string option \<Rightarrow> campaign_draft option
     \<Rightarrow> campaign_row campaign_act" where
  "update_campaign_call validate campaign_id expected name draft =
     seqA (callA (case draft of None \<Rightarrow> Inr () | Some dr \<Rightarrow> validate dr)) (\<lambda>_.
     tx (update_tx campaign_id expected name draft))"

abbreviation MATERIALIZATION_BATCH :: nat where
  "MATERIALIZATION_BATCH \<equiv> 100"

abbreviation CANCELLATION_BATCH :: nat where
  "CANCELLATION_BATCH \<equiv> 100"

text \<open>The \<^verbatim>\<open>while True\<close> of \<^verbatim>\<open>prepare_campaign\<close>; no fuel left is the error \<open>None\<close>.\<close>

fun prepare_loop ::
  "campaign_env \<Rightarrow> (nat \<Rightarrow> nat \<Rightarrow> time) \<Rightarrow> nat \<Rightarrow> revision_row \<Rightarrow> campaign_db
     \<Rightarrow> ((campaign_error + snapshot_row) \<times> campaign_db) option" where
  "prepare_loop env clock 0 revision d = None"
| "prepare_loop env clock (Suc fuel) revision d =
     (case tx (materialize_batch env (cv_id revision) MATERIALIZATION_BATCH (clock fuel)) d of
        (Inl e, d1) \<Rightarrow> Some (Inl e, d1)
      | (Inr snapshot, d1) \<Rightarrow>
          if length (dr_audience (cv_spec revision)) \<le> sn_cursor snapshot then Some (Inr snapshot, d1)
          else prepare_loop env clock fuel revision d1)"

definition prepare_campaign ::
  "campaign_env \<Rightarrow> (campaign_draft \<Rightarrow> bool) \<Rightarrow> (nat \<Rightarrow> nat \<Rightarrow> time) \<Rightarrow> time \<Rightarrow> nat \<Rightarrow> uuid \<Rightarrow> campaign_db
     \<Rightarrow> ((campaign_error + unit) \<times> campaign_db) option" where
  "prepare_campaign env references_exist clock now fuel campaign_id d =
     (case tx (preparation_tx env references_exist campaign_id) d of
        (Inl e, d1) \<Rightarrow> Some (Inl e, d1)
      | (Inr (revision, _), d1) \<Rightarrow>
          (case prepare_loop env clock fuel revision d1 of
             None \<Rightarrow> None
           | Some (Inl e, d2) \<Rightarrow> Some (Inl e, d2)
           | Some (Inr snapshot, d2) \<Rightarrow>
               Some (tx (seal_tx campaign_id (cv_id revision) (sn_resolved snapshot) now) d2)))"

text \<open>
  \<^verbatim>\<open>schedule_campaign\<close> for a request that passed its validation. The scheduler answers with the id
  of a schedule that matches the release binding or an error; activating it is the last call.
\<close>

definition schedule_campaign ::
  "(crun_row \<Rightarrow> revision_row \<Rightarrow> campaign_error + uuid) \<Rightarrow> (uuid \<Rightarrow> campaign_error + unit) \<Rightarrow> uuid \<Rightarrow> unit campaign_act" where
  "schedule_campaign scheduler activate campaign_id =
     seqA (readA (\<lambda>d. of_option CampaignNotFoundError (find_campaign d campaign_id))) (\<lambda>campaign.
     seqA (requireA (ca_prepared campaign \<noteq> None \<and> (ca_state campaign = Camp_READY \<or> ca_state campaign = Camp_SCHEDULED))
       CampaignInvalidStateError) (\<lambda>_.
     seqA (tx (scheduled_run_tx campaign_id)) (\<lambda>(run, revision).
     seqA (callA (scheduler run revision)) (\<lambda>schedule.
     seqA (tx (schedule_tx campaign_id (ru_id run) schedule)) (\<lambda>_.
     callA (activate schedule))))))"

definition run_key_of :: "string option \<Rightarrow> campaign_row \<Rightarrow> string" where
  "run_key_of key campaign =
     (case key of
        Some (c # cs) \<Rightarrow> c # cs
      | _ \<Rightarrow> ''campaign:run:'' @ uuid_str (ca_id campaign) @ '':'' @ decimal (ca_revision campaign))"

definition start_campaign ::
  "(crun_row \<Rightarrow> revision_row \<Rightarrow> campaign_error + uuid) \<Rightarrow> uuid \<Rightarrow> string option \<Rightarrow> unit campaign_act" where
  "start_campaign start_run campaign_id key =
     seqA (readA (\<lambda>d. of_option CampaignNotFoundError (find_campaign d campaign_id))) (\<lambda>campaign.
     seqA (tx (started_run_tx campaign_id (run_key_of key campaign))) (\<lambda>(run, revision).
     seqA (callA (start_run run revision)) (\<lambda>release.
     tx (unit_tx (set_release_run (ru_id run) release)))))"

text \<open>What the bridge reads of an occurrence, a schedule and a workflow run of other domains.\<close>

record occurrence_view =
  ov_id :: uuid
  ov_schedule :: uuid
  ov_dispatched :: bool
  ov_run :: "uuid option"
  ov_version :: uuid

record schedule_view =
  sv_id :: uuid
  sv_version :: uuid
  sv_input :: "(string \<times> string) list"

record workflow_view =
  wv_id :: uuid
  wv_version :: uuid
  wv_input :: "(string \<times> string) list"
  wv_failed_or_cancelled :: bool

definition release_input :: "crun_row \<Rightarrow> (string \<times> string) list" where
  "release_input row = [(''campaign_id'', uuid_str (ru_campaign row)),
     (''campaign_revision_id'', uuid_str (ru_revision row)), (''campaign_run_id'', uuid_str (ru_id row))]"

definition bridge_scheduled_release ::
  "campaign_error + occurrence_view \<times> workflow_view \<Rightarrow> (uuid \<Rightarrow> campaign_error + schedule_view) \<Rightarrow> uuid \<Rightarrow> uuid
     \<Rightarrow> unit campaign_act" where
  "bridge_scheduled_release executions get_schedule run_id workflow_id =
     seqA (callA executions) (\<lambda>(occ, wf).
     seqA (readA (\<lambda>d. bindE (of_option CampaignRunNotFoundError (find_crun d run_id)) (\<lambda>row.
                      bindE (of_option CampaignExecutionFencedError (find_revision d (ru_revision row))) (\<lambda>revision.
                      Inr (row, revision))))) (\<lambda>(row, revision).
     seqA (callA (of_option CampaignExecutionFencedError (ru_schedule row))) (\<lambda>schedule_id.
     seqA (callA (get_schedule schedule_id)) (\<lambda>schedule.
     let version = dr_release_version (cv_spec revision) in
     seqA (requireA (ov_dispatched occ) CampaignInvalidStateError) (\<lambda>_.
     seqA (requireA (ov_schedule occ = schedule_id \<and> sv_id schedule = schedule_id) CampaignExecutionFencedError) (\<lambda>_.
     seqA (requireA (ov_run occ = Some workflow_id \<and> wv_id wf = workflow_id) CampaignExecutionFencedError) (\<lambda>_.
     seqA (requireA (sv_version schedule = version \<and> ov_version occ = version \<and> wv_version wf = version)
       CampaignExecutionFencedError) (\<lambda>_.
     seqA (requireA (sv_input schedule = release_input row \<and> wv_input wf = release_input row)
       CampaignExecutionFencedError) (\<lambda>_.
     seqA (requireA (\<not> wv_failed_or_cancelled wf) CampaignInvalidStateError) (\<lambda>_.
     tx (unit_tx (bind_scheduled_release run_id schedule_id (ov_id occ) (wv_id wf) (wv_version wf)))))))))))))"

definition read_crun :: "uuid \<Rightarrow> campaign_db \<Rightarrow> campaign_error + crun_row" where
  "read_crun run_id d = of_option CampaignRunNotFoundError (find_crun d run_id)"

text \<open>\<open>release_done\<close> answers whether a workflow run is \<^verbatim>\<open>COMPLETED\<close>.\<close>

definition confirm_release ::
  "campaign_env \<Rightarrow> (uuid \<Rightarrow> campaign_error + bool) \<Rightarrow> uuid \<Rightarrow> unit campaign_act" where
  "confirm_release env release_done run_id =
     seqA (readA (read_crun run_id)) (\<lambda>row.
     seqA (callA (of_option CampaignInvalidStateError (ru_release_run row))) (\<lambda>release.
     seqA (callA (release_done release)) (\<lambda>completed.
     seqA (requireA completed CampaignInvalidStateError) (\<lambda>_.
     seqA (tx (unit_tx (begin_run_activation run_id))) (\<lambda>_.
     seqA (readA (read_crun run_id)) (\<lambda>run.
     seqA (if ru_materialized run then okA 0 else tx (materialize_attempt_batch env run_id MATERIALIZATION_BATCH)) (\<lambda>_.
     seqA (readA (read_crun run_id)) (\<lambda>run.
     if \<not> ru_materialized run then okA ()
     else tx (unit_tx (campaign_event ''campaign.started'' (ru_campaign run) None))))))))))"

definition start_recipient_workflow ::
  "(recipient_claim \<Rightarrow> revision_row \<Rightarrow> campaign_error + uuid) \<Rightarrow> recipient_claim \<Rightarrow> attempt_row campaign_act" where
  "start_recipient_workflow start_run claim =
     seqA (readA (\<lambda>d. of_option CampaignExecutionFencedError (find_revision d (ru_revision (cl_run claim))))) (\<lambda>revision.
     seqA (callA (start_run claim revision)) (\<lambda>workflow.
     tx (workflow_started_tx claim workflow)))"

text \<open>\<open>workflow_ok\<close> answers whether the run is \<^verbatim>\<open>COMPLETED\<close> and the length of its output as text.\<close>

definition confirm_recipient_workflow ::
  "(uuid \<Rightarrow> campaign_error + bool \<times> nat option) \<Rightarrow> recipient_claim \<Rightarrow> attempt_row campaign_act" where
  "confirm_recipient_workflow workflow_ok claim =
     seqA (readA (owned_workflow_run_id claim)) (\<lambda>workflow.
     seqA (callA (workflow_ok workflow)) (\<lambda>(completed, output).
     seqA (requireA completed CampaignInvalidStateError) (\<lambda>_.
     seqA (requireA (case output of None \<Rightarrow> True | Some n \<Rightarrow> n \<le> 16384) CampaignInvalidStateError) (\<lambda>_.
     tx (mark_workflow_completed claim)))))"

definition authorize_send ::
  "campaign_env \<Rightarrow> permit_clock \<Rightarrow> recipient_claim \<Rightarrow> permit_row campaign_act" where
  "authorize_send env clock claim =
     seqA (tx (authorize_permit env claim clock)) (\<lambda>decision.
     case decision of Inl permit \<Rightarrow> okA permit | Inr denial \<Rightarrow> failA CampaignInvalidStateError)"

text \<open>\<open>send\<close> stands for \<^verbatim>\<open>MessagingService.send\<close>: the message of a destination under an idempotency key.\<close>

definition dispatch_send ::
  "campaign_env \<Rightarrow> (campaign_draft \<Rightarrow> recipient_row \<Rightarrow> string \<Rightarrow> string \<Rightarrow> uuid option) \<Rightarrow> time \<Rightarrow> uuid
     \<Rightarrow> permit_row campaign_act" where
  "dispatch_send env send now permit_id =
     seqA (readA (\<lambda>d. bindE (dispatch_context permit_id d) (\<lambda>(permit, spec, recipient, attempt).
             Inr (permit, spec, recipient, attempt, find (\<lambda>r. ci_id r = rp_identity recipient) (kb_identities d)))))
       (\<lambda>(permit, spec, recipient, attempt, identity).
     if pm_state permit = Perm_CONSUMED then okA permit
     else case identity of
            None \<Rightarrow> failA CampaignExecutionFencedError
          | Some r \<Rightarrow>
              seqA (requireA (pm_state permit = Perm_AUTHORIZED) CampaignExecutionFencedError) (\<lambda>_.
              seqA (requireA (en_sha env (ci_value r) = rp_fingerprint recipient) CampaignExecutionFencedError) (\<lambda>_.
              seqA (callA (of_option CampaignDispatchFailedError (send spec recipient (ci_value r) (pm_p09 permit)))) (\<lambda>message.
              tx (dispatched_tx permit recipient attempt message now)))))"

definition cancel_campaign :: "uuid list \<Rightarrow> uuid \<Rightarrow> unit campaign_act" where
  "cancel_campaign locked campaign_id =
     seqA (tx (unit_tx (begin_cancellation campaign_id))) (\<lambda>_.
     seqA (readA (\<lambda>d. of_option CampaignInvalidStateError (find_campaign d campaign_id))) (\<lambda>c.
     seqA (if ca_state c = Camp_CANCELLED then okA (0, True)
           else tx (cancel_attempt_batch campaign_id CANCELLATION_BATCH locked)) (\<lambda>_.
     seqA (readA (\<lambda>d. of_option CampaignInvalidStateError (find_campaign d campaign_id))) (\<lambda>c.
     if ca_state c \<noteq> Camp_CANCELLED then okA ()
     else tx (unit_tx (campaign_event ''campaign.cancelled'' campaign_id None))))))"

end
