(* ===== verification/Campaign_Invariant.thy ===== *)
theory Campaign_Invariant
  imports Campaign_Service
begin

text \<open>
  The invariant of the campaign tables. Its structural half speaks of keys only: unique ids,
  references that resolve, one attempt for each logical identity. Its execution half ties
  permits to attempts, the counters of a run to its attempts, the throttle windows to its
  authorized sends and the end states of a run to the ends of its attempts. No operation the
  service calls fails a run.
\<close>

section \<open>Counting rows\<close>

definition tally :: "('a \<Rightarrow> bool) \<Rightarrow> 'a list \<Rightarrow> int" where
  "tally p xs = int (length (filter p xs))"

lemma tally_Nil [simp]: "tally p [] = 0"
  by (simp add: tally_def)

lemma tally_append [simp]: "tally p (xs @ ys) = tally p xs + tally p ys"
  by (simp add: tally_def)

lemma tally_Cons [simp]: "tally p (x # xs) = of_bool (p x) + tally p xs"
  by (simp add: tally_def)

lemma tally_map: "tally p (map f xs) = tally (\<lambda>x. p (f x)) xs"
  by (simp add: tally_def filter_map comp_def)

lemma tally_nonneg [simp]: "0 \<le> tally p xs"
  by (simp add: tally_def)

lemma tally_0_iff: "tally p xs = 0 \<longleftrightarrow> (\<forall>x \<in> set xs. \<not> p x)"
  by (simp add: tally_def filter_empty_conv)

lemma tally_cong: "(\<And>x. x \<in> set xs \<Longrightarrow> p x = q x) \<Longrightarrow> tally p xs = tally q xs"
  by (simp add: tally_def cong: filter_cong)

text \<open>Rewriting the one row with a given key moves a count by that row's contribution.\<close>

lemma tally_update:
  assumes "distinct (map k xs)" and "x \<in> set xs"
  shows "tally p (update_where (\<lambda>r. k r = k x) f xs) = tally p xs + of_bool (p (f x)) - of_bool (p x)"
  using assms
proof (induction xs)
  case (Cons a xs)
  show ?case
  proof (cases "a = x")
    case True
    then have "k r \<noteq> k x" if "r \<in> set xs" for r using Cons.prems(1) that by (metis distinct.simps(2) image_eqI list.simps(9) set_map)
    then have "update_where (\<lambda>r. k r = k x) f xs = xs" by (rule update_where_id)
    with True show ?thesis by (simp add: update_where_def)
  next
    case False
    then have "x \<in> set xs" using Cons.prems(2) by simp
    moreover have "k a \<noteq> k x" using Cons.prems(1) \<open>x \<in> set xs\<close> by (metis distinct.simps(2) image_eqI list.simps(9) set_map)
    ultimately show ?thesis using Cons by (simp add: update_where_def)
  qed
qed simp

lemma map_update_where_on:
  assumes "\<And>r. r \<in> set rows \<Longrightarrow> p r \<Longrightarrow> g (f r) = g r"
  shows "map g (update_where p f rows) = map g rows"
  using assms by (simp add: update_where_def)

section \<open>Structure\<close>

definition camp_key :: "campaign_row \<Rightarrow> uuid \<times> string \<times> uuid option \<times> throttle_policy" where
  "camp_key c = (ca_id c, ca_key c, ca_prepared c, dr_throttle (ca_draft c))"

definition snap_key :: "snapshot_row \<Rightarrow> uuid \<times> uuid" where
  "snap_key s = (sn_id s, sn_revision s)"

definition rec_key :: "recipient_row \<Rightarrow> uuid \<times> uuid \<times> msg_channel" where
  "rec_key r = (rp_id r, rp_snapshot r, rp_channel r)"

definition run_key :: "crun_row \<Rightarrow> uuid \<times> uuid \<times> uuid \<times> uuid \<times> string" where
  "run_key r = (ru_id r, ru_campaign r, ru_revision r, ru_snapshot r, ru_key r)"

definition att_key :: "attempt_row \<Rightarrow> uuid \<times> uuid \<times> uuid \<times> string \<times> string" where
  "att_key a = (at_id a, at_run a, at_recipient a, at_logical a, at_p09 a)"

text \<open>The logical identity of an attempt is that of its run, its recipient and their revision.\<close>

definition attempt_key_ok ::
  "campaign_env \<Rightarrow> revision_row list \<Rightarrow> (uuid \<times> uuid \<times> msg_channel) list \<Rightarrow> (uuid \<times> uuid \<times> uuid \<times> uuid \<times> string) list
     \<Rightarrow> uuid \<times> uuid \<times> uuid \<times> string \<times> string \<Rightarrow> bool" where
  "attempt_key_ok env V P R = (\<lambda>(i, run, rec, logical, p09).
     \<exists>v \<in> set V. \<exists>(ri, camp, rev, snap, key) \<in> set R. \<exists>(pi, psnap, ch) \<in> set P.
       ri = run \<and> pi = rec \<and> psnap = snap \<and> cv_id v = rev \<and>
       logical = recipient_identity (en_sha env) (en_org env) camp (cv_number v) run rec ch \<and>
       p09 = downstream_key ''message'' logical)"

text \<open>Primary keys are unique and were all handed out.\<close>

definition fresh_ids :: "('r \<Rightarrow> uuid) \<Rightarrow> 'r list \<Rightarrow> uuid \<Rightarrow> bool" where
  "fresh_ids k rows n \<longleftrightarrow> distinct (map k rows) \<and> (\<forall>r \<in> set rows. k r < n)"

lemma fresh_ids_add: "fresh_ids k rows n \<Longrightarrow> k r = n \<Longrightarrow> n < n' \<Longrightarrow> fresh_ids k (rows @ [r]) n'"
  by (fastforce simp: fresh_ids_def)

lemma fresh_ids_mono: "fresh_ids k rows n \<Longrightarrow> n \<le> n' \<Longrightarrow> fresh_ids k rows n'"
  by (fastforce simp: fresh_ids_def)

type_synonym camp_keys = "(uuid \<times> string \<times> uuid option \<times> throttle_policy) list"
type_synonym run_keys = "(uuid \<times> uuid \<times> uuid \<times> uuid \<times> string) list"

definition ids_ok ::
  "camp_keys \<Rightarrow> revision_row list \<Rightarrow> (uuid \<times> uuid) list \<Rightarrow> (uuid \<times> uuid \<times> msg_channel) list \<Rightarrow> run_keys
     \<Rightarrow> (uuid \<times> uuid \<times> uuid \<times> string \<times> string) list \<Rightarrow> uuid \<Rightarrow> bool" where
  "ids_ok C V S P R A n \<longleftrightarrow>
     fresh_ids fst C n \<and> fresh_ids cv_id V n \<and> fresh_ids fst S n \<and> fresh_ids fst P n \<and> fresh_ids fst R n \<and>
     fresh_ids fst A n \<and> distinct (map (\<lambda>(_, key, _). key) C) \<and> distinct (map snd S) \<and>
     distinct (map (\<lambda>(_, _, _, _, key). key) R) \<and> distinct (map (\<lambda>(_, _, _, logical, _). logical) A)"

definition refs_ok ::
  "camp_keys \<Rightarrow> revision_row list \<Rightarrow> (uuid \<times> uuid) list \<Rightarrow> (uuid \<times> uuid \<times> msg_channel) list \<Rightarrow> run_keys \<Rightarrow> bool" where
  "refs_ok C V S P R \<longleftrightarrow>
     (\<forall>(i, key, prepared, policy) \<in> set C. throttle_ok policy \<and>
        (\<forall>v. prepared = Some v \<longrightarrow> (\<exists>w \<in> set V. cv_id w = v \<and> cv_campaign w = i))) \<and>
     (\<forall>v \<in> set V. throttle_ok (dr_throttle (cv_spec v)) \<and> cv_campaign v \<in> fst ` set C) \<and>
     (\<forall>(i, rev) \<in> set S. rev \<in> cv_id ` set V) \<and>
     (\<forall>(i, snap, ch) \<in> set P. snap \<in> fst ` set S) \<and>
     (\<forall>(i, camp, rev, snap, key) \<in> set R.
        (\<exists>w \<in> set V. cv_id w = rev \<and> cv_campaign w = camp) \<and> (snap, rev) \<in> set S)"

definition struct_ok where
  "struct_ok env C V S P R A n \<longleftrightarrow>
     ids_ok C V S P R A n \<and> refs_ok C V S P R \<and> (\<forall>a \<in> set A. attempt_key_ok env V P R a)"

definition struct_inv :: "campaign_env \<Rightarrow> campaign_db \<Rightarrow> bool" where
  "struct_inv env d \<longleftrightarrow>
     struct_ok env (map camp_key (kb_campaigns d)) (kb_revisions d) (map snap_key (kb_snapshots d))
       (map rec_key (kb_recipients d)) (map run_key (kb_runs d)) (map att_key (kb_attempts d)) (kb_next d)"

section \<open>Execution\<close>

definition permit_matches :: "permit_row \<Rightarrow> attempt_row \<Rightarrow> bool" where
  "permit_matches p a \<longleftrightarrow>
     pm_state p = Perm_AUTHORIZED \<and> at_state a = Att_DISPATCH_AUTHORIZED \<and> pm_message p = None \<or>
     pm_state p = Perm_CONSUMED \<and> at_state a = Att_DISPATCHED \<and> pm_message p \<noteq> None \<and> pm_message p = at_message a"

definition sending :: "attempt_row \<Rightarrow> bool" where
  "sending a \<longleftrightarrow> at_state a = Att_DISPATCH_AUTHORIZED \<or> at_state a = Att_DISPATCHED"

definition counts_ok :: "attempt_row list \<Rightarrow> crun_row \<Rightarrow> bool" where
  "counts_ok A r \<longleftrightarrow>
     ru_claimed r = tally (\<lambda>a. at_run a = ru_id r \<and> at_token a \<noteq> None) A \<and>
     ru_authorized r = tally (\<lambda>a. at_run a = ru_id r \<and> sending a) A \<and>
     ru_dispatched r = tally (\<lambda>a. at_run a = ru_id r \<and> at_state a = Att_DISPATCHED) A \<and>
     ru_suppressed r = tally (\<lambda>a. at_run a = ru_id r \<and> at_state a = Att_SUPPRESSED) A \<and>
     ru_cancel_count r = tally (\<lambda>a. at_run a = ru_id r \<and> at_state a = Att_CANCELLED) A"

definition ends_ok :: "attempt_row list \<Rightarrow> crun_row \<Rightarrow> bool" where
  "ends_ok A r \<longleftrightarrow>
     (ru_state r = Crun_COMPLETED \<longrightarrow> (\<forall>a \<in> set A. at_run a = ru_id r \<longrightarrow> attempt_over (at_state a))) \<and>
     (ru_state r = Crun_CANCELLED \<longrightarrow> (\<forall>a \<in> set A. at_run a = ru_id r \<longrightarrow> \<not> attempt_cancellable (at_state a))) \<and>
     ru_state r \<noteq> Crun_FAILED"

definition window_sum :: "uuid \<Rightarrow> run_window list \<Rightarrow> int" where
  "window_sum run W = sum_list (map (\<lambda>w. if tw_run w = run then tw_count w else 0) W)"

definition win_key :: "run_window \<Rightarrow> uuid \<times> msg_channel \<times> time" where
  "win_key w = (tw_run w, tw_channel w, tw_start w)"

definition org_key :: "org_window \<Rightarrow> msg_channel \<times> time" where
  "org_key w = (ow_channel w, ow_start w)"

definition permits_ok :: "permit_row list \<Rightarrow> attempt_row list \<Rightarrow> uuid \<Rightarrow> bool" where
  "permits_ok M A n \<longleftrightarrow>
     distinct (map pm_id M) \<and> distinct (map pm_attempt M) \<and> (\<forall>p \<in> set M. pm_id p < n) \<and>
     (\<forall>p \<in> set M. \<exists>a \<in> set A. at_id a = pm_attempt p \<and> pm_p09 p = at_p09 a \<and> permit_matches p a) \<and>
     (\<forall>a \<in> set A. sending a \<longrightarrow> at_id a \<in> pm_attempt ` set M) \<and>
     (\<forall>a \<in> set A. at_state a = Att_PENDING \<longrightarrow> at_token a = None)"

definition windows_ok :: "run_window list \<Rightarrow> org_window list \<Rightarrow> crun_row list \<Rightarrow> revision_row list \<Rightarrow> bool" where
  "windows_ok W OW R V \<longleftrightarrow>
     distinct (map win_key W) \<and> distinct (map org_key OW) \<and>
     (\<forall>w \<in> set OW. 0 \<le> ow_count w \<and> ow_count w \<le> 1000000) \<and>
     (\<forall>w \<in> set W. 0 \<le> tw_count w \<and> tw_run w \<in> ru_id ` set R) \<and>
     (\<forall>r \<in> set R. window_sum (ru_id r) W = ru_authorized r \<and>
        (\<forall>v \<in> set V. cv_id v = ru_revision r \<longrightarrow>
           ru_authorized r \<le> tp_campaign_limit (dr_throttle (cv_spec v)) \<and>
           (\<forall>w \<in> set W. tw_run w = ru_id r \<longrightarrow> tw_count w \<le> tp_messages_per_minute (dr_throttle (cv_spec v)))))"

definition exec_ok where
  "exec_ok V R A M W OW n \<longleftrightarrow>
     permits_ok M A n \<and> (\<forall>r \<in> set R. counts_ok A r \<and> ends_ok A r) \<and> windows_ok W OW R V"

definition exec_inv :: "campaign_db \<Rightarrow> bool" where
  "exec_inv d \<longleftrightarrow> exec_ok (kb_revisions d) (kb_runs d) (kb_attempts d) (kb_permits d) (kb_windows d)
     (kb_org_windows d) (kb_next d)"

definition campaign_inv :: "campaign_env \<Rightarrow> campaign_db \<Rightarrow> bool" where
  "campaign_inv env d \<longleftrightarrow> struct_inv env d \<and> exec_inv d"

section \<open>What the invariant depends on\<close>

definition run_core where
  "run_core r = (ru_id r, ru_revision r, (ru_claimed r, ru_authorized r, ru_dispatched r, ru_suppressed r, ru_cancel_count r),
     ru_state r = Crun_COMPLETED, ru_state r = Crun_CANCELLED, ru_state r = Crun_FAILED)"

definition att_core where
  "att_core a = (at_id a, at_run a, at_p09 a, at_state a, at_token a \<noteq> None, at_message a)"

lemma map_eq_ex:
  assumes "map k xs = map k ys" and "y \<in> set ys"
  shows "\<exists>x \<in> set xs. k x = k y"
proof -
  have "k y \<in> set (map k xs)" using assms by simp
  then show ?thesis by auto
qed

lemma tally_core:
  assumes "map k xs = map k ys" and "\<And>a. p a = q (k a)"
  shows "tally p xs = tally p ys"
proof -
  have "p = (\<lambda>a. q (k a))" using assms(2) by blast
  then have "tally p zs = tally q (map k zs)" for zs by (simp add: tally_map)
  then show ?thesis using assms(1) by simp
qed

lemma counts_ok_core:
  assumes A: "map att_core A = map att_core A'" and r: "run_core r = run_core r'"
  shows "counts_ok A r \<longleftrightarrow> counts_ok A' r'"
proof -
  have "tally (\<lambda>a. at_run a = i \<and> at_token a \<noteq> None) A = tally (\<lambda>a. at_run a = i \<and> at_token a \<noteq> None) A'" for i
    by (rule tally_core [OF A, of _ "\<lambda>(_, run, _, _, t, _). run = i \<and> t"]) (simp add: att_core_def)
  moreover have st: "tally (\<lambda>a. at_run a = i \<and> q (at_state a)) A = tally (\<lambda>a. at_run a = i \<and> q (at_state a)) A'" for i q
    by (rule tally_core [OF A, of _ "\<lambda>(_, run, _, st, _, _). run = i \<and> q st"]) (simp add: att_core_def)
  note st [of _ "\<lambda>s. s = Att_DISPATCHED"] st [of _ "\<lambda>s. s = Att_SUPPRESSED"] st [of _ "\<lambda>s. s = Att_CANCELLED"]
    st [of _ "\<lambda>s. s = Att_DISPATCH_AUTHORIZED \<or> s = Att_DISPATCHED"]
  ultimately show ?thesis using r
    unfolding counts_ok_def sending_def run_core_def by simp
qed

lemma ends_ok_core:
  assumes A: "map att_core A = map att_core A'" and r: "run_core r = run_core r'" and ok: "ends_ok A r"
  shows "ends_ok A' r'"
proof -
  have eq: "ru_id r' = ru_id r" "ru_state r' = Crun_COMPLETED \<longleftrightarrow> ru_state r = Crun_COMPLETED"
    "ru_state r' = Crun_CANCELLED \<longleftrightarrow> ru_state r = Crun_CANCELLED" "ru_state r' = Crun_FAILED \<longleftrightarrow> ru_state r = Crun_FAILED"
    using r by (auto simp: run_core_def)
  have old: "\<exists>b \<in> set A. at_run b = at_run a \<and> at_state b = at_state a" if "a \<in> set A'" for a
    using map_eq_ex [OF A that] by (auto simp: att_core_def)
  have "attempt_over (at_state a)" if "ru_state r = Crun_COMPLETED" "a \<in> set A'" "at_run a = ru_id r" for a
    using old [OF that(2)] ok that unfolding ends_ok_def by fastforce
  moreover have "\<not> attempt_cancellable (at_state a)" if "ru_state r = Crun_CANCELLED" "a \<in> set A'" "at_run a = ru_id r" for a
    using old [OF that(2)] ok that unfolding ends_ok_def by fastforce
  ultimately show ?thesis using ok unfolding ends_ok_def eq by blast
qed

lemma permits_ok_core:
  assumes A: "map att_core A = map att_core A'" and ok: "permits_ok M A n" and n: "n \<le> n'"
  shows "permits_ok M A' n'"
  unfolding permits_ok_def
proof (intro conjI ballI impI)
  show "distinct (map pm_id M)" "distinct (map pm_attempt M)" using ok by (auto simp: permits_ok_def)
  show "pm_id p < n'" if "p \<in> set M" for p
  proof -
    have "pm_id p < n" using ok that by (simp add: permits_ok_def)
    then show ?thesis using n by simp
  qed
next
  fix p assume "p \<in> set M"
  then obtain a where a: "a \<in> set A" "at_id a = pm_attempt p" "pm_p09 p = at_p09 a" "permit_matches p a"
    using ok unfolding permits_ok_def by blast
  obtain b where "b \<in> set A'" "att_core b = att_core a" using map_eq_ex [OF A [symmetric] a(1)] by blast
  with a show "\<exists>a \<in> set A'. at_id a = pm_attempt p \<and> pm_p09 p = at_p09 a \<and> permit_matches p a"
    by (intro bexI [of _ b]) (auto simp: att_core_def permit_matches_def)
next
  fix a assume a: "a \<in> set A'" "sending a"
  obtain b where "b \<in> set A" "att_core b = att_core a" using map_eq_ex [OF A a(1)] by blast
  with a have b: "b \<in> set A" "sending b" and eq: "at_id a = at_id b" by (auto simp: att_core_def sending_def)
  show "at_id a \<in> pm_attempt ` set M" unfolding eq using ok b unfolding permits_ok_def by blast
next
  fix a assume a: "a \<in> set A'" "at_state a = Att_PENDING"
  obtain b where "b \<in> set A" "att_core b = att_core a" using map_eq_ex [OF A a(1)] by blast
  with a have b: "b \<in> set A" "at_state b = Att_PENDING" and eq: "at_token a = None \<longleftrightarrow> at_token b = None"
    by (auto simp: att_core_def)
  show "at_token a = None" unfolding eq using ok b unfolding permits_ok_def by blast
qed

lemma windows_ok_core:
  assumes R: "map run_core R = map run_core R'" and ok: "windows_ok W OW R V"
  shows "windows_ok W OW R' V"
proof -
  have ids: "ru_id ` set R' = ru_id ` set R"
  proof -
    have img: "ru_id ` set X = fst ` set (map run_core X)" for X by (force simp: run_core_def)
    show ?thesis unfolding img R ..
  qed
  have old: "\<exists>b \<in> set R. ru_id b = ru_id r \<and> ru_revision b = ru_revision r \<and> ru_authorized b = ru_authorized r"
    if "r \<in> set R'" for r
    using map_eq_ex [OF R that] by (auto simp: run_core_def)
  have "window_sum (ru_id r) W = ru_authorized r \<and> (\<forall>v \<in> set V. cv_id v = ru_revision r \<longrightarrow>
      ru_authorized r \<le> tp_campaign_limit (dr_throttle (cv_spec v)) \<and>
      (\<forall>w \<in> set W. tw_run w = ru_id r \<longrightarrow> tw_count w \<le> tp_messages_per_minute (dr_throttle (cv_spec v))))"
    if r: "r \<in> set R'" for r
  proof -
    obtain b where b: "b \<in> set R" and eq: "ru_id r = ru_id b" "ru_revision r = ru_revision b" "ru_authorized r = ru_authorized b"
      using old [OF r] by fastforce
    show ?thesis unfolding eq using ok b unfolding windows_ok_def by blast
  qed
  then show ?thesis using ok unfolding windows_ok_def ids by blast
qed

lemma exec_ok_core:
  assumes "exec_ok V R A M W OW n" and "map run_core R = map run_core R'" and "map att_core A = map att_core A'" and "n \<le> n'"
  shows "exec_ok V R' A' M W OW n'"
proof -
  have "counts_ok A' r \<and> ends_ok A' r" if "r \<in> set R'" for r
    using map_eq_ex [OF assms(2) that] counts_ok_core [OF assms(3)] ends_ok_core [OF assms(3)] assms(1)
    unfolding exec_ok_def by blast
  then show ?thesis
    using assms permits_ok_core windows_ok_core unfolding exec_ok_def by blast
qed

lemma ids_ok_next: "ids_ok C V S P R A n \<Longrightarrow> n \<le> n' \<Longrightarrow> ids_ok C V S P R A n'"
  by (simp add: ids_ok_def fresh_ids_mono [of _ _ n n'])

lemma struct_ok_next: "struct_ok env C V S P R A n \<Longrightarrow> n \<le> n' \<Longrightarrow> struct_ok env C V S P R A n'"
  by (simp add: struct_ok_def ids_ok_next [of _ _ _ _ _ _ n n'])

text \<open>The tables up to what the invariant reads.\<close>

definition same_core :: "campaign_db \<Rightarrow> campaign_db \<Rightarrow> bool" where
  "same_core d d' \<longleftrightarrow>
     map camp_key (kb_campaigns d') = map camp_key (kb_campaigns d) \<and> kb_revisions d' = kb_revisions d \<and>
     map snap_key (kb_snapshots d') = map snap_key (kb_snapshots d) \<and>
     map rec_key (kb_recipients d') = map rec_key (kb_recipients d) \<and>
     map run_key (kb_runs d') = map run_key (kb_runs d) \<and> map run_core (kb_runs d') = map run_core (kb_runs d) \<and>
     map att_key (kb_attempts d') = map att_key (kb_attempts d) \<and> map att_core (kb_attempts d') = map att_core (kb_attempts d) \<and>
     kb_permits d' = kb_permits d \<and> kb_windows d' = kb_windows d \<and> kb_org_windows d' = kb_org_windows d \<and>
     kb_next d \<le> kb_next d'"

lemma same_core_inv:
  assumes inv: "campaign_inv env d" and same: "same_core d d'"
  shows "campaign_inv env d'"
proof -
  have n: "kb_next d \<le> kb_next d'" using same by (simp add: same_core_def)
  have "struct_inv env d'"
    unfolding struct_inv_def
    by (rule struct_ok_next [OF _ n]) (use inv same in \<open>simp add: campaign_inv_def struct_inv_def same_core_def\<close>)
  moreover have "exec_inv d'"
    unfolding exec_inv_def
    by (rule exec_ok_core [OF _ _ _ n, of _ "kb_runs d" "kb_attempts d"])
      (use inv same in \<open>simp_all add: campaign_inv_def exec_inv_def same_core_def\<close>)
  ultimately show ?thesis by (simp add: campaign_inv_def)
qed

lemma same_core_refl [simp]: "same_core d d"
  by (simp add: same_core_def)

lemma same_core_trans: "same_core a b \<Longrightarrow> same_core b c \<Longrightarrow> same_core a c"
  by (simp add: same_core_def)

end
