(* ===== verification/Campaign_Keys.thy ===== *)
theory Campaign_Keys
  imports Campaign_Invariant
begin

text \<open>
  How the structural half of the campaign invariant grows: a new campaign, revision with its
  snapshot, recipient, run or attempt, each under a fresh id.
\<close>

section \<open>New rows\<close>

lemma attempt_key_ok_mono:
  assumes "attempt_key_ok env V P R a" and "set V \<subseteq> set V'" and "set P \<subseteq> set P'" and "set R \<subseteq> set R'"
  shows "attempt_key_ok env V' P' R' a"
proof -
  obtain i run rec logical p09 where a: "a = (i, run, rec, logical, p09)" by (cases a) auto
  obtain v camp snap key ch where "v \<in> set V" "(run, camp, cv_id v, snap, key) \<in> set R" "(rec, snap, ch) \<in> set P"
    "logical = recipient_identity (en_sha env) (en_org env) camp (cv_number v) run rec ch" "p09 = downstream_key ''message'' logical"
    using assms(1) unfolding a attempt_key_ok_def by auto
  then show ?thesis using assms(2-4) unfolding a attempt_key_ok_def by fastforce
qed

lemma attempts_ok_mono:
  assumes "\<forall>a \<in> set A. attempt_key_ok env V P R a" and "set V \<subseteq> set V'" and "set P \<subseteq> set P'" and "set R \<subseteq> set R'"
  shows "\<forall>a \<in> set A. attempt_key_ok env V' P' R' a"
  using attempt_key_ok_mono [OF _ assms(2-4)] assms(1) by blast

lemma fresh_ids_not_in: "fresh_ids k rows n \<Longrightarrow> n \<notin> k ` set rows"
  by (auto simp: fresh_ids_def)

lemma struct_add_campaign:
  assumes "struct_ok env C V S P R A n" and "key \<notin> (\<lambda>(_, key, _). key) ` set C" and "throttle_ok policy"
  shows "struct_ok env (C @ [(n, key, None, policy)]) V S P R A (Suc n)"
proof -
  have "ids_ok (C @ [(n, key, None, policy)]) V S P R A (Suc n)"
    using assms fresh_ids_add [of fst C n "(n, key, None, policy)" "Suc n"]
    unfolding struct_ok_def ids_ok_def by (simp add: image_iff fresh_ids_mono [of _ _ n "Suc n"])
  moreover have "refs_ok (C @ [(n, key, None, policy)]) V S P R"
    using assms unfolding struct_ok_def refs_ok_def by auto
  ultimately show ?thesis using assms by (simp add: struct_ok_def)
qed

lemma struct_add_revision:
  assumes ok: "struct_ok env C V S P R A n" and v: "cv_id v = n" "cv_campaign v \<in> fst ` set C" "throttle_ok (dr_throttle (cv_spec v))"
  shows "struct_ok env C (V @ [v]) (S @ [(Suc n, n)]) P R A (n + 2)"
proof -
  have "n \<notin> cv_id ` set V" using ok by (auto simp: struct_ok_def ids_ok_def dest: fresh_ids_not_in)
  then have new: "n \<notin> snd ` set S" using ok unfolding struct_ok_def refs_ok_def by auto
  have S: "fresh_ids fst (S @ [(Suc n, n)]) (n + 2)"
    using ok fresh_ids_add [of fst S "Suc n" "(Suc n, n)" "n + 2"] fresh_ids_mono [of fst S n "Suc n"]
    by (simp add: struct_ok_def ids_ok_def)
  have "ids_ok C (V @ [v]) (S @ [(Suc n, n)]) P R A (n + 2)"
    using ok v(1) S new fresh_ids_add [of cv_id V n v "n + 2"]
    unfolding struct_ok_def ids_ok_def by (simp add: fresh_ids_mono [of _ _ n "Suc (Suc n)"])
  moreover have "refs_ok C (V @ [v]) (S @ [(Suc n, n)]) P R"
    using ok v unfolding struct_ok_def refs_ok_def set_append ball_Un bex_Un image_Un by auto
  moreover have "\<forall>a \<in> set A. attempt_key_ok env (V @ [v]) P R a"
    by (rule attempts_ok_mono [of A env V P R]) (use ok in \<open>auto simp: struct_ok_def\<close>)
  ultimately show ?thesis by (simp add: struct_ok_def)
qed

lemma struct_add_recipient:
  assumes ok: "struct_ok env C V S P R A n" and s: "snap \<in> fst ` set S"
  shows "struct_ok env C V S (P @ [(n, snap, ch)]) R A (Suc n)"
proof -
  have "ids_ok C V S (P @ [(n, snap, ch)]) R A (Suc n)"
    using ok fresh_ids_add [of fst P n "(n, snap, ch)" "Suc n"]
    unfolding struct_ok_def ids_ok_def by (simp add: fresh_ids_mono [of _ _ n "Suc n"])
  moreover have "refs_ok C V S (P @ [(n, snap, ch)]) R"
    using ok s unfolding struct_ok_def refs_ok_def by auto
  moreover have "\<forall>a \<in> set A. attempt_key_ok env V (P @ [(n, snap, ch)]) R a"
    by (rule attempts_ok_mono [of A env V P R]) (use ok in \<open>auto simp: struct_ok_def\<close>)
  ultimately show ?thesis by (simp add: struct_ok_def)
qed

lemma struct_add_run:
  assumes ok: "struct_ok env C V S P R A n" and k: "key \<notin> (\<lambda>(_, _, _, _, key). key) ` set R"
    and v: "\<exists>w \<in> set V. cv_id w = vi \<and> cv_campaign w = camp" and s: "(snap, vi) \<in> set S"
  shows "struct_ok env C V S P (R @ [(n, camp, vi, snap, key)]) A (Suc n)"
proof -
  let ?R = "R @ [(n, camp, vi, snap, key)]"
  have "ids_ok C V S P ?R A (Suc n)"
    using ok k fresh_ids_add [of fst R n "(n, camp, vi, snap, key)" "Suc n"]
    unfolding struct_ok_def ids_ok_def by (simp add: image_iff fresh_ids_mono [of _ _ n "Suc n"])
  moreover have "refs_ok C V S P ?R"
    using ok v s unfolding struct_ok_def refs_ok_def by auto
  moreover have "\<forall>a \<in> set A. attempt_key_ok env V P ?R a"
    by (rule attempts_ok_mono [of A env V P R]) (use ok in \<open>auto simp: struct_ok_def\<close>)
  ultimately show ?thesis by (simp add: struct_ok_def)
qed

lemma struct_add_attempt:
  assumes ok: "struct_ok env C V S P R A n" and k: "logical \<notin> (\<lambda>(_, _, _, logical, _). logical) ` set A"
    and a: "attempt_key_ok env V P R (n, run, rec, logical, p09)"
  shows "struct_ok env C V S P R (A @ [(n, run, rec, logical, p09)]) (Suc n)"
proof -
  have "ids_ok C V S P R (A @ [(n, run, rec, logical, p09)]) (Suc n)"
    using ok k fresh_ids_add [of fst A n "(n, run, rec, logical, p09)" "Suc n"]
    unfolding struct_ok_def ids_ok_def by (simp add: image_iff fresh_ids_mono [of _ _ n "Suc n"])
  then show ?thesis using ok a by (simp add: struct_ok_def)
qed

section \<open>Reading the structure\<close>

lemma struct_inv_D:
  assumes "struct_inv env d"
  shows "distinct (map ca_id (kb_campaigns d))" and "distinct (map ca_key (kb_campaigns d))"
    and "distinct (map cv_id (kb_revisions d))" and "distinct (map sn_id (kb_snapshots d))"
    and "distinct (map sn_revision (kb_snapshots d))" and "distinct (map rp_id (kb_recipients d))"
    and "distinct (map ru_id (kb_runs d))" and "distinct (map ru_key (kb_runs d))"
    and "distinct (map at_id (kb_attempts d))" and "distinct (map at_logical (kb_attempts d))"
  using assms
  by (simp_all add: struct_inv_def struct_ok_def ids_ok_def fresh_ids_def comp_def camp_key_def snap_key_def
      rec_key_def run_key_def att_key_def)

lemma struct_inv_fresh:
  assumes "struct_inv env d"
  shows "c \<in> set (kb_campaigns d) \<Longrightarrow> ca_id c < kb_next d" and "v \<in> set (kb_revisions d) \<Longrightarrow> cv_id v < kb_next d"
    and "r \<in> set (kb_runs d) \<Longrightarrow> ru_id r < kb_next d" and "a \<in> set (kb_attempts d) \<Longrightarrow> at_id a < kb_next d"
  using assms
  by (simp_all add: struct_inv_def struct_ok_def ids_ok_def fresh_ids_def camp_key_def run_key_def att_key_def)

lemma struct_inv_campaign:
  assumes "struct_inv env d" and "c \<in> set (kb_campaigns d)"
  shows "throttle_ok (dr_throttle (ca_draft c))"
    and "ca_prepared c = Some v \<Longrightarrow> \<exists>w \<in> set (kb_revisions d). cv_id w = v \<and> cv_campaign w = ca_id c"
  using assms unfolding struct_inv_def struct_ok_def refs_ok_def camp_key_def by auto

lemma struct_inv_revision:
  assumes "struct_inv env d" and "v \<in> set (kb_revisions d)"
  shows "throttle_ok (dr_throttle (cv_spec v))" and "\<exists>c \<in> set (kb_campaigns d). cv_campaign v = ca_id c"
  using assms unfolding struct_inv_def struct_ok_def refs_ok_def camp_key_def by (auto simp: image_iff)

lemma struct_inv_run:
  assumes "struct_inv env d" and "r \<in> set (kb_runs d)"
  shows "\<exists>v \<in> set (kb_revisions d). cv_id v = ru_revision r \<and> cv_campaign v = ru_campaign r"
    and "\<exists>s \<in> set (kb_snapshots d). sn_id s = ru_snapshot r \<and> sn_revision s = ru_revision r"
proof -
  have ok: "refs_ok (map camp_key (kb_campaigns d)) (kb_revisions d) (map snap_key (kb_snapshots d))
      (map rec_key (kb_recipients d)) (map run_key (kb_runs d))"
    using assms(1) by (simp add: struct_inv_def struct_ok_def)
  then show "\<exists>v \<in> set (kb_revisions d). cv_id v = ru_revision r \<and> cv_campaign v = ru_campaign r"
    using assms(2) unfolding refs_ok_def run_key_def by auto
  have "(ru_snapshot r, ru_revision r) \<in> snap_key ` set (kb_snapshots d)"
    using ok assms(2) unfolding refs_ok_def run_key_def by auto
  then show "\<exists>s \<in> set (kb_snapshots d). sn_id s = ru_snapshot r \<and> sn_revision s = ru_revision r"
    unfolding snap_key_def by auto
qed

lemma struct_inv_attempt:
  assumes "struct_inv env d" and "a \<in> set (kb_attempts d)"
  obtains v r p where "v \<in> set (kb_revisions d)" and "r \<in> set (kb_runs d)" and "p \<in> set (kb_recipients d)"
    and "ru_id r = at_run a" and "rp_id p = at_recipient a" and "rp_snapshot p = ru_snapshot r" and "cv_id v = ru_revision r"
    and "at_logical a = recipient_identity (en_sha env) (en_org env) (ru_campaign r) (cv_number v) (at_run a) (at_recipient a) (rp_channel p)"
    and "at_p09 a = downstream_key ''message'' (at_logical a)"
proof -
  have "attempt_key_ok env (kb_revisions d) (map rec_key (kb_recipients d)) (map run_key (kb_runs d)) (att_key a)"
    using assms unfolding struct_inv_def struct_ok_def by auto
  then show thesis
    unfolding attempt_key_ok_def att_key_def
    by (auto simp: run_key_def rec_key_def intro: that)
qed

end
