(* ===== verification/Campaign_Frames.thy ===== *)
theory Campaign_Frames
  imports Campaign_Keys
begin

text \<open>
  The operations that leave alone what the campaign invariant reads, and those that only
  add rows: preparation, runs and their release, pause, resume and the start of a
  cancellation, preferences and suppressions.
\<close>

named_theorems core

section \<open>Writes the invariant does not see\<close>

lemma upd_campaign_sel [simp]:
  "kb_revisions (upd_campaign i f d) = kb_revisions d" "kb_runs (upd_campaign i f d) = kb_runs d"
  "kb_attempts (upd_campaign i f d) = kb_attempts d" "kb_permits (upd_campaign i f d) = kb_permits d"
  "kb_recipients (upd_campaign i f d) = kb_recipients d" "kb_snapshots (upd_campaign i f d) = kb_snapshots d"
  "kb_windows (upd_campaign i f d) = kb_windows d" "kb_org_windows (upd_campaign i f d) = kb_org_windows d"
  "kb_next (upd_campaign i f d) = kb_next d"
  by (simp_all add: upd_campaign_def)

lemma upd_crun_sel [simp]:
  "kb_campaigns (upd_crun i f d) = kb_campaigns d" "kb_revisions (upd_crun i f d) = kb_revisions d"
  "kb_attempts (upd_crun i f d) = kb_attempts d" "kb_permits (upd_crun i f d) = kb_permits d"
  "kb_recipients (upd_crun i f d) = kb_recipients d" "kb_snapshots (upd_crun i f d) = kb_snapshots d"
  "kb_windows (upd_crun i f d) = kb_windows d" "kb_org_windows (upd_crun i f d) = kb_org_windows d"
  "kb_next (upd_crun i f d) = kb_next d"
  by (simp_all add: upd_crun_def)

lemma upd_attempt_sel [simp]:
  "kb_campaigns (upd_attempt i f d) = kb_campaigns d" "kb_revisions (upd_attempt i f d) = kb_revisions d"
  "kb_runs (upd_attempt i f d) = kb_runs d" "kb_permits (upd_attempt i f d) = kb_permits d"
  "kb_recipients (upd_attempt i f d) = kb_recipients d" "kb_snapshots (upd_attempt i f d) = kb_snapshots d"
  "kb_windows (upd_attempt i f d) = kb_windows d" "kb_org_windows (upd_attempt i f d) = kb_org_windows d"
  "kb_next (upd_attempt i f d) = kb_next d"
  by (simp_all add: upd_attempt_def)

lemma upd_recipient_sel [simp]:
  "kb_campaigns (upd_recipient i f d) = kb_campaigns d" "kb_revisions (upd_recipient i f d) = kb_revisions d"
  "kb_runs (upd_recipient i f d) = kb_runs d" "kb_permits (upd_recipient i f d) = kb_permits d"
  "kb_attempts (upd_recipient i f d) = kb_attempts d" "kb_snapshots (upd_recipient i f d) = kb_snapshots d"
  "kb_windows (upd_recipient i f d) = kb_windows d" "kb_org_windows (upd_recipient i f d) = kb_org_windows d"
  "kb_next (upd_recipient i f d) = kb_next d"
  by (simp_all add: upd_recipient_def)

lemma upd_permit_sel [simp]:
  "kb_campaigns (upd_permit i f d) = kb_campaigns d" "kb_revisions (upd_permit i f d) = kb_revisions d"
  "kb_runs (upd_permit i f d) = kb_runs d" "kb_attempts (upd_permit i f d) = kb_attempts d"
  "kb_recipients (upd_permit i f d) = kb_recipients d" "kb_snapshots (upd_permit i f d) = kb_snapshots d"
  "kb_windows (upd_permit i f d) = kb_windows d" "kb_org_windows (upd_permit i f d) = kb_org_windows d"
  "kb_next (upd_permit i f d) = kb_next d"
  by (simp_all add: upd_permit_def)

lemma note_transition_sel [simp]:
  "kb_campaigns (note_transition e i f t r d) = kb_campaigns d" "kb_revisions (note_transition e i f t r d) = kb_revisions d"
  "kb_runs (note_transition e i f t r d) = kb_runs d" "kb_attempts (note_transition e i f t r d) = kb_attempts d"
  "kb_permits (note_transition e i f t r d) = kb_permits d" "kb_recipients (note_transition e i f t r d) = kb_recipients d"
  "kb_snapshots (note_transition e i f t r d) = kb_snapshots d" "kb_windows (note_transition e i f t r d) = kb_windows d"
  "kb_org_windows (note_transition e i f t r d) = kb_org_windows d" "kb_next (note_transition e i f t r d) = kb_next d"
  by (simp_all add: note_transition_def)

lemma note_core [core]: "same_core d d' \<Longrightarrow> same_core d (note_transition e i f t r d')"
  by (simp add: same_core_def note_transition_def)

lemma emit_core [core]: "same_core d d' \<Longrightarrow> same_core d (emit t a s r n d')"
  by (simp add: same_core_def emit_def)

lemma recipient_event_core [core]: "same_core d d' \<Longrightarrow> same_core d (recipient_event t c d')"
  by (simp add: recipient_event_def emit_core)

lemma fold_core:
  assumes "\<And>x a. same_core d a \<Longrightarrow> same_core d (g x a)" and "same_core d d'"
  shows "same_core d (fold g xs d')"
  using assms by (induction xs arbitrary: d') auto

lemma note_runs_core [core]: "same_core d d' \<Longrightarrow> same_core d (note_runs t r rows d')"
  unfolding note_runs_def by (rule fold_core) (auto intro: core)

lemma upd_campaign_core [core]:
  "(\<And>c. camp_key (f c) = camp_key c) \<Longrightarrow> same_core d d' \<Longrightarrow> same_core d (upd_campaign i f d')"
  by (simp add: same_core_def upd_campaign_def map_update_where)

lemma upd_snapshot_core [core]:
  "(\<And>s. snap_key (f s) = snap_key s) \<Longrightarrow> same_core d d' \<Longrightarrow> same_core d (upd_snapshot i f d')"
  by (simp add: same_core_def upd_snapshot_def map_update_where)

lemma upd_recipient_core [core]:
  "(\<And>r. rec_key (f r) = rec_key r) \<Longrightarrow> same_core d d' \<Longrightarrow> same_core d (upd_recipient i f d')"
  by (simp add: same_core_def upd_recipient_def map_update_where)

lemma upd_runs_core [core]:
  assumes "rows = kb_runs d'"
    and "\<And>r. r \<in> set rows \<Longrightarrow> p r \<Longrightarrow> run_key (f r) = run_key r \<and> run_core (f r) = run_core r"
    and "same_core d d'"
  shows "same_core d (d'\<lparr>kb_runs := update_where p f rows\<rparr>)"
  using assms by (simp add: same_core_def map_update_where_on)

lemma upd_crun_core [core]:
  assumes "\<And>r. r \<in> set (kb_runs d') \<Longrightarrow> ru_id r = i \<Longrightarrow> run_key (f r) = run_key r \<and> run_core (f r) = run_core r"
    and "same_core d d'"
  shows "same_core d (upd_crun i f d')"
  unfolding upd_crun_def using refl assms by (rule upd_runs_core)

lemma upd_attempt_core [core]:
  assumes "\<And>a. at_id a = i \<Longrightarrow> att_key (f a) = att_key a \<and> att_core (f a) = att_core a" and "same_core d d'"
  shows "same_core d (upd_attempt i f d')"
  using assms by (simp add: same_core_def upd_attempt_def map_update_where_on)

lemma policy_epoch_core: "same_core d (snd (policy_epoch ch d))"
  by (simp add: policy_epoch_def same_core_def split: option.splits)

lemma eligibility_db: "snd (eligibility env now c cu ci cn ch q d) = snd (policy_epoch ch d)"
  by (simp add: eligibility_def Let_def split_beta)

lemma policy_epoch_other [simp]:
  "kb_campaigns (snd (policy_epoch ch d)) = kb_campaigns d" "kb_revisions (snd (policy_epoch ch d)) = kb_revisions d"
  "kb_runs (snd (policy_epoch ch d)) = kb_runs d" "kb_attempts (snd (policy_epoch ch d)) = kb_attempts d"
  "kb_permits (snd (policy_epoch ch d)) = kb_permits d" "kb_recipients (snd (policy_epoch ch d)) = kb_recipients d"
  "kb_next (snd (policy_epoch ch d)) = kb_next d" "kb_snapshots (snd (policy_epoch ch d)) = kb_snapshots d"
  "kb_windows (snd (policy_epoch ch d)) = kb_windows d" "kb_org_windows (snd (policy_epoch ch d)) = kb_org_windows d"
  by (simp_all add: policy_epoch_def split: option.splits)

text \<open>A row found under its id is the row under that id.\<close>

lemma find_id: "distinct (map k rows) \<Longrightarrow> r \<in> set rows \<Longrightarrow> k r = i \<Longrightarrow> find (\<lambda>x. k x = i) rows = Some r"
  by (rule find_SomeI) (auto dest: distinct_map_inj)

lemma find_crun_D: "find_crun d i = Some r \<Longrightarrow> r \<in> set (kb_runs d) \<and> ru_id r = i"
  unfolding find_crun_def by (drule find_Some_D) simp

lemma find_campaign_D: "find_campaign d i = Some r \<Longrightarrow> r \<in> set (kb_campaigns d) \<and> ca_id r = i"
  unfolding find_campaign_def by (drule find_Some_D) simp

lemma find_attempt_D: "find_attempt d i = Some r \<Longrightarrow> r \<in> set (kb_attempts d) \<and> at_id r = i"
  unfolding find_attempt_def by (drule find_Some_D) simp

lemma find_revision_D: "find_revision d i = Some r \<Longrightarrow> r \<in> set (kb_revisions d) \<and> cv_id r = i"
  unfolding find_revision_def by (drule find_Some_D) simp

lemma find_recipient_D: "find_recipient d i = Some r \<Longrightarrow> r \<in> set (kb_recipients d) \<and> rp_id r = i"
  unfolding find_recipient_def by (drule find_Some_D) simp

lemma find_permit_D: "find_permit d i = Some r \<Longrightarrow> r \<in> set (kb_permits d) \<and> pm_id r = i"
  unfolding find_permit_def by (drule find_Some_D) simp

lemma snapshot_for_D: "snapshot_for d v = Some r \<Longrightarrow> r \<in> set (kb_snapshots d) \<and> sn_revision r = v"
  unfolding snapshot_for_def by (drule find_Some_D) simp

lemma same_run:
  assumes "struct_inv env d" and "find_crun d i = Some r" and "x \<in> set (kb_runs d)" and "ru_id x = i"
  shows "x = r"
  using assms struct_inv_D(7) find_crun_D by (metis distinct_map_inj)

lemma same_attempt:
  assumes "struct_inv env d" and "a \<in> set (kb_attempts d)" and "b \<in> set (kb_attempts d)" and "at_id a = at_id b"
  shows "a = b"
  using assms struct_inv_D(9) by (metis distinct_map_inj)

section \<open>Operations without effect on the invariant\<close>

lemmas row_defs = camp_key_def snap_key_def rec_key_def run_key_def run_core_def att_key_def att_core_def

lemma mark_campaign_scheduled_core: "mark_campaign_scheduled i d = Inr d' \<Longrightarrow> same_core d d'"
  by (auto simp: mark_campaign_scheduled_def camp_key_def intro!: core split: if_splits)

lemma set_release_run_core: "set_release_run i w d = Inr d' \<Longrightarrow> same_core d d'"
  by (auto simp: set_release_run_def run_key_def run_core_def intro!: core)

lemma bind_schedule_core: "bind_schedule i s d = Inr d' \<Longrightarrow> same_core d d'"
  by (auto simp: bind_schedule_def run_key_def run_core_def intro!: core)

lemma bind_scheduled_release_core: "bind_scheduled_release i s oc w v d = Inr d' \<Longrightarrow> same_core d d'"
  by (auto simp: bind_scheduled_release_def run_key_def run_core_def intro!: core split: if_splits)

lemma begin_run_activation_core:
  assumes inv: "struct_inv env d" and ok: "begin_run_activation i d = Inr d'"
  shows "same_core d d'"
proof -
  obtain r where r: "find_crun d i = Some r" using ok by (auto simp: begin_run_activation_def)
  note u = same_run [OF inv r]
  show ?thesis
    using ok r by (auto simp: begin_run_activation_def Let_def camp_key_def run_key_def run_core_def
        intro!: core dest!: u split: if_splits)
qed

lemma transition_pause_core: "transition_campaign_state i Camp_PAUSED why d = Inr d' \<Longrightarrow> same_core d d'"
  by (auto simp: transition_campaign_state_def Let_def camp_key_def run_key_def run_core_def intro!: core)

lemma transition_run_core: "transition_campaign_state i Camp_RUNNING why d = Inr d' \<Longrightarrow> same_core d d'"
  by (auto simp: transition_campaign_state_def Let_def camp_key_def intro!: core)

lemma resume_campaign_core: "resume_campaign i d = Inr d' \<Longrightarrow> same_core d d'"
  by (auto simp: resume_campaign_def run_key_def run_core_def intro!: core dest!: transition_run_core)

lemma begin_cancellation_core: "begin_cancellation i d = Inr d' \<Longrightarrow> same_core d d'"
  by (auto simp: begin_cancellation_def Let_def run_cancellable_def camp_key_def run_key_def run_core_def
      intro!: core split: if_splits)

lemma set_preference_core: "set_preference q d = Inr (n, d') \<Longrightarrow> same_core d d'"
  by (auto simp: set_preference_def Let_def same_core_def split: option.splits)

lemma add_suppression_core: "add_suppression q d = Inr (n, d') \<Longrightarrow> same_core d d'"
  using policy_epoch_core [of d "sq_channel q"]
  by (auto simp: add_suppression_def Let_def same_core_def split_beta)

lemma campaign_event_core: "campaign_event t i n d = Inr d' \<Longrightarrow> same_core d d'"
  by (auto simp: campaign_event_def intro!: core)

end
