(* ===== verification/Campaign_Growth.thy ===== *)
theory Campaign_Growth
  imports Campaign_Frames
begin

text \<open>
  The operations that add campaigns, revisions, recipients, runs and attempts keep the
  campaign invariant, as do those that change a draft or seal a preparation.
\<close>

section \<open>Growth of the execution half\<close>

lemma exec_next: "exec_ok V R A M W OW n \<Longrightarrow> n \<le> n' \<Longrightarrow> exec_ok V R A M W OW n'"
  by (rule exec_ok_core) auto

lemma exec_add_revision:
  assumes "exec_ok V R A M W OW n" and "\<And>r. r \<in> set R \<Longrightarrow> ru_revision r \<noteq> cv_id v"
  shows "exec_ok (V @ [v]) R A M W OW n"
proof -
  have "windows_ok W OW R (V @ [v])"
    using assms unfolding exec_ok_def windows_ok_def set_append ball_Un by (simp add: eq_commute [of "cv_id v"])
  then show ?thesis using assms(1) by (simp add: exec_ok_def)
qed

lemma window_sum_none: "(\<And>w. w \<in> set W \<Longrightarrow> tw_run w \<noteq> i) \<Longrightarrow> window_sum i W = 0"
  unfolding window_sum_def by (induction W) auto

lemma exec_add_run:
  assumes ok: "exec_ok V R A M W OW n" and new: "ru_id r \<notin> ru_id ` set R" "\<And>a. a \<in> set A \<Longrightarrow> at_run a \<noteq> ru_id r"
    and zero: "ru_claimed r = 0" "ru_authorized r = 0" "ru_dispatched r = 0" "ru_suppressed r = 0" "ru_cancel_count r = 0"
    and state: "ru_state r \<noteq> Crun_COMPLETED" "ru_state r \<noteq> Crun_CANCELLED" "ru_state r \<noteq> Crun_FAILED"
    and pos: "\<And>v. v \<in> set V \<Longrightarrow> throttle_ok (dr_throttle (cv_spec v))"
  shows "exec_ok V (R @ [r]) A M W OW n"
proof -
  have none: "tally (\<lambda>a. at_run a = ru_id r \<and> q a) A = 0" for q
    using new(2) by (auto simp: tally_0_iff)
  have cnt: "counts_ok A r"
    unfolding counts_ok_def zero using none by simp
  have ends: "ends_ok A r" using state by (simp add: ends_ok_def)
  have w: "tw_run x \<noteq> ru_id r" if "x \<in> set W" for x
    using ok new(1) that unfolding exec_ok_def windows_ok_def by metis
  have lim: "0 \<le> tp_campaign_limit (dr_throttle (cv_spec v))" if "v \<in> set V" for v
    using pos [OF that] by (simp add: throttle_ok_def)
  have "windows_ok W OW (R @ [r]) V"
    using ok w window_sum_none [of W "ru_id r"] lim zero(2)
    unfolding exec_ok_def windows_ok_def by auto
  with ok cnt ends show ?thesis unfolding exec_ok_def by auto
qed

lemma exec_add_attempt:
  assumes ok: "exec_ok V R A M W OW n" and a: "at_state a = Att_PENDING" "at_token a = None"
    and live: "\<And>r. r \<in> set R \<Longrightarrow> ru_id r = at_run a \<Longrightarrow> ru_state r \<noteq> Crun_COMPLETED \<and> ru_state r \<noteq> Crun_CANCELLED"
  shows "exec_ok V R (A @ [a]) M W OW n"
proof -
  have "permits_ok M (A @ [a]) n"
    using ok a unfolding exec_ok_def permits_ok_def by (auto simp: sending_def)
  moreover have "counts_ok (A @ [a]) r \<and> ends_ok (A @ [a]) r" if "r \<in> set R" for r
    using ok that a live [OF that] unfolding exec_ok_def counts_ok_def ends_ok_def by (auto simp: sending_def)
  ultimately show ?thesis using ok unfolding exec_ok_def by blast
qed

section \<open>Campaigns and preparation\<close>

lemma create_campaign_inv:
  assumes inv: "campaign_inv env d" and ok: "create_campaign key name draft d = Inr (c, d')" and dr: "draft_ok n draft"
  shows "campaign_inv env d'"
proof -
  let ?row = "\<lparr>ca_id = kb_next d, ca_key = key, ca_name = name, ca_state = Camp_DRAFT, ca_revision = 1,
     ca_draft = draft, ca_prepared = None\<rparr>"
  let ?d = "d\<lparr>kb_campaigns := kb_campaigns d @ [?row], kb_next := Suc (kb_next d)\<rparr>"
  have new: "key \<notin> (\<lambda>(_, key, _). key) ` set (map camp_key (kb_campaigns d))"
    and d': "same_core ?d d'"
    using ok by (auto simp: create_campaign_def Let_def list_ex_iff camp_key_def intro!: core)
  have t: "throttle_ok (dr_throttle draft)" using dr by (simp add: draft_ok_def)
  have "struct_inv env ?d"
    using inv struct_add_campaign [OF _ new t] by (simp add: campaign_inv_def struct_inv_def camp_key_def)
  moreover have "exec_inv ?d"
    using inv exec_next [of _ _ _ _ _ _ "kb_next d" "Suc (kb_next d)"] by (simp add: campaign_inv_def exec_inv_def)
  ultimately show ?thesis using same_core_inv [OF _ d'] by (simp add: campaign_inv_def)
qed

text \<open>Rewriting campaigns that keep their ids and keys.\<close>

lemma campaigns_inv:
  assumes inv: "campaign_inv env d" and ids: "map ca_id cs = map ca_id (kb_campaigns d)" "map ca_key cs = map ca_key (kb_campaigns d)"
    and good: "\<And>c. c \<in> set cs \<Longrightarrow> throttle_ok (dr_throttle (ca_draft c)) \<and>
      (\<forall>v. ca_prepared c = Some v \<longrightarrow> (\<exists>w \<in> set (kb_revisions d). cv_id w = v \<and> cv_campaign w = ca_id c))"
  shows "campaign_inv env (d\<lparr>kb_campaigns := cs\<rparr>)"
proof -
  let ?C = "map camp_key (kb_campaigns d)" and ?C' = "map camp_key cs"
  have fst: "map fst ?C' = map fst ?C" using ids(1) by (simp add: comp_def camp_key_def)
  have key: "map (\<lambda>(_, key, _). key) ?C' = map (\<lambda>(_, key, _). key) ?C" using ids(2) by (simp add: comp_def camp_key_def)
  have img: "fst ` set ?C' = fst ` set ?C" using fst by (metis set_map)
  have lt: "(\<forall>r \<in> set X. fst r < n) \<longleftrightarrow> (\<forall>i \<in> fst ` set X. i < n)" for X :: camp_keys and n by simp
  have "fresh_ids fst ?C' (kb_next d)"
    using inv unfolding campaign_inv_def struct_inv_def struct_ok_def ids_ok_def fresh_ids_def lt img fst by blast
  then have "ids_ok ?C' (kb_revisions d) (map snap_key (kb_snapshots d)) (map rec_key (kb_recipients d))
      (map run_key (kb_runs d)) (map att_key (kb_attempts d)) (kb_next d)"
    using inv unfolding campaign_inv_def struct_inv_def struct_ok_def ids_ok_def key by blast
  moreover have "\<forall>(i, key, prepared, policy) \<in> set ?C'. throttle_ok policy \<and>
      (\<forall>v. prepared = Some v \<longrightarrow> (\<exists>w \<in> set (kb_revisions d). cv_id w = v \<and> cv_campaign w = i))"
    using good by (auto simp: camp_key_def)
  moreover have "fst ` camp_key ` set cs = fst ` camp_key ` set (kb_campaigns d)" using img by simp
  ultimately show ?thesis
    using inv unfolding campaign_inv_def struct_inv_def struct_ok_def refs_ok_def exec_inv_def
    by simp
qed

lemma update_campaign_inv:
  assumes inv: "campaign_inv env d" and row: "row \<in> set (kb_campaigns d)"
    and ok: "update_campaign row name draft d = Inr (c, d')" and dr: "\<And>x. draft = Some x \<Longrightarrow> draft_ok n x"
  shows "campaign_inv env d'"
proof -
  let ?new = "row\<lparr>ca_name := case_option (ca_name row) id name, ca_draft := case_option (ca_draft row) id draft,
     ca_revision := Suc (ca_revision row)\<rparr>"
  let ?cs = "update_where (\<lambda>r. ca_id r = ca_id row) (\<lambda>_. ?new) (kb_campaigns d)"
  have st: "struct_inv env d" using inv by (simp add: campaign_inv_def)
  have u: "r = row" if "r \<in> set (kb_campaigns d)" "ca_id r = ca_id row" for r
    using distinct_map_inj [OF struct_inv_D(1) [OF st] that(1) row that(2)] .
  have t: "throttle_ok (dr_throttle (ca_draft ?new))"
    using struct_inv_campaign(1) [OF st row] dr by (auto simp: draft_ok_def split: option.splits)
  have "campaign_inv env (d\<lparr>kb_campaigns := ?cs\<rparr>)"
  proof (rule campaigns_inv [OF inv])
    show "map ca_id ?cs = map ca_id (kb_campaigns d)" "map ca_key ?cs = map ca_key (kb_campaigns d)"
      by (intro map_update_where_on; use u in auto)+
  next
    fix c assume "c \<in> set ?cs"
    then consider "c = ?new" | "c \<in> set (kb_campaigns d)" by (auto simp: set_update_where split: if_splits)
    then show "throttle_ok (dr_throttle (ca_draft c)) \<and>
      (\<forall>v. ca_prepared c = Some v \<longrightarrow> (\<exists>w \<in> set (kb_revisions d). cv_id w = v \<and> cv_campaign w = ca_id c))"
    proof cases
      case 1
      then show ?thesis using t struct_inv_campaign(2) [OF st row] by simp
    next
      case 2
      then show ?thesis using struct_inv_campaign [OF st] by blast
    qed
  qed
  moreover have "d' = d\<lparr>kb_campaigns := ?cs\<rparr>"
    using ok by (auto simp: update_campaign_def Let_def upd_campaign_def)
  ultimately show ?thesis by simp
qed

lemma begin_preparation_inv:
  assumes inv: "campaign_inv env d" and row: "row \<in> set (kb_campaigns d)"
    and ok: "begin_preparation env refs row d = Inr (x, d')"
  shows "campaign_inv env d'"
proof -
  let ?n = "kb_next d"
  let ?v = "\<lparr>cv_id = ?n, cv_campaign = ca_id row, cv_number = ca_revision row,
     cv_content_hash = en_draft_digest env (ca_draft row), cv_spec = ca_draft row\<rparr>"
  let ?s = "\<lparr>sn_id = Suc ?n, sn_revision = ?n, sn_state = Snap_OPEN,
     sn_source_digest = en_source_digest env (ca_draft row), sn_cursor = 0, sn_resolved = 0,
     sn_eligible = 0, sn_rejected = 0, sn_sealed_at = None\<rparr>"
  let ?d = "d\<lparr>kb_revisions := kb_revisions d @ [?v], kb_snapshots := kb_snapshots d @ [?s], kb_next := ?n + 2\<rparr>"
  have st: "struct_inv env d" and ex: "exec_inv d" using inv by (auto simp: campaign_inv_def)
  have camp: "cv_campaign ?v \<in> fst ` set (map camp_key (kb_campaigns d))"
    using row by (auto simp: camp_key_def image_iff)
  have "struct_inv env ?d"
    using st struct_add_revision [OF _ _ camp] struct_inv_campaign(1) [OF st row]
    by (simp add: struct_inv_def snap_key_def)
  moreover have "exec_inv ?d"
  proof -
    have "ru_revision r \<noteq> cv_id ?v" if "r \<in> set (kb_runs d)" for r
      using struct_inv_run(1) [OF st that] struct_inv_fresh(2) [OF st] by force
    then have "exec_ok (kb_revisions d @ [?v]) (kb_runs d) (kb_attempts d) (kb_permits d) (kb_windows d) (kb_org_windows d) ?n"
      using ex by (intro exec_add_revision) (auto simp: exec_inv_def)
    from exec_next [OF this, of "?n + 2"] show ?thesis by (simp add: exec_inv_def)
  qed
  moreover have "same_core ?d d'"
    using ok by (auto simp: begin_preparation_def Let_def same_core_def upd_campaign_def camp_key_def
        note_transition_def map_update_where)
  ultimately show ?thesis using same_core_inv [of env ?d d'] by (simp add: campaign_inv_def)
qed

section \<open>Recipients\<close>

lemma add_recipient_inv:
  assumes inv: "campaign_inv env d" and s: "rp_snapshot p \<in> sn_id ` set (kb_snapshots d)" and i: "rp_id p = kb_next d"
  shows "campaign_inv env (d\<lparr>kb_recipients := kb_recipients d @ [p], kb_next := Suc (kb_next d)\<rparr>)"
proof -
  have "rp_snapshot p \<in> fst ` set (map snap_key (kb_snapshots d))" using s by (force simp: snap_key_def)
  then show ?thesis
    using inv struct_add_recipient [of env _ _ "map snap_key (kb_snapshots d)" _ _ _ "kb_next d" "rp_snapshot p" "rp_channel p"] i
      exec_next [of _ _ _ _ _ _ "kb_next d" "Suc (kb_next d)"]
    by (simp add: campaign_inv_def struct_inv_def exec_inv_def rec_key_def)
qed

lemma upd_snapshot_sel [simp]:
  "kb_campaigns (upd_snapshot i f d) = kb_campaigns d" "kb_revisions (upd_snapshot i f d) = kb_revisions d"
  "kb_runs (upd_snapshot i f d) = kb_runs d" "kb_attempts (upd_snapshot i f d) = kb_attempts d"
  "kb_permits (upd_snapshot i f d) = kb_permits d" "kb_recipients (upd_snapshot i f d) = kb_recipients d"
  "kb_next (upd_snapshot i f d) = kb_next d"
  by (simp_all add: upd_snapshot_def)

lemma materialize_member_inv:
  assumes inv: "campaign_inv env d" and s: "sn_id s \<in> sn_id ` set (kb_snapshots d)"
    and ok: "materialize_member env v s now m d = Inr d'"
  shows "campaign_inv env d'" and "sn_id ` set (kb_snapshots d') = sn_id ` set (kb_snapshots d)"
proof -
  obtain reason next_at consent epoch dest d1 where
    el: "eligibility env now (cv_campaign v) (am_customer m) (am_identity m) (am_conversation m)
          (dr_channel (cv_spec v)) (dr_quiet (cv_spec v)) d = ((reason, next_at, consent, epoch, dest), d1)"
    by (metis prod_cases5 surj_pair)
  have d1: "d1 = snd (policy_epoch (dr_channel (cv_spec v)) d)" using eligibility_db el by (metis snd_conv)
  define p where "p = \<lparr>rp_id = kb_next d1, rp_snapshot = sn_id s, rp_customer = am_customer m,
     rp_identity = am_identity m, rp_conversation = am_conversation m, rp_channel = dr_channel (cv_spec v),
     rp_fingerprint = en_sha env dest, rp_state = recipient_state_for reason, rp_reason = reason, rp_next_at = next_at,
     rp_consent_epoch = consent, rp_suppression_epoch = epoch\<rparr>"
  define f :: "snapshot_row \<Rightarrow> snapshot_row" where "f = (\<lambda>s. s\<lparr>sn_resolved := Suc (sn_resolved s),
     sn_eligible := sn_eligible s + (if recipient_state_for reason = Rec_ELIGIBLE then 1 else 0),
     sn_rejected := sn_rejected s + (if recipient_state_for reason = Rec_ELIGIBLE then 0 else 1)\<rparr>)"
  have p: "rp_snapshot p = sn_id s" "rp_id p = kb_next d1" by (simp_all add: p_def)
  have f: "snap_key (f x) = snap_key x" for x by (simp add: f_def snap_key_def)
  have d': "d' = upd_snapshot (sn_id s) f (d1\<lparr>kb_recipients := kb_recipients d1 @ [p], kb_next := Suc (kb_next d1)\<rparr>)"
    using ok by (simp add: materialize_member_def Let_def el p_def f_def)
  have i1: "campaign_inv env d1" unfolding d1 by (rule same_core_inv [OF inv policy_epoch_core])
  have "campaign_inv env (d1\<lparr>kb_recipients := kb_recipients d1 @ [p], kb_next := Suc (kb_next d1)\<rparr>)"
    by (rule add_recipient_inv [OF i1]) (use p s d1 in auto)
  then show "campaign_inv env d'" unfolding d' by (rule same_core_inv) (auto intro!: core f)
  have "sn_id (f x) = sn_id x" for x using f [of x] by (simp add: snap_key_def)
  then have "map sn_id (kb_snapshots d') = map sn_id (kb_snapshots d)"
    by (simp add: d' upd_snapshot_def d1 map_update_where)
  from arg_cong [OF this, of set] show "sn_id ` set (kb_snapshots d') = sn_id ` set (kb_snapshots d)" by simp
qed

lemma materialize_members_inv:
  assumes "campaign_inv env d" and "sn_id s \<in> sn_id ` set (kb_snapshots d)"
    and "materialize_members env v s clock ms d = Inr d'"
  shows "campaign_inv env d'"
  using assms
proof (induction ms arbitrary: d)
  case (Cons m ms)
  then obtain d1 where d1: "materialize_member env v s (clock (length ms)) m d = Inr d1"
    and rest: "materialize_members env v s clock ms d1 = Inr d'" by auto
  from materialize_member_inv [OF Cons.prems(1,2) d1] Cons.prems(2) rest show ?case by (intro Cons.IH) auto
qed simp

lemma materialize_batch_inv:
  assumes inv: "campaign_inv env d" and ok: "materialize_batch env rid limit clock d = Inr (s', d')"
  shows "campaign_inv env d'"
proof -
  obtain v s d1 where s: "snapshot_for d rid = Some s"
    and d1: "materialize_members env v s clock (take limit (drop (sn_cursor s) (dr_audience (cv_spec v)))) d = Inr d1"
    and d': "d' = upd_snapshot (sn_id s) (\<lambda>x. x\<lparr>sn_cursor := sn_cursor x +
        length (take limit (drop (sn_cursor s) (dr_audience (cv_spec v))))\<rparr>) d1"
    using ok by (auto simp: materialize_batch_def Let_def split: option.splits)
  have "campaign_inv env d1"
    using materialize_members_inv [OF inv _ d1] snapshot_for_D [OF s] by blast
  then show ?thesis unfolding d' by (rule same_core_inv) (auto simp: snap_key_def intro!: core)
qed

lemma seal_preparation_inv:
  assumes inv: "campaign_inv env d" and ok: "seal_preparation cid rid now d = Inr d'"
    and own: "\<exists>v \<in> set (kb_revisions d). cv_id v = rid \<and> cv_campaign v = cid"
  shows "campaign_inv env d'"
proof -
  obtain s where s: "snapshot_for d rid = Some s" using ok by (auto simp: seal_preparation_def split: option.splits)
  have d': "d' = note_transition Hist_CAMPAIGN cid (Some (Of_campaign Camp_PREPARING)) (Of_campaign Camp_READY)
      (Because ''CAMPAIGN_PREPARED'') (upd_campaign cid (\<lambda>c. c\<lparr>ca_state := Camp_READY, ca_prepared := Some rid\<rparr>)
        (upd_snapshot (sn_id s) (\<lambda>s. s\<lparr>sn_state := Snap_SEALED, sn_sealed_at := Some now\<rparr>) d))"
    using ok s by (auto simp: seal_preparation_def Let_def split: option.splits)
  let ?d1 = "upd_snapshot (sn_id s) (\<lambda>s. s\<lparr>sn_state := Snap_SEALED, sn_sealed_at := Some now\<rparr>) d"
  let ?cs = "update_where (\<lambda>r. ca_id r = cid) (\<lambda>c. c\<lparr>ca_state := Camp_READY, ca_prepared := Some rid\<rparr>) (kb_campaigns d)"
  have i1: "campaign_inv env ?d1" by (rule same_core_inv [OF inv]) (auto simp: snap_key_def intro!: core)
  then have st: "struct_inv env d" using inv by (simp add: campaign_inv_def)
  have "campaign_inv env (?d1\<lparr>kb_campaigns := ?cs\<rparr>)"
  proof (rule campaigns_inv [OF i1])
    show "map ca_id ?cs = map ca_id (kb_campaigns ?d1)" "map ca_key ?cs = map ca_key (kb_campaigns ?d1)"
      by (auto intro: map_update_where)
    fix c assume "c \<in> set ?cs"
    then obtain b where b: "b \<in> set (kb_campaigns d)"
      and c: "c = (if ca_id b = cid then b\<lparr>ca_state := Camp_READY, ca_prepared := Some rid\<rparr> else b)"
      by (auto simp: set_update_where)
    show "throttle_ok (dr_throttle (ca_draft c)) \<and>
      (\<forall>v. ca_prepared c = Some v \<longrightarrow> (\<exists>w \<in> set (kb_revisions ?d1). cv_id w = v \<and> cv_campaign w = ca_id c))"
      using struct_inv_campaign [OF st b] own unfolding c by auto
  qed
  then have "campaign_inv env (upd_campaign cid (\<lambda>c. c\<lparr>ca_state := Camp_READY, ca_prepared := Some rid\<rparr>) ?d1)"
    by (simp add: upd_campaign_def)
  then show ?thesis unfolding d' by (rule same_core_inv) (auto intro!: note_core)
qed

section \<open>Runs and attempts\<close>

lemma new_crun_inv:
  assumes inv: "campaign_inv env d" and k: "\<And>x. x \<in> set (kb_runs d) \<Longrightarrow> ru_key x \<noteq> key"
    and v: "\<exists>w \<in> set (kb_revisions d). cv_id w = vi \<and> cv_campaign w = camp" and s: "snapshot_for d vi = Some s"
  shows "campaign_inv env (d\<lparr>kb_runs := kb_runs d @ [new_crun camp vi (sn_id s) key (kb_next d)], kb_next := Suc (kb_next d)\<rparr>)"
    (is "campaign_inv env (d\<lparr>kb_runs := kb_runs d @ [?r], kb_next := Suc (kb_next d)\<rparr>)")
proof -
  have st: "struct_inv env d" and ex: "exec_inv d" using inv by (auto simp: campaign_inv_def)
  have k': "key \<notin> (\<lambda>(_, _, _, _, key). key) ` set (map run_key (kb_runs d))" using k by (auto simp: run_key_def)
  have sn: "(sn_id s, vi) \<in> set (map snap_key (kb_snapshots d))"
    using snapshot_for_D [OF s] by (force simp: snap_key_def)
  have rk: "run_key ?r = (kb_next d, camp, vi, sn_id s, key)" by (simp add: run_key_def new_crun_def)
  have "struct_inv env (d\<lparr>kb_runs := kb_runs d @ [?r], kb_next := Suc (kb_next d)\<rparr>)"
    using struct_add_run [OF st [unfolded struct_inv_def] k' v sn] by (simp add: struct_inv_def rk)
  moreover have "exec_ok (kb_revisions d) (kb_runs d @ [?r]) (kb_attempts d) (kb_permits d) (kb_windows d) (kb_org_windows d) (kb_next d)"
  proof (rule exec_add_run)
    show "exec_ok (kb_revisions d) (kb_runs d) (kb_attempts d) (kb_permits d) (kb_windows d) (kb_org_windows d) (kb_next d)"
      using ex by (simp add: exec_inv_def)
    show "ru_id ?r \<notin> ru_id ` set (kb_runs d)" using struct_inv_fresh(3) [OF st] by (force simp: new_crun_def)
    show "at_run a \<noteq> ru_id ?r" if "a \<in> set (kb_attempts d)" for a
    proof -
      from st that obtain x where "x \<in> set (kb_runs d)" "ru_id x = at_run a" by (rule struct_inv_attempt)
      then show ?thesis using struct_inv_fresh(3) [OF st] by (force simp: new_crun_def)
    qed
    show "throttle_ok (dr_throttle (cv_spec v))" if "v \<in> set (kb_revisions d)" for v
      by (rule struct_inv_revision(1) [OF st that])
  qed (simp_all add: new_crun_def)
  then have "exec_inv (d\<lparr>kb_runs := kb_runs d @ [?r], kb_next := Suc (kb_next d)\<rparr>)"
    using exec_next by (fastforce simp: exec_inv_def)
  ultimately show ?thesis by (simp add: campaign_inv_def)
qed

lemma create_crun_inv:
  assumes inv: "campaign_inv env d" and c: "c \<in> set (kb_campaigns d)" and ok: "create_crun c key d = Inr (r, d')"
  shows "campaign_inv env d'"
proof -
  have st: "struct_inv env d" using inv by (simp add: campaign_inv_def)
  obtain vi s where v: "ca_prepared c = Some vi" and s: "snapshot_for d vi = Some s"
    using ok by (auto simp: create_crun_def)
  show ?thesis
  proof (cases "find (\<lambda>r. ru_key r = key) (kb_runs d)")
    case None
    then have "campaign_inv env (d\<lparr>kb_runs := kb_runs d @ [new_crun (ca_id c) vi (sn_id s) key (kb_next d)], kb_next := Suc (kb_next d)\<rparr>)"
      using new_crun_inv [OF inv _ struct_inv_campaign(2) [OF st c v] s] by (auto dest: find_None_D)
    then show ?thesis
      by (rule same_core_inv) (use ok v s None in \<open>auto simp: create_crun_def Let_def intro!: note_core\<close>)
  next
    case (Some x)
    then show ?thesis using ok v s inv by (auto simp: create_crun_def)
  qed
qed

lemma add_attempts_inv:
  assumes "campaign_inv env d" and "run \<in> set (kb_runs d)" and "v \<in> set (kb_revisions d)" and "cv_id v = ru_revision run"
    and "ru_state run = Crun_MATERIALIZING" and "\<And>p. p \<in> set ps \<Longrightarrow> p \<in> set (kb_recipients d) \<and> rp_snapshot p = ru_snapshot run"
    and "add_attempts env run v ps d = Inr d'"
  shows "campaign_inv env d' \<and> kb_runs d' = kb_runs d"
  using assms
proof (induction ps arbitrary: d)
  case (Cons p ps)
  let ?a = "new_attempt env run v p (kb_next d)"
  let ?d = "d\<lparr>kb_attempts := kb_attempts d @ [?a], kb_next := Suc (kb_next d)\<rparr>"
  have st: "struct_inv env d" and ex: "exec_inv d" using Cons.prems(1) by (auto simp: campaign_inv_def)
  have fresh: "\<not> list_ex (\<lambda>b. at_logical b = at_logical ?a \<or> at_p14 b = at_p14 ?a \<or> at_p09 b = at_p09 ?a) (kb_attempts d)"
    and rest: "add_attempts env run v ps ?d = Inr d'"
    using Cons.prems(7) by (auto simp: Let_def)
  have k: "at_logical ?a \<notin> (\<lambda>(_, _, _, logical, _). logical) ` set (map att_key (kb_attempts d))"
    using fresh by (auto simp: list_ex_iff att_key_def)
  have good: "attempt_key_ok env (kb_revisions d) (map rec_key (kb_recipients d)) (map run_key (kb_runs d))
      (kb_next d, ru_id run, rp_id p, at_logical ?a, at_p09 ?a)"
    unfolding attempt_key_ok_def split_conv
    using Cons.prems(2,3,4) Cons.prems(6) [of p]
    by (intro bexI [of _ v] bexI [of _ "run_key run"] bexI [of _ "rec_key p"])
      (auto simp: new_attempt_def Let_def run_key_def rec_key_def)
  have ak: "att_key ?a = (kb_next d, ru_id run, rp_id p, at_logical ?a, at_p09 ?a)"
    by (simp add: att_key_def new_attempt_def Let_def)
  have "struct_inv env ?d"
    using struct_add_attempt [OF st [unfolded struct_inv_def] k good] by (simp add: struct_inv_def ak)
  moreover have "exec_ok (kb_revisions d) (kb_runs d) (kb_attempts d @ [?a]) (kb_permits d) (kb_windows d) (kb_org_windows d) (kb_next d)"
  proof (rule exec_add_attempt)
    show "exec_ok (kb_revisions d) (kb_runs d) (kb_attempts d) (kb_permits d) (kb_windows d) (kb_org_windows d) (kb_next d)"
      using ex by (simp add: exec_inv_def)
    fix r assume "r \<in> set (kb_runs d)" "ru_id r = at_run ?a"
    then have "r = run"
      using distinct_map_inj [OF struct_inv_D(7) [OF st], of r run] Cons.prems(2) by (simp add: new_attempt_def Let_def)
    then show "ru_state r \<noteq> Crun_COMPLETED \<and> ru_state r \<noteq> Crun_CANCELLED" using Cons.prems(5) by simp
  qed (simp_all add: new_attempt_def Let_def)
  then have "exec_inv ?d" using exec_next by (fastforce simp: exec_inv_def)
  ultimately have "campaign_inv env ?d" by (simp add: campaign_inv_def)
  from Cons.IH [OF this _ _ Cons.prems(4,5) _ rest] Cons.prems(2,3,6) show ?case by simp
qed simp

lemma materialize_attempt_batch_inv:
  assumes inv: "campaign_inv env d" and ok: "materialize_attempt_batch env i limit d = Inr (n, d')"
  shows "campaign_inv env d'"
proof -
  have st: "struct_inv env d" using inv by (simp add: campaign_inv_def)
  obtain run v d1 where run: "find_crun d i = Some run" and ms: "ru_state run = Crun_MATERIALIZING"
    and v: "find_revision d (ru_revision run) = Some v"
    and d1: "add_attempts env run v (take limit (drop (ru_cursor run) (attempt_candidates run d))) d = Inr d1"
    using ok by (auto simp: materialize_attempt_batch_def Let_def)
  have cand: "p \<in> set (kb_recipients d) \<and> rp_snapshot p = ru_snapshot run"
    if "p \<in> set (take limit (drop (ru_cursor run) (attempt_candidates run d)))" for p
    using that by (auto simp: attempt_candidates_def dest!: in_set_takeD in_set_dropD)
  have i1: "campaign_inv env d1" and runs: "kb_runs d1 = kb_runs d"
    using add_attempts_inv [OF inv _ _ _ ms cand d1] find_crun_D [OF run] find_revision_D [OF v] by auto
  have u: "ru_state x = Crun_MATERIALIZING" if "x \<in> set (kb_runs d1)" "ru_id x = i" for x
    using same_run [OF st run] that ms runs by auto
  have "same_core d1 d'"
    using ok run ms v d1 by (auto simp: materialize_attempt_batch_def Let_def run_key_def run_core_def u intro!: core split: if_splits)
  with i1 show ?thesis by (rule same_core_inv)
qed

end
