(* ===== verification/Campaign_Moves.thy ===== *)
theory Campaign_Moves
  imports Campaign_Growth
begin

text \<open>
  Attempts move: claims, workflow progress, denials and cancellation keep the campaign
  invariant, with the counters of the run following the attempt.
\<close>

section \<open>Rewriting one row\<close>

lemma in_update_one:
  assumes "distinct (map k xs)" and "a \<in> set xs"
  shows "x \<in> set (update_where (\<lambda>r. k r = k a) f xs) \<longleftrightarrow> x = f a \<or> x \<in> set xs \<and> k x \<noteq> k a"
proof
  assume "x \<in> set (update_where (\<lambda>r. k r = k a) f xs)"
  then obtain r where r: "r \<in> set xs" "x = (if k r = k a then f r else r)" by (auto simp: set_update_where)
  show "x = f a \<or> x \<in> set xs \<and> k x \<noteq> k a"
  proof (cases "k r = k a")
    case True
    then have "r = a" using assms r(1) by (metis distinct_map_inj)
    with r True show ?thesis by simp
  qed (use r in simp)
next
  assume "x = f a \<or> x \<in> set xs \<and> k x \<noteq> k a"
  then show "x \<in> set (update_where (\<lambda>r. k r = k a) f xs)"
    unfolding set_update_where
  proof (elim disjE conjE)
    assume "x = f a"
    then show "x \<in> (\<lambda>r. if k r = k a then f r else r) ` set xs" using assms(2) by (intro image_eqI [of _ _ a]) auto
  next
    assume "x \<in> set xs" "k x \<noteq> k a"
    then show "x \<in> (\<lambda>r. if k r = k a then f r else r) ` set xs" by (intro image_eqI [of _ _ x]) auto
  qed
qed

text \<open>How the counters of its run follow an attempt that is rewritten.\<close>

definition follows :: "attempt_row \<Rightarrow> attempt_row \<Rightarrow> crun_row \<Rightarrow> crun_row \<Rightarrow> bool" where
  "follows a b r s \<longleftrightarrow>
     ru_claimed s = ru_claimed r + of_bool (at_token b \<noteq> None) - of_bool (at_token a \<noteq> None) \<and>
     ru_authorized s = ru_authorized r + of_bool (sending b) - of_bool (sending a) \<and>
     ru_dispatched s = ru_dispatched r + of_bool (at_state b = Att_DISPATCHED) - of_bool (at_state a = Att_DISPATCHED) \<and>
     ru_suppressed s = ru_suppressed r + of_bool (at_state b = Att_SUPPRESSED) - of_bool (at_state a = Att_SUPPRESSED) \<and>
     ru_cancel_count s = ru_cancel_count r + of_bool (at_state b = Att_CANCELLED) - of_bool (at_state a = Att_CANCELLED)"

lemma counts_follow:
  assumes dist: "distinct (map at_id A)" and a: "a \<in> set A" and run: "at_run (f a) = at_run a"
    and r: "counts_ok A r" and same: "ru_id s = ru_id r"
    and move: "if ru_id r = at_run a then follows a (f a) r s else
      (ru_claimed s, ru_authorized s, ru_dispatched s, ru_suppressed s, ru_cancel_count s) =
      (ru_claimed r, ru_authorized r, ru_dispatched r, ru_suppressed r, ru_cancel_count r)"
  shows "counts_ok (update_where (\<lambda>x. at_id x = at_id a) f A) s"
  using r move run unfolding counts_ok_def follows_def tally_update [OF dist a] same
  by (cases "ru_id r = at_run a") simp_all

lemma ends_follow:
  assumes dist: "distinct (map at_id A)" and a: "a \<in> set A" and run: "at_run (f a) = at_run a"
    and ok: "ends_ok A r" and same: "ru_id s = ru_id r" "ru_state s = ru_state r"
    and over: "attempt_over (at_state a) \<Longrightarrow> attempt_over (at_state (f a))"
    and canc: "attempt_cancellable (at_state (f a)) \<Longrightarrow> attempt_cancellable (at_state a)"
  shows "ends_ok (update_where (\<lambda>x. at_id x = at_id a) f A) s"
  using ok a run over canc unfolding ends_ok_def same by (auto dest!: in_update_one [OF dist a, THEN iffD1])

text \<open>An attempt that does not send has no permit, so rewriting it leaves the permits alone.\<close>

lemma permits_follow:
  assumes dist: "distinct (map at_id A)" and a: "a \<in> set A" and ok: "permits_ok M A n"
    and key: "at_id (f a) = at_id a" and ns: "\<not> sending a" "\<not> sending (f a)" and pend: "at_state (f a) \<noteq> Att_PENDING"
  shows "permits_ok M (update_where (\<lambda>x. at_id x = at_id a) f A) n"
proof -
  let ?A = "update_where (\<lambda>x. at_id x = at_id a) f A"
  have "\<exists>b \<in> set ?A. at_id b = pm_attempt p \<and> pm_p09 p = at_p09 b \<and> permit_matches p b" if "p \<in> set M" for p
  proof -
    obtain b where b: "b \<in> set A" "at_id b = pm_attempt p" "pm_p09 p = at_p09 b" "permit_matches p b"
      using ok \<open>p \<in> set M\<close> unfolding permits_ok_def by blast
    then have "sending b" by (auto simp: permit_matches_def sending_def)
    with ns have "b \<noteq> a" by auto
    then have "at_id b \<noteq> at_id a" using distinct_map_inj [OF dist b(1) a] by blast
    with b show ?thesis by (intro bexI [of _ b]) (auto simp: in_update_one [OF dist a])
  qed
  moreover have "at_id b \<in> pm_attempt ` set M" if "b \<in> set ?A" "sending b" for b
    using that ns ok unfolding in_update_one [OF dist a] permits_ok_def by auto
  moreover have "at_token b = None" if "b \<in> set ?A" "at_state b = Att_PENDING" for b
    using that pend ok unfolding in_update_one [OF dist a] permits_ok_def by auto
  ultimately show ?thesis using ok unfolding permits_ok_def by blast
qed

lemma windows_ok_keys:
  assumes "map (\<lambda>r. (ru_id r, ru_revision r, ru_authorized r)) R' = map (\<lambda>r. (ru_id r, ru_revision r, ru_authorized r)) R"
    and ok: "windows_ok W OW R V"
  shows "windows_ok W OW R' V"
proof -
  let ?k = "\<lambda>r. (ru_id r, ru_revision r, ru_authorized r)"
  have img: "ru_id ` set X = fst ` set (map ?k X)" for X by force
  have ids: "ru_id ` set R' = ru_id ` set R" unfolding img assms(1) ..
  have "window_sum (ru_id r) W = ru_authorized r \<and> (\<forall>v \<in> set V. cv_id v = ru_revision r \<longrightarrow>
      ru_authorized r \<le> tp_campaign_limit (dr_throttle (cv_spec v)) \<and>
      (\<forall>w \<in> set W. tw_run w = ru_id r \<longrightarrow> tw_count w \<le> tp_messages_per_minute (dr_throttle (cv_spec v))))"
    if r: "r \<in> set R'" for r
  proof -
    obtain b where b: "b \<in> set R" and eq: "ru_id r = ru_id b" "ru_revision r = ru_revision b" "ru_authorized r = ru_authorized b"
      using map_eq_ex [OF assms(1) [symmetric] r] by auto
    show ?thesis unfolding eq using ok b unfolding windows_ok_def by blast
  qed
  then show ?thesis using ok unfolding windows_ok_def ids by blast
qed

section \<open>A move that does not send\<close>

lemma map_key_upd_attempt:
  assumes "struct_inv env d" and "a \<in> set (kb_attempts d)" and "att_key (f a) = att_key a"
  shows "map att_key (update_where (\<lambda>x. at_id x = at_id a) f (kb_attempts d)) = map att_key (kb_attempts d)"
  by (rule map_update_where_on) (use assms same_attempt [OF assms(1)] in metis)

lemma move_attempt_inv:
  assumes inv: "campaign_inv env d" and a: "a \<in> set (kb_attempts d)" and key: "att_key (f a) = att_key a"
    and ns: "\<not> sending a" "\<not> sending (f a)" and pend: "at_state (f a) \<noteq> Att_PENDING"
    and over: "attempt_over (at_state a) \<Longrightarrow> attempt_over (at_state (f a))"
    and canc: "attempt_cancellable (at_state (f a)) \<Longrightarrow> attempt_cancellable (at_state a)"
    and g: "\<And>r. run_key (g r) = run_key r \<and> ru_state (g r) = ru_state r \<and> ru_authorized (g r) = ru_authorized r"
    and fol: "\<And>r. follows a (f a) r (g r)"
  shows "campaign_inv env (upd_crun (at_run a) g (upd_attempt (at_id a) f d))"
proof -
  let ?A = "update_where (\<lambda>x. at_id x = at_id a) f (kb_attempts d)"
  let ?R = "update_where (\<lambda>r. ru_id r = at_run a) g (kb_runs d)"
  have st: "struct_inv env d" and ex: "exec_inv d" using inv by (auto simp: campaign_inv_def)
  note dist = struct_inv_D(9) [OF st]
  have keyA: "map att_key ?A = map att_key (kb_attempts d)" by (rule map_key_upd_attempt [where f = f, OF st a key])
  have keyR: "map run_key ?R = map run_key (kb_runs d)" by (rule map_update_where) (use g in simp)
  have "struct_inv env (upd_crun (at_run a) g (upd_attempt (at_id a) f d))"
    using st by (simp add: struct_inv_def upd_crun_def upd_attempt_def keyA keyR)
  moreover have "exec_ok (kb_revisions d) ?R ?A (kb_permits d) (kb_windows d) (kb_org_windows d) (kb_next d)"
    unfolding exec_ok_def
  proof (intro conjI ballI)
    have e: "exec_ok (kb_revisions d) (kb_runs d) (kb_attempts d) (kb_permits d) (kb_windows d) (kb_org_windows d) (kb_next d)"
      using ex by (simp add: exec_inv_def)
    have run: "at_run (f a) = at_run a" "at_id (f a) = at_id a" using key by (auto simp: att_key_def)
    show "permits_ok (kb_permits d) ?A (kb_next d)"
      by (rule permits_follow [OF dist a]) (use e run ns pend in \<open>auto simp: exec_ok_def\<close>)
    fix s assume "s \<in> set ?R"
    then obtain r where r: "r \<in> set (kb_runs d)" "s = (if ru_id r = at_run a then g r else r)"
      by (auto simp: set_update_where)
    have same: "ru_id s = ru_id r" "ru_state s = ru_state r" using r(2) g [of r] by (auto simp: run_key_def)
    have ok: "counts_ok (kb_attempts d) r" "ends_ok (kb_attempts d) r" using e r(1) by (auto simp: exec_ok_def)
    show "counts_ok ?A s" by (rule counts_follow [where f = f, OF dist a run(1) ok(1) same(1)]) (use r(2) fol in auto)
    show "ends_ok ?A s" by (rule ends_follow [where f = f, OF dist a run(1) ok(2) same over canc])
  next
    show "windows_ok (kb_windows d) (kb_org_windows d) ?R (kb_revisions d)"
    proof -
      have "map (\<lambda>r. (ru_id r, ru_revision r, ru_authorized r)) ?R = map (\<lambda>r. (ru_id r, ru_revision r, ru_authorized r)) (kb_runs d)"
        by (rule map_update_where) (use g in \<open>auto simp: run_key_def\<close>)
      then show ?thesis using windows_ok_keys ex by (auto simp: exec_inv_def exec_ok_def)
    qed
  qed
  ultimately show ?thesis by (simp add: campaign_inv_def exec_inv_def upd_crun_def upd_attempt_def)
qed

text \<open>A move without any effect on the counters.\<close>

lemma plain_move_inv:
  assumes inv: "campaign_inv env d" and a: "a \<in> set (kb_attempts d)" and key: "att_key (f a) = att_key a"
    and ns: "\<not> sending a" "\<not> sending (f a)" and pend: "at_state (f a) \<noteq> Att_PENDING"
    and over: "\<not> attempt_over (at_state a)" "\<not> attempt_over (at_state (f a))" "attempt_cancellable (at_state a)"
    and tok: "(at_token (f a) = None) = (at_token a = None)"
  shows "campaign_inv env (upd_attempt (at_id a) f d)"
proof -
  have "campaign_inv env (upd_crun (at_run a) (\<lambda>r. r) (upd_attempt (at_id a) f d))"
    by (rule move_attempt_inv [where f = f, OF inv a key ns pend]) (use over tok ns in \<open>auto simp: follows_def attempt_over_def\<close>)
  moreover have "upd_crun i (\<lambda>r. r) e = e" for i e
    by (simp add: upd_crun_def update_where_def)
  ultimately show ?thesis by simp
qed

section \<open>Claims and workflows\<close>

lemma owned_attempt_D:
  assumes "owned_attempt c st d = Inr a"
  shows "a \<in> set (kb_attempts d)" "at_id a = at_id (cl_attempt c)" "at_state a = st"
    "at_owner a = Some (cl_owner c)" "at_token a = Some (cl_token c)"
  using assms by (auto simp: owned_attempt_def dest: find_attempt_D)

lemma claim_recipient_cases:
  assumes "claim_recipient i owner now locked d = Inr (c, d')"
  obtains "c = None" "d' = d"
  | run a recipient where "find_crun d i = Some run" "ru_state run = Crun_RUNNING" "a \<in> set (kb_attempts d)" "at_run a = i"
    "at_state a = Att_PENDING" "find_recipient d (at_recipient a) = Some recipient" "at_id a \<notin> set locked"
    "d' = note_transition Hist_ATTEMPT (at_id a) (Some (Of_attempt Att_PENDING)) (Of_attempt Att_CLAIMED)
       (Because ''RECIPIENT_CLAIMED'')
       (upd_attempt (at_id a) (\<lambda>r. r\<lparr>at_state := Att_CLAIMED, at_owner := Some owner, at_token := Some (kb_next d),
          at_claimed_at := Some now\<rparr>)
       (upd_crun i (\<lambda>r. r\<lparr>ru_claimed := ru_claimed r + 1\<rparr>) (d\<lparr>kb_next := Suc (kb_next d)\<rparr>)))"
    "c = Some \<lparr>cl_run = run\<lparr>ru_claimed := ru_claimed run + 1\<rparr>, cl_recipient = recipient,
       cl_attempt = a\<lparr>at_state := Att_CLAIMED, at_owner := Some owner, at_token := Some (kb_next d), at_claimed_at := Some now\<rparr>,
       cl_owner = owner, cl_token = kb_next d\<rparr>"
    "\<exists>camp. find_campaign d (ru_campaign run) = Some camp \<and> ca_state camp = Camp_RUNNING"
proof (cases c)
  case None
  then show thesis using assms that(1)
    by (auto simp: claim_recipient_def Let_def split: option.splits if_splits)
next
  case (Some x)
  then obtain run where run: "find_crun d i = Some run" "ru_state run = Crun_RUNNING"
    using assms by (auto simp: claim_recipient_def split: option.splits if_splits)
  obtain camp where camp: "find_campaign d (ru_campaign run) = Some camp" "ca_state camp = Camp_RUNNING"
    using assms Some run by (auto simp: claim_recipient_def split: option.splits if_splits)
  obtain a where a: "find (\<lambda>a. at_run a = i \<and> at_state a = Att_PENDING \<and> recipient_due now d a \<and> at_id a \<notin> set locked)
      (kb_attempts d) = Some a"
    using assms Some run camp by (auto simp: claim_recipient_def split: option.splits)
  obtain recipient where rec: "find_recipient d (at_recipient a) = Some recipient"
    using assms Some run camp a by (auto simp: claim_recipient_def Let_def)
  show thesis
    by (rule that(2) [OF run, of a recipient])
      (use find_Some_D [OF a] assms Some run camp a rec in \<open>auto simp: claim_recipient_def Let_def\<close>)
qed

lemma claim_recipient_inv:
  assumes inv: "campaign_inv env d" and ok: "claim_recipient i owner now locked d = Inr (c, d')"
  shows "campaign_inv env d'"
  using ok
proof (cases rule: claim_recipient_cases)
  case 1
  then show ?thesis using inv by simp
next
  case (2 run a recipient)
  let ?f = "\<lambda>r. r\<lparr>at_state := Att_CLAIMED, at_owner := Some owner, at_token := Some (kb_next d), at_claimed_at := Some now\<rparr>"
  let ?g = "\<lambda>r. r\<lparr>ru_claimed := ru_claimed r + 1\<rparr>"
  have null: "at_token a = None"
    using inv 2(3,5) by (simp add: campaign_inv_def exec_inv_def exec_ok_def permits_ok_def)
  have "campaign_inv env (upd_crun (at_run a) ?g (upd_attempt (at_id a) ?f d))"
    by (rule move_attempt_inv [OF inv 2(3)])
      (use 2(5) null in \<open>auto simp: att_key_def sending_def attempt_over_def attempt_cancellable_def run_key_def follows_def\<close>)
  then show ?thesis
    by (rule same_core_inv) (simp add: 2(4,8) same_core_def note_transition_def upd_crun_def upd_attempt_def)
qed

lemma mark_workflow_started_inv:
  assumes inv: "campaign_inv env d" and ok: "mark_workflow_started c w d = Inr (a', d')"
  shows "campaign_inv env d'"
proof -
  obtain a where a: "owned_attempt c Att_CLAIMED d = Inr a"
    and d': "d' = note_transition Hist_ATTEMPT (at_id a) (Some (Of_attempt Att_CLAIMED)) (Of_attempt Att_WORKFLOW_RUNNING)
       (Because ''RECIPIENT_WORKFLOW_STARTED'')
       (upd_attempt (at_id a) (\<lambda>r. r\<lparr>at_state := Att_WORKFLOW_RUNNING, at_workflow := Some w\<rparr>) d)"
    using ok by (auto simp: mark_workflow_started_def Let_def)
  have "campaign_inv env (upd_attempt (at_id a) (\<lambda>r. r\<lparr>at_state := Att_WORKFLOW_RUNNING, at_workflow := Some w\<rparr>) d)"
    by (rule plain_move_inv [OF inv owned_attempt_D(1) [OF a]])
      (use owned_attempt_D(3) [OF a] in \<open>auto simp: att_key_def sending_def attempt_over_def attempt_cancellable_def\<close>)
  then show ?thesis unfolding d' by (rule same_core_inv) (auto intro!: note_core)
qed

lemma mark_workflow_completed_inv:
  assumes inv: "campaign_inv env d" and ok: "mark_workflow_completed c d = Inr (a', d')"
  shows "campaign_inv env d'"
proof -
  obtain a where a: "owned_attempt c Att_WORKFLOW_RUNNING d = Inr a"
    and d': "d' = note_transition Hist_ATTEMPT (at_id a) (Some (Of_attempt Att_WORKFLOW_RUNNING)) (Of_attempt Att_READY_TO_SEND)
       (Because ''RECIPIENT_WORKFLOW_COMPLETED'') (upd_attempt (at_id a) (\<lambda>r. r\<lparr>at_state := Att_READY_TO_SEND\<rparr>) d)"
    using ok by (auto simp: mark_workflow_completed_def Let_def)
  have "campaign_inv env (upd_attempt (at_id a) (\<lambda>r. r\<lparr>at_state := Att_READY_TO_SEND\<rparr>) d)"
    by (rule plain_move_inv [OF inv owned_attempt_D(1) [OF a]])
      (use owned_attempt_D(3) [OF a] in \<open>auto simp: att_key_def sending_def attempt_over_def attempt_cancellable_def\<close>)
  then show ?thesis unfolding d' by (rule same_core_inv) (auto intro!: note_core)
qed

lemma deny_send_inv:
  assumes inv: "campaign_inv env d" and a: "a \<in> set (kb_attempts d)" "at_state a = Att_READY_TO_SEND" "at_run a = i"
    and ok: "deny_send i a reason next_at consent epoch d = Inr d'"
  shows "campaign_inv env d'"
proof (cases "reason = El_DEFERRED_QUIET_HOURS")
  case True
  have "same_core d d'"
    using ok True unfolding deny_send_def Let_def by (auto simp: rec_key_def att_key_def att_core_def intro!: core)
  with inv show ?thesis by (rule same_core_inv)
next
  case False
  let ?f = "\<lambda>x. x\<lparr>at_state := Att_SUPPRESSED, at_error := Some reason\<rparr>"
  let ?g = "\<lambda>r. r\<lparr>ru_suppressed := ru_suppressed r + 1\<rparr>"
  let ?h = "\<lambda>r. r\<lparr>rp_state := Rec_SUPPRESSED, rp_reason := reason, rp_next_at := next_at, rp_consent_epoch := consent, rp_suppression_epoch := epoch\<rparr>"
  have "campaign_inv env (upd_recipient (at_recipient a) ?h d)"
    by (rule same_core_inv [OF inv]) (auto simp: rec_key_def intro!: core)
  then have "campaign_inv env (upd_crun (at_run a) ?g (upd_attempt (at_id a) ?f (upd_recipient (at_recipient a) ?h d)))"
    by (rule move_attempt_inv)
      (use a in \<open>auto simp: att_key_def sending_def attempt_over_def attempt_cancellable_def run_key_def follows_def\<close>)
  then show ?thesis
    by (rule same_core_inv) (use ok False a in \<open>auto simp: deny_send_def Let_def intro!: note_core\<close>)
qed

end
