(* ===== verification/Campaign_Sends.thy ===== *)
theory Campaign_Sends
  imports Campaign_Moves
begin

text \<open>
  Authorizing and consuming a send keeps the campaign invariant: the permit, the attempt,
  the counters of the run and the throttle windows move together.
\<close>

section \<open>Reserving in the throttle windows\<close>

lemma window_sum_append: "window_sum i (W @ [w]) = window_sum i W + (if tw_run w = i then tw_count w else 0)"
  by (simp add: window_sum_def)

lemma window_sum_update:
  assumes "distinct (map k W)" and "w \<in> set W" and "tw_run (f w) = tw_run w"
  shows "window_sum i (update_where (\<lambda>x. k x = k w) f W) =
    window_sum i W + (if tw_run w = i then tw_count (f w) - tw_count w else 0)"
  using assms(1,2)
proof (induction W)
  case (Cons x W)
  show ?case
  proof (cases "x = w")
    case True
    have "k r \<noteq> k w" if "r \<in> set W" for r
    proof
      assume "k r = k w"
      then have "k x \<in> k ` set W" using True that by (metis imageI)
      then show False using Cons.prems(1) by simp
    qed
    then have "update_where (\<lambda>x. k x = k w) f W = W" by (rule update_where_id)
    with True assms(3) show ?thesis by (simp add: update_where_def window_sum_def)
  next
    case False
    then have w: "w \<in> set W" using Cons.prems(2) by simp
    have "k x \<noteq> k w"
    proof
      assume "k x = k w"
      then have "k x \<in> k ` set W" using w by simp
      then show False using Cons.prems(1) by simp
    qed
    then show ?thesis using Cons w by (simp add: update_where_def window_sum_def)
  qed
qed simp

lemma run_window_key_iff: "run_window_key r ch t w \<longleftrightarrow> win_key w = (r, ch, t)"
  by (auto simp: run_window_key_def win_key_def)

lemma org_window_key_iff: "org_window_key ch t w \<longleftrightarrow> org_key w = (ch, t)"
  by (auto simp: org_window_key_def org_key_def)

text \<open>Making sure a window exists changes no sum and no bound.\<close>

lemma ensure_windows_ok:
  assumes ok: "windows_ok (kb_windows d) (kb_org_windows d) R V" and run: "i \<in> ru_id ` set R"
    and pol: "\<And>v. v \<in> set V \<Longrightarrow> throttle_ok (dr_throttle (cv_spec v))"
  shows "windows_ok (kb_windows (ensure_windows i ch t d)) (kb_org_windows (ensure_windows i ch t d)) R V"
proof -
  let ?w = "\<lparr>tw_run = i, tw_channel = ch, tw_start = t, tw_count = 0\<rparr>"
  let ?o = "\<lparr>ow_channel = ch, ow_start = t, ow_count = 0\<rparr>"
  have pos: "0 \<le> tp_messages_per_minute (dr_throttle (cv_spec v))" if "v \<in> set V" for v
    using pol [OF that] by (simp add: throttle_ok_def)
  have w: "windows_ok (kb_windows d @ [?w]) OW R V"
    if "\<not> list_ex (run_window_key i ch t) (kb_windows d)" and "windows_ok (kb_windows d) OW R V" for OW
  proof -
    have "win_key ?w \<notin> win_key ` set (kb_windows d)"
      using that(1) by (auto simp: list_ex_iff run_window_key_iff win_key_def)
    then show ?thesis using that(2) run pos unfolding windows_ok_def by (auto simp: window_sum_append)
  qed
  have o: "windows_ok W (kb_org_windows d @ [?o]) R V"
    if "\<not> list_ex (org_window_key ch t) (kb_org_windows d)" and "windows_ok W (kb_org_windows d) R V" for W
  proof -
    have "org_key ?o \<notin> org_key ` set (kb_org_windows d)"
      using that(1) by (auto simp: list_ex_iff org_window_key_iff org_key_def)
    then show ?thesis using that(2) unfolding windows_ok_def by auto
  qed
  show ?thesis using ok w o by (simp add: ensure_windows_def)
qed

lemma reserve_windows:
  assumes ok: "windows_ok (kb_windows d) (kb_org_windows d) (kb_runs d) (kb_revisions d)"
    and dist: "distinct (map ru_id (kb_runs d))" "distinct (map cv_id (kb_revisions d))"
    and run: "run \<in> set (kb_runs d)" and v: "v \<in> set (kb_revisions d)" "cv_id v = ru_revision run"
    and pol: "\<And>v. v \<in> set (kb_revisions d) \<Longrightarrow> throttle_ok (dr_throttle (cv_spec v))"
    and res: "reserve_throttle run ch (dr_throttle (cv_spec v)) now d = Inr d'"
    and g: "\<And>r. ru_id (g r) = ru_id r \<and> ru_revision (g r) = ru_revision r \<and> ru_authorized (g r) = ru_authorized r + 1"
  shows "windows_ok (kb_windows d') (kb_org_windows d') (update_where (\<lambda>r. ru_id r = ru_id run) g (kb_runs d)) (kb_revisions d)"
proof -
  let ?i = "ru_id run" and ?t = "minute_of now"
  define e where "e = ensure_windows ?i ch ?t d"
  let ?R = "update_where (\<lambda>r. ru_id r = ?i) g (kb_runs d)"
  have eok: "windows_ok (kb_windows e) (kb_org_windows e) (kb_runs d) (kb_revisions d)"
    unfolding e_def by (rule ensure_windows_ok [OF ok _ pol]) (use run in auto)
  obtain w ow where w: "find (run_window_key ?i ch ?t) (kb_windows e) = Some w"
    and o: "find (org_window_key ch ?t) (kb_org_windows e) = Some ow"
    and lim: "ru_authorized run < tp_campaign_limit (dr_throttle (cv_spec v))"
      "tw_count w < tp_messages_per_minute (dr_throttle (cv_spec v))" "ow_count ow < tp_org_per_minute (dr_throttle (cv_spec v))"
    and d': "kb_windows d' = update_where (run_window_key ?i ch ?t) (\<lambda>r. r\<lparr>tw_count := tw_count r + 1\<rparr>) (kb_windows e)"
      "kb_org_windows d' = update_where (org_window_key ch ?t) (\<lambda>r. r\<lparr>ow_count := ow_count r + 1\<rparr>) (kb_org_windows e)"
    using res unfolding reserve_throttle_def Let_def e_def [symmetric] by auto
  have dw: "distinct (map win_key (kb_windows e))" "distinct (map org_key (kb_org_windows e))"
    using eok by (auto simp: windows_ok_def)
  have win: "w \<in> set (kb_windows e)" "win_key w = (?i, ch, ?t)" using find_Some_D [OF w] by (auto simp: run_window_key_iff)
  have oin: "ow \<in> set (kb_org_windows e)" "org_key ow = (ch, ?t)" using find_Some_D [OF o] by (auto simp: org_window_key_iff)
  have W: "kb_windows d' = update_where (\<lambda>x. win_key x = win_key w) (\<lambda>r. r\<lparr>tw_count := tw_count r + 1\<rparr>) (kb_windows e)"
    unfolding d' run_window_key_iff win(2) ..
  have OW: "kb_org_windows d' = update_where (\<lambda>x. org_key x = org_key ow) (\<lambda>r. r\<lparr>ow_count := ow_count r + 1\<rparr>) (kb_org_windows e)"
    unfolding d' org_window_key_iff oin(2) ..
  have wrun: "tw_run w = ?i" using win(2) by (simp add: win_key_def)
  have inW: "x \<in> set (kb_windows d') \<longleftrightarrow> x = w\<lparr>tw_count := tw_count w + 1\<rparr> \<or> x \<in> set (kb_windows e) \<and> win_key x \<noteq> win_key w" for x
    unfolding W by (rule in_update_one [OF dw(1) win(1)])
  have inO: "x \<in> set (kb_org_windows d') \<longleftrightarrow> x = ow\<lparr>ow_count := ow_count ow + 1\<rparr> \<or> x \<in> set (kb_org_windows e) \<and> org_key x \<noteq> org_key ow" for x
    unfolding OW by (rule in_update_one [OF dw(2) oin(1)])
  have ids: "ru_id ` set ?R = ru_id ` set (kb_runs d)"
  proof -
    have "map ru_id ?R = map ru_id (kb_runs d)" by (rule map_update_where) (use g in simp)
    from arg_cong [OF this, of set] show ?thesis by simp
  qed
  have olim: "tp_org_per_minute (dr_throttle (cv_spec v)) \<le> 1000000" using pol [OF v(1)] by (simp add: throttle_ok_def)
  show ?thesis
    unfolding windows_ok_def ids
  proof (intro conjI ballI impI)
    show "distinct (map win_key (kb_windows d'))"
      unfolding W using dw(1) by (subst map_update_where) (auto simp: win_key_def)
    show "distinct (map org_key (kb_org_windows d'))"
      unfolding OW using dw(2) by (subst map_update_where) (auto simp: org_key_def)
    show "0 \<le> ow_count x" "ow_count x \<le> 1000000" if "x \<in> set (kb_org_windows d')" for x
      using that eok oin(1) lim(3) olim unfolding inO windows_ok_def by force+
    show "0 \<le> tw_count x" "tw_run x \<in> ru_id ` set (kb_runs d)" if "x \<in> set (kb_windows d')" for x
      using that eok win(1) unfolding inW windows_ok_def by force+
  next
    fix s assume "s \<in> set ?R"
    then obtain r where r: "r \<in> set (kb_runs d)" "s = (if ru_id r = ?i then g r else r)" by (auto simp: set_update_where)
    have same: "ru_id s = ru_id r" "ru_revision s = ru_revision r" using r(2) g by auto
    have old: "window_sum (ru_id r) (kb_windows e) = ru_authorized r" using eok r(1) by (simp add: windows_ok_def)
    show "window_sum (ru_id s) (kb_windows d') = ru_authorized s"
      unfolding W using window_sum_update [OF dw(1) win(1), of "\<lambda>r. r\<lparr>tw_count := tw_count r + 1\<rparr>"] old r(2) g [of r] wrun
      by (auto simp: same)
    fix u assume u: "u \<in> set (kb_revisions d)" "cv_id u = ru_revision s"
    have eq: "r = run \<and> u = v" if "ru_id r = ?i"
    proof -
      have "r = run" by (rule distinct_map_inj [OF dist(1) r(1) run that])
      moreover from this have "u = v" using distinct_map_inj [OF dist(2) u(1) v(1)] u(2) v(2) same by simp
      ultimately show ?thesis by simp
    qed
    have bound: "ru_authorized r \<le> tp_campaign_limit (dr_throttle (cv_spec u))"
      "\<And>x. x \<in> set (kb_windows e) \<Longrightarrow> tw_run x = ru_id r \<Longrightarrow> tw_count x \<le> tp_messages_per_minute (dr_throttle (cv_spec u))"
      using eok r(1) u same unfolding windows_ok_def by auto
    show "ru_authorized s \<le> tp_campaign_limit (dr_throttle (cv_spec u))"
      using bound(1) eq lim(1) r(2) g [of r] by (auto split: if_splits)
    fix x assume x: "x \<in> set (kb_windows d')" "tw_run x = ru_id s"
    then consider "x = w\<lparr>tw_count := tw_count w + 1\<rparr>" | "x \<in> set (kb_windows e)" unfolding inW by blast
    then show "tw_count x \<le> tp_messages_per_minute (dr_throttle (cv_spec u))"
    proof cases
      case 1
      then have "u = v" using eq x(2) wrun same by simp
      then show ?thesis using 1 lim(2) by simp
    next
      case 2
      then show ?thesis using bound(2) x(2) same by simp
    qed
  qed
qed

lemma reserve_throttle_sel:
  assumes "reserve_throttle run ch p now d = Inr d'"
  shows "kb_campaigns d' = kb_campaigns d" "kb_revisions d' = kb_revisions d" "kb_snapshots d' = kb_snapshots d"
    "kb_recipients d' = kb_recipients d" "kb_runs d' = kb_runs d" "kb_attempts d' = kb_attempts d"
    "kb_permits d' = kb_permits d" "kb_next d' = kb_next d"
  using assms by (auto simp: reserve_throttle_def Let_def ensure_windows_def)

section \<open>Granting\<close>

text \<open>An attempt that does not send yet has no permit.\<close>

lemma no_permit:
  assumes inv: "campaign_inv env d" and a: "a \<in> set (kb_attempts d)" "\<not> sending a" and p: "p \<in> set (kb_permits d)"
  shows "pm_attempt p \<noteq> at_id a"
proof
  assume eq: "pm_attempt p = at_id a"
  have st: "struct_inv env d" using inv by (simp add: campaign_inv_def)
  obtain b where b: "b \<in> set (kb_attempts d)" "at_id b = pm_attempt p" "permit_matches p b"
    using inv p unfolding campaign_inv_def exec_inv_def exec_ok_def permits_ok_def by blast
  then have "b = a" using same_attempt [OF st] a(1) eq by metis
  with b(3) a(2) show False by (auto simp: permit_matches_def sending_def)
qed

lemma grant_permits:
  assumes ok: "permits_ok M A n" and dist: "distinct (map at_id A)" and a: "a \<in> set A" "\<not> sending a"
    and none: "\<And>p. p \<in> set M \<Longrightarrow> pm_attempt p \<noteq> at_id a"
    and f: "at_id (f a) = at_id a" "at_p09 (f a) = at_p09 a" "at_state (f a) = Att_DISPATCH_AUTHORIZED"
    and p: "pm_id p = n" "pm_attempt p = at_id a" "pm_p09 p = at_p09 a" "pm_state p = Perm_AUTHORIZED" "pm_message p = None"
  shows "permits_ok (M @ [p]) (update_where (\<lambda>x. at_id x = at_id a) f A) (n + 2)"
  unfolding permits_ok_def
proof (intro conjI ballI impI)
  let ?A = "update_where (\<lambda>x. at_id x = at_id a) f A"
  note inA = in_update_one [OF dist a(1)]
  show "distinct (map pm_id (M @ [p]))" using ok p(1) unfolding permits_ok_def by fastforce
  show "distinct (map pm_attempt (M @ [p]))" using ok none p(2) unfolding permits_ok_def by fastforce
  show "pm_id q < n + 2" if "q \<in> set (M @ [p])" for q using that ok p(1) unfolding permits_ok_def by fastforce
  show "\<exists>b \<in> set ?A. at_id b = pm_attempt q \<and> pm_p09 q = at_p09 b \<and> permit_matches q b" if "q \<in> set (M @ [p])" for q
  proof (cases "q = p")
    case True
    then show ?thesis using f p by (intro bexI [of _ "f a"]) (auto simp: inA permit_matches_def)
  next
    case False
    then have q: "q \<in> set M" using that by simp
    then obtain b where b: "b \<in> set A" "at_id b = pm_attempt q" "pm_p09 q = at_p09 b" "permit_matches q b"
      using ok unfolding permits_ok_def by blast
    then show ?thesis using none [OF q] by (intro bexI [of _ b]) (auto simp: inA)
  qed
  show "at_id b \<in> pm_attempt ` set (M @ [p])" if "b \<in> set ?A" "sending b" for b
    using that ok f(1) p(2) unfolding inA permits_ok_def by auto
  show "at_token b = None" if "b \<in> set ?A" "at_state b = Att_PENDING" for b
    using that ok f(3) unfolding inA permits_ok_def by auto
qed

lemma grant_inv:
  assumes inv: "campaign_inv env d" and run: "find_crun d (ru_id run) = Some run"
    and v: "find_revision d (ru_revision run) = Some v"
    and a: "a \<in> set (kb_attempts d)" "at_state a = Att_READY_TO_SEND" "at_run a = ru_id run"
    and res: "reserve_throttle run ch (dr_throttle (cv_spec v)) now d = Inr d2"
    and grant: "grant_send (ru_id run) a at_now consent epoch d2 = Inr (p, d3)"
  shows "campaign_inv env d3"
proof -
  have st: "struct_inv env d" and ex: "exec_inv d" using inv by (auto simp: campaign_inv_def)
  note dist = struct_inv_D(9) [OF st] and sel = reserve_throttle_sel [OF res]
  have runs: "run \<in> set (kb_runs d)" and rev: "v \<in> set (kb_revisions d)" "cv_id v = ru_revision run"
    using find_crun_D [OF run] find_revision_D [OF v] by auto
  let ?f = "\<lambda>a. a\<lparr>at_state := Att_DISPATCH_AUTHORIZED, at_error := None\<rparr>"
  let ?g = "\<lambda>r. r\<lparr>ru_authorized := ru_authorized r + 1\<rparr>"
  let ?A = "update_where (\<lambda>x. at_id x = at_id a) ?f (kb_attempts d)"
  let ?R = "update_where (\<lambda>r. ru_id r = ru_id run) ?g (kb_runs d)"
  have ns: "\<not> sending a" using a(2) by (simp add: sending_def)
  have p: "pm_id p = kb_next d" "pm_attempt p = at_id a" "pm_p09 p = at_p09 a" "pm_state p = Perm_AUTHORIZED" "pm_message p = None"
    and d3: "kb_campaigns d3 = kb_campaigns d" "kb_revisions d3 = kb_revisions d" "kb_snapshots d3 = kb_snapshots d"
      "kb_recipients d3 = kb_recipients d" "kb_runs d3 = ?R" "kb_attempts d3 = ?A" "kb_permits d3 = kb_permits d @ [p]"
      "kb_windows d3 = kb_windows d2" "kb_org_windows d3 = kb_org_windows d2" "kb_next d3 = kb_next d + 2"
    using grant sel by (auto simp: grant_send_def Let_def upd_crun_def upd_attempt_def note_transition_def)
  have keyA: "map att_key ?A = map att_key (kb_attempts d)" by (rule map_update_where) (simp add: att_key_def)
  have keyR: "map run_key ?R = map run_key (kb_runs d)" by (rule map_update_where) (simp add: run_key_def)
  have "struct_inv env d3"
    using struct_ok_next [OF st [unfolded struct_inv_def], of "kb_next d + 2"] by (simp add: struct_inv_def d3 keyA keyR)
  moreover have "exec_inv d3"
    unfolding exec_inv_def d3 exec_ok_def
  proof (intro conjI ballI)
    have e: "exec_ok (kb_revisions d) (kb_runs d) (kb_attempts d) (kb_permits d) (kb_windows d) (kb_org_windows d) (kb_next d)"
      using ex by (simp add: exec_inv_def)
    show "permits_ok (kb_permits d @ [p]) ?A (kb_next d + 2)"
      by (rule grant_permits [OF _ dist a(1) ns no_permit [OF inv a(1) ns]]) (use e p in \<open>auto simp: exec_ok_def\<close>)
    show "windows_ok (kb_windows d2) (kb_org_windows d2) ?R (kb_revisions d)"
      by (rule reserve_windows [OF _ struct_inv_D(7,3) [OF st] runs rev struct_inv_revision(1) [OF st] res])
        (use e in \<open>auto simp: exec_ok_def\<close>)
    fix s assume "s \<in> set ?R"
    then obtain r where r: "r \<in> set (kb_runs d)" "s = (if ru_id r = ru_id run then ?g r else r)" by (auto simp: set_update_where)
    have same: "ru_id s = ru_id r" "ru_state s = ru_state r" using r(2) by auto
    have ok: "counts_ok (kb_attempts d) r" "ends_ok (kb_attempts d) r" using e r(1) by (auto simp: exec_ok_def)
    show "counts_ok ?A s"
      by (rule counts_follow [OF dist a(1) _ ok(1) same(1)]) (use r(2) a in \<open>auto simp: follows_def sending_def\<close>)
    show "ends_ok ?A s"
      by (rule ends_follow [OF dist a(1) _ ok(2) same]) (use a in \<open>auto simp: attempt_over_def attempt_cancellable_def\<close>)
  qed
  ultimately show ?thesis by (simp add: campaign_inv_def)
qed

text \<open>The claim names an attempt of the run it names.\<close>

definition claim_ok :: "campaign_db \<Rightarrow> recipient_claim \<Rightarrow> bool" where
  "claim_ok d c \<longleftrightarrow> (\<forall>a \<in> set (kb_attempts d). at_id a = at_id (cl_attempt c) \<longrightarrow> at_run a = ru_id (cl_run c))"

lemma authorize_permit_cases:
  assumes ok: "authorize_permit env c clock d = Inr (out, d')"
  obtains run campaign a recipient v reason next_at consent epoch dest d1 where
    "find_crun d (ru_id (cl_run c)) = Some run" "ru_state run = Crun_RUNNING"
    "find_campaign d (ru_campaign run) = Some campaign" "ca_state campaign = Camp_RUNNING"
    "owned_attempt c Att_READY_TO_SEND d = Inr a" "find_recipient d (at_recipient a) = Some recipient"
    "find_revision d (ru_revision run) = Some v"
    "eligibility env (pk_eligibility clock) (ca_id campaign) (rp_customer recipient) (rp_identity recipient)
       (rp_conversation recipient) (rp_channel recipient) (dr_quiet (cv_spec v)) d = ((reason, next_at, consent, epoch, dest), d1)"
    "(reason \<noteq> El_ELIGIBLE \<and> out = Inr reason \<and> deny_send (ru_id run) a reason next_at consent epoch d1 = Inr d') \<or>
     (reason = El_ELIGIBLE \<and> (\<exists>d2. reserve_throttle run (rp_channel recipient) (dr_throttle (cv_spec v)) (pk_throttle clock) d1 = Inr d2 \<and>
        (case find (\<lambda>p. pm_attempt p = at_id a) (kb_permits d2) of
           Some p \<Rightarrow> out = Inl p \<and> d' = d2
         | None \<Rightarrow> \<exists>p. grant_send (ru_id run) a (pk_permit clock) consent epoch d2 = Inr (p, d') \<and> out = Inl p)))"
proof -
  obtain run campaign a recipient v where h:
    "find_crun d (ru_id (cl_run c)) = Some run" "ru_state run = Crun_RUNNING"
    "find_campaign d (ru_campaign run) = Some campaign" "ca_state campaign = Camp_RUNNING"
    "owned_attempt c Att_READY_TO_SEND d = Inr a" "find_recipient d (at_recipient a) = Some recipient"
    "find_revision d (ru_revision run) = Some v"
    using ok unfolding authorize_permit_def bindE_Inr checkE_Inr of_option_Inr by blast
  obtain reason next_at consent epoch dest d1 where el:
    "eligibility env (pk_eligibility clock) (ca_id campaign) (rp_customer recipient) (rp_identity recipient)
       (rp_conversation recipient) (rp_channel recipient) (dr_quiet (cv_spec v)) d = ((reason, next_at, consent, epoch, dest), d1)"
    by (metis prod_cases5 surj_pair)
  show thesis
    by (rule that [OF h el])
      (use ok h el in \<open>auto simp: authorize_permit_def checkE_def of_option_def Let_def split: option.splits if_splits\<close>)
qed

lemma authorize_permit_inv:
  assumes inv: "campaign_inv env d" and c: "claim_ok d c" and ok: "authorize_permit env c clock d = Inr (out, d')"
  shows "campaign_inv env d'"
  using ok
proof (cases rule: authorize_permit_cases)
  case (1 run campaign a recipient v reason next_at consent epoch dest d1)
  note a = owned_attempt_D [OF 1(5)]
  have d1: "d1 = snd (policy_epoch (rp_channel recipient) d)" using eligibility_db 1(8) by (metis snd_conv)
  have i1: "campaign_inv env d1" unfolding d1 by (rule same_core_inv [OF inv policy_epoch_core])
  have arun: "at_run a = ru_id run"
    using c a(1,2) find_crun_D [OF 1(1)] unfolding claim_ok_def by auto
  have a1: "a \<in> set (kb_attempts d1)" using a(1) d1 by simp
  from 1(9) show ?thesis
  proof (elim disjE conjE exE)
    assume "deny_send (ru_id run) a reason next_at consent epoch d1 = Inr d'"
    then show ?thesis by (rule deny_send_inv [OF i1 a1 a(3) arun])
  next
    fix d2
    assume res: "reserve_throttle run (rp_channel recipient) (dr_throttle (cv_spec v)) (pk_throttle clock) d1 = Inr d2"
      and cs: "case find (\<lambda>p. pm_attempt p = at_id a) (kb_permits d2) of Some p \<Rightarrow> out = Inl p \<and> d' = d2
         | None \<Rightarrow> \<exists>p. grant_send (ru_id run) a (pk_permit clock) consent epoch d2 = Inr (p, d') \<and> out = Inl p"
    have "\<not> sending a" using a(3) by (simp add: sending_def)
    from no_permit [OF i1 a1 this] have "find (\<lambda>p. pm_attempt p = at_id a) (kb_permits d2) = None"
      unfolding reserve_throttle_sel(7) [OF res] by (auto simp: find_None_iff)
    with cs obtain p where grant: "grant_send (ru_id run) a (pk_permit clock) consent epoch d2 = Inr (p, d')" by auto
    show ?thesis
      by (rule grant_inv [OF i1 _ _ a1 a(3) arun res grant])
        (use 1(1,7) find_crun_D [OF 1(1)] d1 in \<open>auto simp: find_crun_def find_revision_def\<close>)
  qed
qed

section \<open>Consuming\<close>

lemma consume_permits:
  assumes ok: "permits_ok M A n" and dist: "distinct (map at_id A)" and p: "p \<in> set M" and a: "a \<in> set A" "at_id a = pm_attempt p"
    and f: "at_id (f a) = at_id a" "at_p09 (f a) = at_p09 a" "at_state (f a) = Att_DISPATCHED" "at_message (f a) = Some m"
    and h: "\<And>q. pm_id (h q) = pm_id q \<and> pm_attempt (h q) = pm_attempt q \<and> pm_p09 (h q) = pm_p09 q \<and>
      pm_state (h q) = Perm_CONSUMED \<and> pm_message (h q) = Some m"
  shows "permits_ok (update_where (\<lambda>q. pm_id q = pm_id p) h M) (update_where (\<lambda>x. at_id x = at_id a) f A) n"
  unfolding permits_ok_def
proof (intro conjI ballI impI)
  let ?A = "update_where (\<lambda>x. at_id x = at_id a) f A" and ?M = "update_where (\<lambda>q. pm_id q = pm_id p) h M"
  have dm: "distinct (map pm_id M)" "distinct (map pm_attempt M)" using ok by (auto simp: permits_ok_def)
  note inA = in_update_one [OF dist a(1)] and inM = in_update_one [OF dm(1) p]
  have att: "map pm_attempt ?M = map pm_attempt M" by (rule map_update_where) (use h in simp)
  show "distinct (map pm_id ?M)" using dm(1) h by (subst map_update_where) auto
  show "distinct (map pm_attempt ?M)" unfolding att by (rule dm(2))
  show "pm_id q < n" if "q \<in> set ?M" for q using that ok p h unfolding inM permits_ok_def by auto
  show "\<exists>b \<in> set ?A. at_id b = pm_attempt q \<and> pm_p09 q = at_p09 b \<and> permit_matches q b" if "q \<in> set ?M" for q
  proof (cases "q = h p")
    case True
    obtain b where b: "b \<in> set A" "at_id b = pm_attempt p" "pm_p09 p = at_p09 b" using ok p unfolding permits_ok_def by blast
    then have "b = a" using distinct_map_inj [OF dist b(1) a(1)] a(2) by simp
    moreover have "f a \<in> set ?A" unfolding inA by simp
    ultimately show ?thesis using True f h [of p] a(2) b(3) by (intro bexI [of _ "f a"]) (auto simp: permit_matches_def)
  next
    case False
    then have q: "q \<in> set M" "pm_id q \<noteq> pm_id p" using that unfolding inM by auto
    then have ne: "pm_attempt q \<noteq> pm_attempt p" using distinct_map_inj [OF dm(2) q(1) p] by auto
    obtain b where b: "b \<in> set A" "at_id b = pm_attempt q" "pm_p09 q = at_p09 b" "permit_matches q b"
      using ok q(1) unfolding permits_ok_def by blast
    moreover have "b \<in> set ?A" unfolding inA using ne b a(2) by simp
    ultimately show ?thesis by blast
  qed
  have img: "pm_attempt ` set ?M = pm_attempt ` set M" using arg_cong [OF att, of set] by simp
  show "at_id b \<in> pm_attempt ` set ?M" if "b \<in> set ?A" "sending b" for b
    unfolding img using that ok f(1) a(2) p unfolding inA permits_ok_def by auto
  show "at_token b = None" if "b \<in> set ?A" "at_state b = Att_PENDING" for b
    using that ok f(3) unfolding inA permits_ok_def by auto
qed

lemma consume_step_inv:
  assumes inv: "campaign_inv env d" and p: "p \<in> set (kb_permits d)" and a: "a \<in> set (kb_attempts d)" "at_id a = pm_attempt p"
    "at_state a = Att_DISPATCH_AUTHORIZED"
  shows "campaign_inv env (upd_crun (at_run a) (\<lambda>r. r\<lparr>ru_dispatched := ru_dispatched r + 1\<rparr>)
    (upd_attempt (at_id a) (\<lambda>x. x\<lparr>at_state := Att_DISPATCHED, at_message := Some m\<rparr>)
    (upd_permit (pm_id p) (\<lambda>q. q\<lparr>pm_state := Perm_CONSUMED, pm_consumed_at := Some t, pm_message := Some m\<rparr>) d)))"
    (is "campaign_inv env (upd_crun _ ?g (upd_attempt _ ?f (upd_permit _ ?h d)))")
proof -
  have st: "struct_inv env d" and ex: "exec_inv d" using inv by (auto simp: campaign_inv_def)
  note dist = struct_inv_D(9) [OF st]
  let ?A = "update_where (\<lambda>x. at_id x = at_id a) ?f (kb_attempts d)"
  let ?R = "update_where (\<lambda>r. ru_id r = at_run a) ?g (kb_runs d)"
  let ?M = "update_where (\<lambda>q. pm_id q = pm_id p) ?h (kb_permits d)"
  have keyA: "map att_key ?A = map att_key (kb_attempts d)" by (rule map_update_where) (simp add: att_key_def)
  have keyR: "map run_key ?R = map run_key (kb_runs d)" by (rule map_update_where) (simp add: run_key_def)
  have e: "exec_ok (kb_revisions d) (kb_runs d) (kb_attempts d) (kb_permits d) (kb_windows d) (kb_org_windows d) (kb_next d)"
    using ex by (simp add: exec_inv_def)
  have "exec_ok (kb_revisions d) ?R ?A ?M (kb_windows d) (kb_org_windows d) (kb_next d)"
    unfolding exec_ok_def
  proof (intro conjI ballI)
    show "permits_ok ?M ?A (kb_next d)"
      by (rule consume_permits [OF _ dist p a(1,2), where m = m]) (use e in \<open>auto simp: exec_ok_def\<close>)
    show "windows_ok (kb_windows d) (kb_org_windows d) ?R (kb_revisions d)"
      by (rule windows_ok_keys [of _ "kb_runs d"]) (use e in \<open>auto simp: exec_ok_def intro: map_update_where\<close>)
    fix s assume "s \<in> set ?R"
    then obtain r where r: "r \<in> set (kb_runs d)" "s = (if ru_id r = at_run a then ?g r else r)" by (auto simp: set_update_where)
    have same: "ru_id s = ru_id r" "ru_state s = ru_state r" using r(2) by auto
    have ok: "counts_ok (kb_attempts d) r" "ends_ok (kb_attempts d) r" using e r(1) by (auto simp: exec_ok_def)
    show "counts_ok ?A s"
      by (rule counts_follow [OF dist a(1) _ ok(1) same(1)]) (use r(2) a in \<open>auto simp: follows_def sending_def\<close>)
    show "ends_ok ?A s"
      by (rule ends_follow [OF dist a(1) _ ok(2) same]) (use a in \<open>auto simp: attempt_over_def attempt_cancellable_def\<close>)
  qed
  then show ?thesis
    using st by (simp add: campaign_inv_def struct_inv_def exec_inv_def upd_crun_def upd_attempt_def upd_permit_def keyA keyR)
qed

text \<open>A run may be marked as ended once its attempts are.\<close>

lemma end_runs_inv:
  assumes inv: "campaign_inv env d"
    and g: "\<And>r. r \<in> set (kb_runs d) \<Longrightarrow> sel r \<Longrightarrow> run_key (g r) = run_key r \<and> counts_ok (kb_attempts d) (g r) \<and>
      ends_ok (kb_attempts d) (g r) \<and> ru_authorized (g r) = ru_authorized r"
  shows "campaign_inv env (d\<lparr>kb_runs := update_where sel g (kb_runs d)\<rparr>)"
proof -
  let ?R = "update_where sel g (kb_runs d)"
  have keyR: "map run_key ?R = map run_key (kb_runs d)" by (rule map_update_where_on) (use g in simp)
  have e: "exec_ok (kb_revisions d) (kb_runs d) (kb_attempts d) (kb_permits d) (kb_windows d) (kb_org_windows d) (kb_next d)"
    using inv by (simp add: campaign_inv_def exec_inv_def)
  have "windows_ok (kb_windows d) (kb_org_windows d) ?R (kb_revisions d)"
  proof (rule windows_ok_keys [of _ "kb_runs d"])
    show "map (\<lambda>r. (ru_id r, ru_revision r, ru_authorized r)) ?R = map (\<lambda>r. (ru_id r, ru_revision r, ru_authorized r)) (kb_runs d)"
      by (rule map_update_where_on) (use g in \<open>auto simp: run_key_def\<close>)
  qed (use e in \<open>simp add: exec_ok_def\<close>)
  moreover have "counts_ok (kb_attempts d) s \<and> ends_ok (kb_attempts d) s" if "s \<in> set ?R" for s
    using that g e unfolding exec_ok_def set_update_where by auto
  ultimately have "exec_ok (kb_revisions d) ?R (kb_attempts d) (kb_permits d) (kb_windows d) (kb_org_windows d) (kb_next d)"
    using e by (simp add: exec_ok_def)
  then show ?thesis using inv by (simp add: campaign_inv_def struct_inv_def exec_inv_def keyR)
qed

lemma counts_ok_state: "counts_ok A (r\<lparr>ru_state := s\<rparr>) = counts_ok A r"
  by (simp add: counts_ok_def)

lemma run_remaining_0: "run_remaining i d = 0 \<longleftrightarrow> (\<forall>a \<in> set (kb_attempts d). at_run a = i \<longrightarrow> attempt_over (at_state a))"
  by (auto simp: run_remaining_def filter_empty_conv)

lemma complete_run_inv:
  assumes inv: "campaign_inv env d"
  shows "campaign_inv env (complete_run i d)"
proof (cases "\<exists>run. find_crun d i = Some run \<and> ru_state run = Crun_RUNNING \<and> run_remaining i d = 0")
  case False
  then show ?thesis using inv by (auto simp: complete_run_def split: option.splits)
next
  case True
  then obtain run where run: "find_crun d i = Some run" "ru_state run = Crun_RUNNING" "run_remaining i d = 0" by blast
  have e: "exec_ok (kb_revisions d) (kb_runs d) (kb_attempts d) (kb_permits d) (kb_windows d) (kb_org_windows d) (kb_next d)"
    using inv by (simp add: campaign_inv_def exec_inv_def)
  have i1: "campaign_inv env (upd_crun i (\<lambda>r. r\<lparr>ru_state := Crun_COMPLETED\<rparr>) d)"
    unfolding upd_crun_def
    by (rule end_runs_inv [OF inv])
      (use e run(3) in \<open>auto simp: run_key_def counts_ok_state exec_ok_def ends_ok_def run_remaining_0\<close>)
  then show ?thesis
    by (rule same_core_inv)
      (use run in \<open>auto simp: complete_run_def Let_def camp_key_def intro!: note_core upd_campaign_core split: option.splits\<close>)
qed

lemma consume_permit_cases:
  assumes ok: "consume_permit i token m now d = Inr (q, d')"
  obtains "d' = d" "q \<in> set (kb_permits d)" "pm_state q = Perm_CONSUMED" "pm_message q = Some m"
  | p a where "find_permit d i = Some p" "pm_state p = Perm_AUTHORIZED" "pm_token p = token" "find_attempt d (pm_attempt p) = Some a"
    "at_state a = Att_DISPATCH_AUTHORIZED"
    "d' = complete_run (at_run a)
       (note_transition Hist_ATTEMPT (at_id a) (Some (Of_attempt Att_DISPATCH_AUTHORIZED)) (Of_attempt Att_DISPATCHED)
          (Because ''RECIPIENT_DISPATCHED'')
       (note_transition Hist_PERMIT i (Some (Of_permit Perm_AUTHORIZED)) (Of_permit Perm_CONSUMED) (Because ''SEND_CONSUMED'')
       (upd_crun (at_run a) (\<lambda>r. r\<lparr>ru_dispatched := ru_dispatched r + 1\<rparr>)
       (upd_attempt (at_id a) (\<lambda>x. x\<lparr>at_state := Att_DISPATCHED, at_message := Some m\<rparr>)
       (upd_permit i (\<lambda>q. q\<lparr>pm_state := Perm_CONSUMED, pm_consumed_at := Some now, pm_message := Some m\<rparr>) d)))))"
proof -
  obtain p where p: "find_permit d i = Some p" using ok by (auto simp: consume_permit_def)
  show thesis
  proof (cases "pm_state p = Perm_CONSUMED \<and> pm_message p = Some m")
    case True
    then show thesis using that(1) ok p find_permit_D [OF p] by (auto simp: consume_permit_def)
  next
    case False
    then obtain a where a: "pm_state p = Perm_AUTHORIZED" "pm_token p = token" "find_attempt d (pm_attempt p) = Some a"
      "at_state a = Att_DISPATCH_AUTHORIZED"
      using ok p by (auto simp: consume_permit_def Let_def split: if_splits)
    show thesis by (rule that(2) [OF p a]) (use ok p a in \<open>auto simp: consume_permit_def Let_def\<close>)
  qed
qed

lemma consume_permit_inv:
  assumes inv: "campaign_inv env d" and ok: "consume_permit i token m now d = Inr (q, d')"
  shows "campaign_inv env d'"
  using ok
proof (cases rule: consume_permit_cases)
  case 1
  then show ?thesis using inv by simp
next
  case (2 p a)
  have "campaign_inv env (upd_crun (at_run a) (\<lambda>r. r\<lparr>ru_dispatched := ru_dispatched r + 1\<rparr>)
    (upd_attempt (at_id a) (\<lambda>x. x\<lparr>at_state := Att_DISPATCHED, at_message := Some m\<rparr>)
    (upd_permit (pm_id p) (\<lambda>q. q\<lparr>pm_state := Perm_CONSUMED, pm_consumed_at := Some now, pm_message := Some m\<rparr>) d)))"
    by (rule consume_step_inv [OF inv]) (use find_permit_D [OF 2(1)] find_attempt_D [OF 2(4)] 2(5) in auto)
  moreover have "pm_id p = i" using find_permit_D [OF 2(1)] by simp
  ultimately show ?thesis
    unfolding 2(6) by (intro complete_run_inv, elim same_core_inv) (simp add: note_core)
qed

end
