(* ===== verification/Campaign_Cancel.thy ===== *)
theory Campaign_Cancel
  imports Campaign_Sends
begin

text \<open>
  Cancellation in batches: every batch keeps the campaign invariant and cancels as many
  attempts as its limit allows, so that repeating it ends with the campaign cancelled.
\<close>

section \<open>What a batch does\<close>

definition cancelled :: "attempt_row \<Rightarrow> attempt_row" where
  "cancelled a = a\<lparr>at_state := Att_CANCELLED, at_error := Some El_CANCELLED\<rparr>"

text \<open>The run counters after the attempts of a batch.\<close>

definition bump :: "attempt_row list \<Rightarrow> campaign_db \<Rightarrow> campaign_db" where
  "bump as d = d\<lparr>kb_runs := map (\<lambda>r. r\<lparr>ru_cancel_count := ru_cancel_count r +
     int (length (filter (\<lambda>a. at_run a = ru_id r) as))\<rparr>) (kb_runs d)\<rparr>"

lemma bump_Nil [simp]: "bump [] d = d"
  by (simp add: bump_def)

lemma bump_sel [simp]: "kb_attempts (bump as d) = kb_attempts d" "kb_campaigns (bump as d) = kb_campaigns d"
  by (simp_all add: bump_def)

definition cancel_write :: "attempt_row \<Rightarrow> recipient_row \<Rightarrow> campaign_db \<Rightarrow> campaign_db" where
  "cancel_write a recipient d =
     note_transition Hist_ATTEMPT (at_id a) (Some (Of_attempt (at_state a))) (Of_attempt Att_CANCELLED) (Because ''CAMPAIGN_CANCELLED'')
       (let d1 = upd_attempt (at_id a) cancelled d
        in if rp_state recipient = Rec_ELIGIBLE \<or> rp_state recipient = Rec_DEFERRED
           then upd_recipient (at_recipient a) (\<lambda>r. r\<lparr>rp_state := Rec_CANCELLED, rp_reason := El_CANCELLED\<rparr>) d1 else d1)"

lemma cancel_attempts_Cons:
  "cancel_attempts (a # as) d = Inr d' \<longleftrightarrow>
     Att_CANCELLED \<in> set (attempt_moves (at_state a)) \<and>
     (\<exists>recipient. find_recipient d (at_recipient a) = Some recipient \<and> cancel_attempts as (cancel_write a recipient d) = Inr d')"
  by (auto simp: resolve_attempt_transition_def cancel_write_def cancelled_def [abs_def] Let_def)

lemma cancel_write_sel [simp]:
  "kb_attempts (cancel_write a r d) = update_where (\<lambda>x. at_id x = at_id a) cancelled (kb_attempts d)"
  "kb_runs (cancel_write a r d) = kb_runs d" "kb_campaigns (cancel_write a r d) = kb_campaigns d"
  "map rp_id (kb_recipients (cancel_write a r d)) = map rp_id (kb_recipients d)"
  by (auto simp: cancel_write_def Let_def upd_attempt_def upd_recipient_def intro: map_update_where)

lemma cancelled_sel [simp]: "at_id (cancelled a) = at_id a" "at_run (cancelled a) = at_run a" "at_state (cancelled a) = Att_CANCELLED"
  "at_recipient (cancelled a) = at_recipient a"
  by (simp_all add: cancelled_def)

lemma cancel_write_inv:
  assumes inv: "campaign_inv env (bump B d)" and a: "a \<in> set (kb_attempts d)" "attempt_cancellable (at_state a)"
  shows "campaign_inv env (bump (B @ [a]) (cancel_write a r d))"
proof -
  let ?g = "\<lambda>r. r\<lparr>ru_cancel_count := ru_cancel_count r + 1\<rparr>"
  have "campaign_inv env (upd_crun (at_run a) ?g (upd_attempt (at_id a) cancelled (bump B d)))"
    by (rule move_attempt_inv [OF inv])
      (use a in \<open>auto simp: att_key_def sending_def attempt_over_def attempt_cancellable_def run_key_def follows_def cancelled_def\<close>)
  then show ?thesis
  proof (rule same_core_inv)
    have "update_where (\<lambda>r. ru_id r = at_run a) ?g (kb_runs (bump B d)) = kb_runs (bump (B @ [a]) d)"
      by (auto simp: bump_def update_where_def)
    then show "same_core (upd_crun (at_run a) ?g (upd_attempt (at_id a) cancelled (bump B d))) (bump (B @ [a]) (cancel_write a r d))"
      by (auto simp: same_core_def bump_def upd_crun_def upd_attempt_def upd_recipient_def cancel_write_def Let_def
          note_transition_def rec_key_def intro: map_update_where)
  qed
qed

lemma cancel_attempts_inv:
  assumes "campaign_inv env (bump B d)" and "distinct (map at_id as)"
    and "\<And>a. a \<in> set as \<Longrightarrow> a \<in> set (kb_attempts d) \<and> attempt_cancellable (at_state a)"
    and "cancel_attempts as d = Inr d'"
  shows "campaign_inv env (bump (B @ as) d')"
  using assms
proof (induction as arbitrary: B d)
  case (Cons a as)
  obtain r where rest: "cancel_attempts as (cancel_write a r d) = Inr d'"
    using Cons.prems(4) unfolding cancel_attempts_Cons by blast
  have "campaign_inv env (bump ((B @ [a]) @ as) d')"
  proof (rule Cons.IH [OF cancel_write_inv [OF Cons.prems(1)] _ _ rest])
    show "a \<in> set (kb_attempts d)" "attempt_cancellable (at_state a)" using Cons.prems(3) by auto
    show "distinct (map at_id as)" using Cons.prems(2) by simp
    fix b assume b: "b \<in> set as"
    then have "at_id b \<noteq> at_id a" using Cons.prems(2) by (metis distinct.simps(2) imageI list.simps(9) set_map)
    moreover have "b \<in> set (kb_attempts d)" "attempt_cancellable (at_state b)" using Cons.prems(3) b by auto
    ultimately show "b \<in> set (kb_attempts (cancel_write a r d)) \<and> attempt_cancellable (at_state b)"
      by (auto simp: set_update_where image_iff intro!: bexI [of _ b])
  qed
  then show ?case by simp
qed simp

text \<open>The attempts of the batch are cancelled, all others and all runs are as before.\<close>

lemma cancel_attempts_effect:
  assumes "cancel_attempts as d = Inr d'"
  shows "kb_attempts d' = update_where (\<lambda>x. at_id x \<in> at_id ` set as) cancelled (kb_attempts d) \<and>
    kb_runs d' = kb_runs d \<and> kb_campaigns d' = kb_campaigns d"
  using assms
proof (induction as arbitrary: d)
  case (Cons a as)
  obtain r where rest: "cancel_attempts as (cancel_write a r d) = Inr d'" using Cons.prems unfolding cancel_attempts_Cons by blast
  have idem: "cancelled (cancelled x) = cancelled x" for x by (simp add: cancelled_def)
  show ?case using Cons.IH [OF rest] by (auto simp: update_where_def idem)
qed (simp add: update_where_def)

lemma cancel_attempts_total:
  assumes "\<And>a. a \<in> set as \<Longrightarrow> attempt_cancellable (at_state a) \<and> at_recipient a \<in> rp_id ` set (kb_recipients d)"
  shows "\<exists>d'. cancel_attempts as d = Inr d'"
  using assms
proof (induction as arbitrary: d)
  case (Cons a as)
  then obtain x where "x \<in> set (kb_recipients d)" "rp_id x = at_recipient a" by force
  then obtain r where r: "find_recipient d (at_recipient a) = Some r"
    unfolding find_recipient_def by (cases "find (\<lambda>r. rp_id r = at_recipient a) (kb_recipients d)") (auto dest: find_None_D)
  have ids: "rp_id ` set (kb_recipients (cancel_write a r d)) = rp_id ` set (kb_recipients d)"
    by (metis set_map cancel_write_sel(4))
  have "\<exists>d'. cancel_attempts as (cancel_write a r d) = Inr d'"
    by (rule Cons.IH) (use Cons.prems ids in auto)
  then show ?case using Cons.prems [of a] r unfolding cancel_attempts_Cons by (auto simp: attempt_cancellable_def)
qed simp

section \<open>A batch keeps the invariant\<close>

lemma to_cancel_subset: "a \<in> set (to_cancel i d) \<Longrightarrow> a \<in> set (kb_attempts d) \<and> attempt_cancellable (at_state a)"
  by (auto simp: to_cancel_def)

lemma distinct_batch:
  assumes "struct_inv env d"
  shows "distinct (map at_id (take n (filter p (to_cancel i d))))"
  using struct_inv_D(9) [OF assms] unfolding to_cancel_def
  by (simp add: take_map [symmetric] distinct_map_filter)

lemma note_runs_sel [simp]:
  "kb_campaigns (note_runs t r rows d) = kb_campaigns d" "kb_runs (note_runs t r rows d) = kb_runs d"
  "kb_attempts (note_runs t r rows d) = kb_attempts d" "kb_recipients (note_runs t r rows d) = kb_recipients d"
  unfolding note_runs_def by (induction rows arbitrary: d) simp_all

lemma finish_cancellation_inv:
  assumes inv: "campaign_inv env d" and none: "to_cancel i d = []"
  shows "campaign_inv env (finish_cancellation i d)"
proof -
  have e: "exec_ok (kb_revisions d) (kb_runs d) (kb_attempts d) (kb_permits d) (kb_windows d) (kb_org_windows d) (kb_next d)"
    using inv by (simp add: campaign_inv_def exec_inv_def)
  let ?sel = "\<lambda>r. ru_campaign r = i \<and> ru_state r = Crun_CANCELLING"
  let ?g = "\<lambda>r. r\<lparr>ru_state := Crun_CANCELLED, ru_cancel_complete := True\<rparr>"
  have "campaign_inv env (d\<lparr>kb_runs := update_where ?sel ?g (kb_runs d)\<rparr>)"
  proof (rule end_runs_inv [OF inv])
    fix r assume r: "r \<in> set (kb_runs d)" "?sel r"
    have "\<not> attempt_cancellable (at_state a)" if "a \<in> set (kb_attempts d)" "at_run a = ru_id r" for a
      using none r that unfolding to_cancel_def filter_empty_conv list_ex_iff by auto
    moreover have "counts_ok (kb_attempts d) r" using e r(1) by (simp add: exec_ok_def)
    ultimately show "run_key (?g r) = run_key r \<and> counts_ok (kb_attempts d) (?g r) \<and> ends_ok (kb_attempts d) (?g r) \<and>
        ru_authorized (?g r) = ru_authorized r"
      by (auto simp: run_key_def counts_ok_def ends_ok_def)
  qed
  then show ?thesis
    by (rule same_core_inv)
      (simp add: finish_cancellation_def Let_def note_core upd_campaign_core note_runs_core camp_key_def)
qed

lemma cancel_attempt_batch_cases:
  assumes "cancel_attempt_batch i limit locked d = Inr ((n, fin), d')"
  obtains c where "find_campaign d i = Some c" "ca_state c = Camp_CANCELLED" "d' = d" "fin"
  | c d1 where "find_campaign d i = Some c" "ca_state c = Camp_CANCELLING"
    "cancel_attempts (take limit (filter (\<lambda>a. at_id a \<notin> set locked) (to_cancel i d))) d = Inr d1"
    "fin \<longleftrightarrow> to_cancel i (bump (take limit (filter (\<lambda>a. at_id a \<notin> set locked) (to_cancel i d))) d1) = []"
    "d' = (if fin then finish_cancellation i (bump (take limit (filter (\<lambda>a. at_id a \<notin> set locked) (to_cancel i d))) d1)
           else bump (take limit (filter (\<lambda>a. at_id a \<notin> set locked) (to_cancel i d))) d1)"
proof -
  obtain c where c: "find_campaign d i = Some c" using assms by (auto simp: cancel_attempt_batch_def)
  show thesis
  proof (cases "ca_state c = Camp_CANCELLED")
    case True
    then show thesis using that(1) assms c by (auto simp: cancel_attempt_batch_def)
  next
    case False
    then obtain d1 where d1: "ca_state c = Camp_CANCELLING"
      "cancel_attempts (take limit (filter (\<lambda>a. at_id a \<notin> set locked) (to_cancel i d))) d = Inr d1"
      using assms c by (auto simp: cancel_attempt_batch_def Let_def)
    show thesis
      by (rule that(2) [OF c d1]) (use assms c d1 in \<open>auto simp: cancel_attempt_batch_def Let_def bump_def\<close>)
  qed
qed

lemma cancel_attempt_batch_inv:
  assumes inv: "campaign_inv env d" and ok: "cancel_attempt_batch i limit locked d = Inr ((n, fin), d')"
  shows "campaign_inv env d'"
  using ok
proof (cases rule: cancel_attempt_batch_cases)
  case (1 c)
  then show ?thesis using inv by simp
next
  case (2 c d1)
  have st: "struct_inv env d" using inv by (simp add: campaign_inv_def)
  let ?b = "take limit (filter (\<lambda>a. at_id a \<notin> set locked) (to_cancel i d))"
  have "campaign_inv env (bump ([] @ ?b) d1)"
    by (rule cancel_attempts_inv [OF _ distinct_batch [OF st] _ 2(3)])
      (use inv in \<open>auto dest!: in_set_takeD to_cancel_subset\<close>)
  then show ?thesis using 2(4,5) finish_cancellation_inv by auto
qed

section \<open>Repeating it ends\<close>

text \<open>
  Of a campaign under cancellation, the attempts left to cancel shrink by the size of the batch;
  rows locked elsewhere would only be left for a later call.
\<close>

lemma to_cancel_after:
  assumes eff: "kb_attempts d1 = update_where (\<lambda>x. at_id x \<in> at_id ` set b) cancelled (kb_attempts d)" "kb_runs d1 = kb_runs d"
  shows "to_cancel i (bump b d1) = filter (\<lambda>a. at_id a \<notin> at_id ` set b) (to_cancel i d)"
proof -
  have runs: "list_ex (\<lambda>r. ru_id r = at_run a \<and> ru_campaign r = i \<and> ru_state r = Crun_CANCELLING) (kb_runs (bump b d1)) =
      list_ex (\<lambda>r. ru_id r = at_run a \<and> ru_campaign r = i \<and> ru_state r = Crun_CANCELLING) (kb_runs d)" for a
    by (simp add: bump_def eff(2) list_ex_iff)
  have dead: "\<not> attempt_cancellable Att_CANCELLED" by (simp add: attempt_cancellable_def)
  have "filter (\<lambda>a. attempt_cancellable (at_state a) \<and> q a) (update_where (\<lambda>x. at_id x \<in> B) cancelled xs) =
      filter (\<lambda>a. at_id a \<notin> B) (filter (\<lambda>a. attempt_cancellable (at_state a) \<and> q a) xs)" for q B xs
    by (induction xs) (auto simp: update_where_def dead)
  then show ?thesis unfolding to_cancel_def runs bump_sel eff(1) by simp
qed

lemma filter_not_batch:
  assumes "distinct (map k xs)"
  shows "filter (\<lambda>a. k a \<notin> k ` set (take n xs)) xs = drop n xs"
proof -
  have "filter (\<lambda>a. k a \<notin> k ` set (take n xs)) (take n xs @ drop n xs) = drop n xs"
  proof -
    have "distinct (map k (take n xs) @ map k (drop n xs))" using assms by (metis append_take_drop_id map_append)
    then have "k ` set (take n xs) \<inter> k ` set (drop n xs) = {}" by simp
    then have "filter (\<lambda>a. k a \<notin> k ` set (take n xs)) (drop n xs) = drop n xs"
      by (intro filter_True) blast
    moreover have "filter (\<lambda>a. k a \<notin> k ` set (take n xs)) (take n xs) = []" by (auto simp: filter_empty_conv)
    ultimately show ?thesis unfolding filter_append by simp
  qed
  then show ?thesis unfolding append_take_drop_id .
qed

lemma cancel_batch_progress:
  assumes inv: "campaign_inv env d" and c: "find_campaign d i = Some c" "ca_state c = Camp_CANCELLING" and limit: "1 \<le> limit"
  obtains d1 where "kb_runs d1 = kb_runs d" "kb_campaigns d1 = kb_campaigns d"
    "to_cancel i (bump (take limit (to_cancel i d)) d1) = drop limit (to_cancel i d)"
    "cancel_attempt_batch i limit [] d =
       Inr ((length (take limit (to_cancel i d)), drop limit (to_cancel i d) = []),
            if drop limit (to_cancel i d) = [] then finish_cancellation i (bump (take limit (to_cancel i d)) d1)
            else bump (take limit (to_cancel i d)) d1)"
proof -
  have st: "struct_inv env d" using inv by (simp add: campaign_inv_def)
  let ?b = "take limit (to_cancel i d)"
  have "attempt_cancellable (at_state a) \<and> at_recipient a \<in> rp_id ` set (kb_recipients d)" if "a \<in> set ?b" for a
  proof -
    have a: "a \<in> set (kb_attempts d)" "attempt_cancellable (at_state a)" using that to_cancel_subset by (auto dest: in_set_takeD)
    from st a(1) obtain p where "p \<in> set (kb_recipients d)" "rp_id p = at_recipient a" by (rule struct_inv_attempt)
    with a(2) show ?thesis by (metis imageI)
  qed
  from cancel_attempts_total [OF this] obtain d1 where d1: "cancel_attempts ?b d = Inr d1" by blast
  have eff: "kb_attempts d1 = update_where (\<lambda>x. at_id x \<in> at_id ` set ?b) cancelled (kb_attempts d)"
    "kb_runs d1 = kb_runs d" "kb_campaigns d1 = kb_campaigns d"
    using cancel_attempts_effect [OF d1] by auto
  have left: "to_cancel i (bump ?b d1) = drop limit (to_cancel i d)"
    unfolding to_cancel_after [OF eff(1,2)]
    by (rule filter_not_batch) (use distinct_batch [OF st, of "length (to_cancel i d)" "\<lambda>_. True" i] in simp)
  show thesis
    by (rule that [OF eff(2,3) left])
      (use c limit d1 left in \<open>simp add: cancel_attempt_batch_def checkE_def of_option_def Let_def bump_def [symmetric]\<close>)
qed

end
