(* ===== verification/Campaign_System.thy ===== *)
theory Campaign_System
  imports Campaign_Cancel
begin

text \<open>
  The campaign domain as a system: every transaction of the service is a step, taken in any
  order by any number of callers, beside changes of the customer domain. The invariant holds in
  every reachable state, every service call is a sequence of steps, and every step moves
  campaigns, runs and attempts along their state machines.
\<close>

section \<open>Steps\<close>

definition campaign_init :: "campaign_db \<Rightarrow> bool" where
  "campaign_init d \<longleftrightarrow>
     kb_campaigns d = [] \<and> kb_revisions d = [] \<and> kb_snapshots d = [] \<and> kb_recipients d = [] \<and> kb_runs d = [] \<and>
     kb_attempts d = [] \<and> kb_permits d = [] \<and> kb_windows d = [] \<and> kb_org_windows d = []"

text \<open>
  Requests were validated: drafts are \<open>draft_ok\<close>, a preparation seals the revision it
  made, a claim was handed out by \<^verbatim>\<open>claim_recipient\<close>.
\<close>

inductive campaign_step :: "campaign_env \<Rightarrow> campaign_db \<Rightarrow> campaign_db \<Rightarrow> bool" for env where
  step_create: "draft_ok n draft \<Longrightarrow> create_tx key name draft d = Inr (c, d') \<Longrightarrow> campaign_step env d d'"
| step_update: "(\<And>x. draft = Some x \<Longrightarrow> draft_ok n x) \<Longrightarrow> update_tx i expected name draft d = Inr (c, d') \<Longrightarrow> campaign_step env d d'"
| step_prepare: "preparation_tx env refs i d = Inr (p, d') \<Longrightarrow> campaign_step env d d'"
| step_audience: "materialize_batch env v limit clock d = Inr (s, d') \<Longrightarrow> campaign_step env d d'"
| step_seal: "\<exists>w \<in> set (kb_revisions d). cv_id w = v \<and> cv_campaign w = i \<Longrightarrow> seal_tx i v m now d = Inr (u, d') \<Longrightarrow> campaign_step env d d'"
| step_scheduled_run: "scheduled_run_tx i d = Inr (p, d') \<Longrightarrow> campaign_step env d d'"
| step_schedule: "schedule_tx i r s d = Inr (u, d') \<Longrightarrow> campaign_step env d d'"
| step_started_run: "started_run_tx i key d = Inr (p, d') \<Longrightarrow> campaign_step env d d'"
| step_release_run: "set_release_run r w d = Inr d' \<Longrightarrow> campaign_step env d d'"
| step_bind_release: "bind_scheduled_release r s oc w v d = Inr d' \<Longrightarrow> campaign_step env d d'"
| step_activate: "begin_run_activation r d = Inr d' \<Longrightarrow> campaign_step env d d'"
| step_attempts: "materialize_attempt_batch env r limit d = Inr (n, d') \<Longrightarrow> campaign_step env d d'"
| step_announce: "campaign_event t i m d = Inr d' \<Longrightarrow> campaign_step env d d'"
| step_claim: "claim_tx r owner now locked d = Inr (c, d') \<Longrightarrow> campaign_step env d d'"
| step_workflow_started: "workflow_started_tx c w d = Inr (a, d') \<Longrightarrow> campaign_step env d d'"
| step_workflow_completed: "mark_workflow_completed c d = Inr (a, d') \<Longrightarrow> campaign_step env d d'"
| step_authorize: "claim_ok d c \<Longrightarrow> authorize_permit env c clock d = Inr (out, d') \<Longrightarrow> campaign_step env d d'"
| step_dispatched: "dispatched_tx p r a m now d = Inr (q, d') \<Longrightarrow> campaign_step env d d'"
| step_pause: "pause_tx i d = Inr (u, d') \<Longrightarrow> campaign_step env d d'"
| step_resume: "resume_tx i d = Inr (u, d') \<Longrightarrow> campaign_step env d d'"
| step_begin_cancel: "begin_cancellation i d = Inr d' \<Longrightarrow> campaign_step env d d'"
| step_cancel: "cancel_attempt_batch i limit locked d = Inr (o1, d') \<Longrightarrow> campaign_step env d d'"
| step_preference: "preference_request_ok pq \<Longrightarrow> set_preference pq d = Inr (n, d') \<Longrightarrow> campaign_step env d d'"
| step_suppression: "suppression_request_ok sq \<Longrightarrow> add_suppression sq d = Inr (n, d') \<Longrightarrow> campaign_step env d d'"
| step_customers: "campaign_step env d (d\<lparr>kb_customers := cus, kb_identities := ids, kb_conversations := cns\<rparr>)"

lemma campaign_init_inv: "campaign_init d \<Longrightarrow> campaign_inv env d"
  by (simp add: campaign_init_def campaign_inv_def struct_inv_def struct_ok_def ids_ok_def refs_ok_def fresh_ids_def
      exec_inv_def exec_ok_def permits_ok_def windows_ok_def)

lemma create_tx_cases:
  assumes "create_tx key name draft d = Inr (c, d')"
  obtains d1 where "create_campaign key name draft d = Inr (c, d1)" "d' = emit ''campaign.created'' (ca_id c) (Of_campaign (ca_state c)) None None d1"
  using assms by (auto simp: create_tx_def split: sum.splits prod.splits campaign_error.splits)

lemma emit_sel [simp]:
  "kb_campaigns (emit t a s r m d) = kb_campaigns d" "kb_runs (emit t a s r m d) = kb_runs d"
  "kb_attempts (emit t a s r m d) = kb_attempts d" "kb_revisions (emit t a s r m d) = kb_revisions d"
  by (simp_all add: emit_def)

lemma recipient_event_sel [simp]:
  "kb_campaigns (recipient_event t c d) = kb_campaigns d" "kb_runs (recipient_event t c d) = kb_runs d"
  "kb_attempts (recipient_event t c d) = kb_attempts d"
  by (simp_all add: recipient_event_def)

lemma dispatched_tx_cases:
  assumes "dispatched_tx p r a m now d = Inr (q, d')"
  obtains d1 where "consume_permit (pm_id p) (pm_token p) m now d = Inr (q, d1)" "same_core d1 d'"
    "kb_campaigns d' = kb_campaigns d1" "kb_runs d' = kb_runs d1" "kb_attempts d' = kb_attempts d1"
proof -
  obtain d1 where d1: "consume_permit (pm_id p) (pm_token p) m now d = Inr (q, d1)"
    using assms unfolding dispatched_tx_def Let_def by auto
  obtain run where run: "find_crun d1 (at_run a) = Some run"
    using assms unfolding dispatched_tx_def Let_def by (auto simp: d1)
  let ?c = "\<lparr>cl_run = run, cl_recipient = r, cl_attempt = a, cl_owner = case_option 0 id (at_owner a),
     cl_token = case_option 0 id (at_token a)\<rparr>"
  define e where "e = recipient_event ''campaign.recipient.dispatched'' ?c d1"
  have "d' = e \<or> (\<exists>i s. d' = emit ''campaign.completed'' i s None None e)"
    using assms unfolding dispatched_tx_def Let_def d1 bindE.simps split_conv run of_option_def option.case e_def [symmetric]
    by (cases "find_campaign e (ru_campaign run)") (auto split: if_splits)
  moreover have "same_core d1 e" by (simp add: e_def recipient_event_core)
  ultimately have "same_core d1 d'" "kb_campaigns d' = kb_campaigns d1" "kb_runs d' = kb_runs d1" "kb_attempts d' = kb_attempts d1"
    by (auto simp: e_def intro: emit_core)
  then show thesis by (rule that [OF d1])
qed

lemma schedule_tx_core:
  assumes "schedule_tx i r s d = Inr (u, d')"
  shows "same_core d d'"
proof -
  obtain d1 d2 where "bind_schedule r s d = Inr d1" "mark_campaign_scheduled i d1 = Inr d2"
    "campaign_event ''campaign.scheduled'' i None d2 = Inr d'"
    using assms by (auto simp: schedule_tx_def)
  from this(1) [THEN bind_schedule_core] this(2) [THEN mark_campaign_scheduled_core] this(3) [THEN campaign_event_core]
  show ?thesis by (meson same_core_trans)
qed

lemma pause_tx_core:
  assumes "pause_tx i d = Inr (u, d')"
  shows "same_core d d'"
proof -
  obtain d1 where "transition_campaign_state i Camp_PAUSED ''CAMPAIGN_PAUSED'' d = Inr d1"
    "campaign_event ''campaign.paused'' i None d1 = Inr d'"
    using assms by (auto simp: pause_tx_def)
  from this(1) [THEN transition_pause_core] this(2) [THEN campaign_event_core] show ?thesis by (rule same_core_trans)
qed

lemma resume_tx_core:
  assumes "resume_tx i d = Inr (u, d')"
  shows "same_core d d'"
proof -
  obtain d1 where "resume_campaign i d = Inr d1" "campaign_event ''campaign.resumed'' i None d1 = Inr d'"
    using assms by (auto simp: resume_tx_def)
  from this(1) [THEN resume_campaign_core] this(2) [THEN campaign_event_core] show ?thesis by (rule same_core_trans)
qed

lemma campaign_step_inv:
  assumes "campaign_step env d d'" and inv: "campaign_inv env d"
  shows "campaign_inv env d'"
  using assms(1)
proof cases
  case (step_create n draft key name c)
  from step_create(2) obtain d1 where d1: "create_campaign key name draft d = Inr (c, d1)"
    and d': "d' = emit ''campaign.created'' (ca_id c) (Of_campaign (ca_state c)) None None d1" by (rule create_tx_cases)
  show ?thesis
    unfolding d' by (rule same_core_inv [OF create_campaign_inv [OF inv d1 step_create(1)]]) (simp add: emit_core)
next
  case (step_update draft n i expected name c)
  then obtain row where "row \<in> set (kb_campaigns d)" "update_campaign row name draft d = Inr (c, d')"
    by (auto simp: update_tx_def dest: find_campaign_D)
  then show ?thesis using update_campaign_inv [OF inv] step_update(1) by blast
next
  case (step_prepare refs i p)
  then show ?thesis
    using begin_preparation_inv [OF inv] inv by (cases p) (auto simp: preparation_tx_def dest!: find_campaign_D split: if_splits)
next
  case (step_audience v limit clock s)
  then show ?thesis using materialize_batch_inv [OF inv] by blast
next
  case (step_seal v i m now u)
  then obtain d1 where "seal_preparation i v now d = Inr d1" "campaign_event ''campaign.prepared'' i (Some m) d1 = Inr d'"
    by (auto simp: seal_tx_def)
  then show ?thesis using seal_preparation_inv [OF inv _ step_seal(1)] campaign_event_core same_core_inv by blast
next
  case (step_scheduled_run i p)
  then show ?thesis using create_crun_inv [OF inv] by (auto simp: scheduled_run_tx_def dest!: find_campaign_D)
next
  case (step_schedule i r s u)
  then show ?thesis using inv same_core_inv schedule_tx_core by blast
next
  case (step_started_run i key p)
  then show ?thesis using create_crun_inv [OF inv] by (auto simp: started_run_tx_def dest!: find_campaign_D)
next
  case (step_release_run r w)
  then show ?thesis using inv same_core_inv set_release_run_core by blast
next
  case (step_bind_release r s oc w v)
  then show ?thesis using inv same_core_inv bind_scheduled_release_core by blast
next
  case (step_activate r)
  then show ?thesis using inv same_core_inv begin_run_activation_core unfolding campaign_inv_def by blast
next
  case (step_attempts r limit n)
  then show ?thesis using materialize_attempt_batch_inv [OF inv] by blast
next
  case (step_announce t i m)
  then show ?thesis using inv same_core_inv campaign_event_core by blast
next
  case (step_claim r owner now locked c)
  then obtain d1 where d1: "claim_recipient r owner now locked d = Inr (c, d1)" and "same_core d1 d'"
    by (auto simp: claim_tx_def recipient_event_core split: option.splits)
  then show ?thesis using claim_recipient_inv [OF inv d1] same_core_inv by blast
next
  case (step_workflow_started c w a)
  then obtain d1 where d1: "mark_workflow_started c w d = Inr (a, d1)" and "same_core d1 d'"
    by (auto simp: workflow_started_tx_def recipient_event_core)
  then show ?thesis using mark_workflow_started_inv [OF inv d1] same_core_inv by blast
next
  case (step_workflow_completed c a)
  then show ?thesis using mark_workflow_completed_inv [OF inv] by blast
next
  case (step_authorize c clock out)
  then show ?thesis using authorize_permit_inv [OF inv] by blast
next
  case (step_dispatched p r a m now q)
  then show ?thesis using consume_permit_inv [OF inv] same_core_inv by (elim dispatched_tx_cases) blast
next
  case (step_pause i u)
  then show ?thesis using inv same_core_inv pause_tx_core by blast
next
  case (step_resume i u)
  then show ?thesis using inv same_core_inv resume_tx_core by blast
next
  case (step_begin_cancel i)
  then show ?thesis using inv same_core_inv begin_cancellation_core by blast
next
  case (step_cancel i limit locked o1)
  then show ?thesis using cancel_attempt_batch_inv [OF inv] by (cases o1) blast
next
  case (step_preference pq n)
  then show ?thesis using inv same_core_inv set_preference_core by blast
next
  case (step_suppression sq n)
  then show ?thesis using inv same_core_inv add_suppression_core by blast
next
  case (step_customers cus ids cns)
  then show ?thesis using same_core_inv [OF inv, of d'] by (simp add: same_core_def)
qed

text \<open>The campaign domain is a transition system of the shared interface.\<close>

interpretation campaign_sys: transition_system campaign_init "campaign_step env" "campaign_inv env" for env
  by unfold_locales (auto intro: campaign_init_inv campaign_step_inv)

definition campaign_reachable :: "campaign_env \<Rightarrow> campaign_db \<Rightarrow> bool" where
  "campaign_reachable env d \<longleftrightarrow> (\<exists>s. campaign_init s \<and> (campaign_step env)\<^sup>*\<^sup>* s d)"

lemma campaign_reachable_inv: "campaign_reachable env d \<Longrightarrow> campaign_inv env d"
  unfolding campaign_reachable_def using campaign_sys.reach_inv by blast

lemma campaign_reachable_steps: "campaign_reachable env d \<Longrightarrow> (campaign_step env)\<^sup>*\<^sup>* d d' \<Longrightarrow> campaign_reachable env d'"
  unfolding campaign_reachable_def by (meson rtranclp_trans)

section \<open>Service calls are steps\<close>

definition acts :: "campaign_env \<Rightarrow> 'a campaign_act \<Rightarrow> bool" where
  "acts env m \<longleftrightarrow> (\<forall>d. (campaign_step env)\<^sup>*\<^sup>* d (snd (m d)))"

named_theorems act

lemma acts_ok [act]: "acts env (okA x)"
  by (simp add: acts_def okA_def)

lemma acts_fail [act]: "acts env (failA e)"
  by (simp add: acts_def failA_def)

lemma acts_call [act]: "acts env (callA r)"
  by (simp add: acts_def callA_def)

lemma acts_read [act]: "acts env (readA r)"
  by (simp add: acts_def readA_def)

lemma acts_require [act]: "acts env (requireA b e)"
  by (simp add: requireA_def acts_ok acts_fail)

lemma acts_seq [act]:
  assumes "acts env m" and "\<And>x. acts env (f x)"
  shows "acts env (seqA m f)"
  unfolding acts_def
proof
  fix d
  have "(campaign_step env)\<^sup>*\<^sup>* d (snd (m d))" using assms(1) by (simp add: acts_def)
  also have "(campaign_step env)\<^sup>*\<^sup>* (snd (m d)) (snd (seqA m f d))"
    using assms(2) by (auto simp: seqA_def acts_def split: prod.splits sum.splits)
  finally show "(campaign_step env)\<^sup>*\<^sup>* d (snd (seqA m f d))" .
qed

lemma acts_tx [act]: "(\<And>d x d'. body d = Inr (x, d') \<Longrightarrow> campaign_step env d d') \<Longrightarrow> acts env (tx body)"
  by (auto simp: acts_def tx_def split: sum.splits prod.splits)

lemma acts_unit_tx: "(\<And>d d'. body d = Inr d' \<Longrightarrow> campaign_step env d d') \<Longrightarrow> acts env (tx (unit_tx body))"
  by (rule acts_tx) (auto simp: unit_tx_def)

lemma create_campaign_call_acts: "draft_ok n draft \<Longrightarrow> acts env (create_campaign_call validate key name draft)"
  unfolding create_campaign_call_def by (auto intro!: act intro: campaign_step.step_create)

lemma update_campaign_call_acts:
  "(\<And>x. draft = Some x \<Longrightarrow> draft_ok n x) \<Longrightarrow> acts env (update_campaign_call validate i expected name draft)"
  unfolding update_campaign_call_def by (auto intro!: act intro: campaign_step.step_update)

lemma schedule_campaign_acts: "acts env (schedule_campaign scheduler activate i)"
  unfolding schedule_campaign_def
  by (auto intro!: act intro: campaign_step.step_scheduled_run campaign_step.step_schedule split: prod.splits)

lemma start_campaign_acts: "acts env (start_campaign start_run i key)"
  unfolding start_campaign_def
  by (auto intro!: act acts_unit_tx intro: campaign_step.step_started_run campaign_step.step_release_run split: prod.splits)

lemma bridge_scheduled_release_acts: "acts env (bridge_scheduled_release executions get_schedule run workflow)"
  unfolding bridge_scheduled_release_def Let_def
  by (auto intro!: act acts_unit_tx intro: campaign_step.step_bind_release split: prod.splits)

lemma confirm_release_acts: "acts env (confirm_release env release_done run)"
  unfolding confirm_release_def
  by (auto intro!: act acts_unit_tx
      intro: campaign_step.step_activate campaign_step.step_attempts campaign_step.step_announce)

lemma start_recipient_workflow_acts: "acts env (start_recipient_workflow start_run c)"
  unfolding start_recipient_workflow_def by (auto intro!: act intro: campaign_step.step_workflow_started)

lemma confirm_recipient_workflow_acts: "acts env (confirm_recipient_workflow workflow_ok c)"
  unfolding confirm_recipient_workflow_def by (auto intro!: act intro: campaign_step.step_workflow_completed split: prod.splits)

lemma authorize_send_acts:
  assumes "claim_ok d c"
  shows "(campaign_step env)\<^sup>*\<^sup>* d (snd (authorize_send env clock c d))"
  using campaign_step.step_authorize [OF assms]
  by (auto simp: authorize_send_def seqA_def tx_def okA_def failA_def split: sum.splits prod.splits)

lemma dispatch_send_acts: "acts env (dispatch_send env send now p)"
  unfolding dispatch_send_def
  by (auto intro!: act intro: campaign_step.step_dispatched split: prod.splits option.splits)

lemma cancel_campaign_acts: "acts env (cancel_campaign locked i)"
  unfolding cancel_campaign_def
  by (auto intro!: act acts_unit_tx
      intro: campaign_step.step_begin_cancel campaign_step.step_cancel campaign_step.step_announce)

end
