(* ===== verification/Campaign_Evolution.thy ===== *)
theory Campaign_Evolution
  imports Campaign_System
begin

text \<open>
  How the states of campaigns, runs and attempts evolve: every step moves each row along its
  state machine or adds a row in the first state of it, and no row goes away.
\<close>

section \<open>Views\<close>

definition camps :: "campaign_db \<Rightarrow> (uuid \<times> campaign_state) list" where
  "camps d = map (\<lambda>c. (ca_id c, ca_state c)) (kb_campaigns d)"

definition cruns :: "campaign_db \<Rightarrow> (uuid \<times> uuid \<times> crun_state) list" where
  "cruns d = map (\<lambda>r. (ru_id r, ru_campaign r, ru_state r)) (kb_runs d)"

definition atts :: "campaign_db \<Rightarrow> (uuid \<times> uuid \<times> attempt_state) list" where
  "atts d = map (\<lambda>a. (at_id a, at_run a, at_state a)) (kb_attempts d)"

lemmas view_defs = camps_def cruns_def atts_def

text \<open>
  The moves of runs are written into the operations and not tabulated; a run is materialized
  only out of a campaign that was not started, and completes only with a dispatch.
\<close>

fun crun_moves :: "crun_state \<Rightarrow> crun_state list" where
  "crun_moves Crun_PENDING_RELEASE = [Crun_MATERIALIZING, Crun_PAUSED, Crun_CANCELLING]"
| "crun_moves Crun_MATERIALIZING = [Crun_RUNNING, Crun_CANCELLING]"
| "crun_moves Crun_RUNNING = [Crun_PAUSED, Crun_COMPLETED, Crun_CANCELLING]"
| "crun_moves Crun_PAUSED = [Crun_RUNNING, Crun_CANCELLING]"
| "crun_moves Crun_CANCELLING = [Crun_CANCELLED]"
| "crun_moves _ = []"

definition startable :: "(uuid \<times> campaign_state) list \<Rightarrow> uuid \<Rightarrow> bool" where
  "startable C i \<longleftrightarrow> (i, Camp_READY) \<in> set C \<or> (i, Camp_SCHEDULED) \<in> set C"

definition crun_move ::
  "(uuid \<times> campaign_state) list \<Rightarrow> (uuid \<times> uuid \<times> attempt_state) list \<Rightarrow> uuid \<Rightarrow> uuid \<times> crun_state \<Rightarrow> uuid \<times> crun_state \<Rightarrow> bool" where
  "crun_move C A i x y \<longleftrightarrow> fst y = fst x \<and> snd y \<in> set (crun_moves (snd x)) \<and>
     (snd y = Crun_MATERIALIZING \<longrightarrow> startable C (fst x)) \<and>
     (snd y = Crun_COMPLETED \<longrightarrow> (\<exists>k. (k, i, Att_DISPATCH_AUTHORIZED) \<in> set A))"

definition attempt_move :: "uuid \<Rightarrow> uuid \<times> attempt_state \<Rightarrow> uuid \<times> attempt_state \<Rightarrow> bool" where
  "attempt_move i x y \<longleftrightarrow> fst y = fst x \<and> snd y \<in> set (attempt_moves (snd x))"

definition evolve :: "(uuid \<Rightarrow> 'a \<Rightarrow> bool) \<Rightarrow> (uuid \<Rightarrow> 'a \<Rightarrow> 'a \<Rightarrow> bool) \<Rightarrow> (uuid \<times> 'a) list \<Rightarrow> (uuid \<times> 'a) list \<Rightarrow> bool" where
  "evolve new move X Y \<longleftrightarrow> fst ` set X \<subseteq> fst ` set Y \<and>
     (\<forall>(i, y) \<in> set Y. (\<exists>x. (i, x) \<in> set X \<and> (y = x \<or> move i x y)) \<or> new i y)"

definition camps_evolve :: "campaign_db \<Rightarrow> campaign_db \<Rightarrow> bool" where
  "camps_evolve d d' \<longleftrightarrow>
     evolve (\<lambda>i s. kb_next d \<le> i \<and> s = Camp_DRAFT) (\<lambda>i s t. t \<in> set (campaign_moves s)) (camps d) (camps d')"

definition cruns_evolve :: "campaign_db \<Rightarrow> campaign_db \<Rightarrow> bool" where
  "cruns_evolve d d' \<longleftrightarrow>
     evolve (\<lambda>i x. kb_next d \<le> i \<and> snd x = Crun_PENDING_RELEASE \<and> startable (camps d) (fst x))
       (crun_move (camps d) (atts d)) (cruns d) (cruns d')"

definition atts_evolve :: "campaign_db \<Rightarrow> campaign_db \<Rightarrow> bool" where
  "atts_evolve d d' \<longleftrightarrow>
     evolve (\<lambda>i x. kb_next d \<le> i \<and> snd x = Att_PENDING \<and> (\<exists>c. (fst x, c, Crun_MATERIALIZING) \<in> set (cruns d)))
       attempt_move (atts d) (atts d')"

definition evolves :: "campaign_db \<Rightarrow> campaign_db \<Rightarrow> bool" where
  "evolves d d' \<longleftrightarrow> camps_evolve d d' \<and> cruns_evolve d d' \<and> atts_evolve d d'"

lemmas evolves_defs = evolves_def camps_evolve_def cruns_evolve_def atts_evolve_def

lemma evolve_refl [simp]: "evolve new move X X"
  by (auto simp: evolve_def)

lemma evolve_append: "(\<And>i y. (i, y) \<in> set Z \<Longrightarrow> new i y) \<Longrightarrow> evolve new move X (X @ Z)"
  by (auto simp: evolve_def)

lemma evolve_map:
  assumes "\<And>r. r \<in> set rows \<Longrightarrow> p r \<Longrightarrow> k (f r) = k r \<and> (v (f r) = v r \<or> move (k r) (v r) (v (f r)))"
  shows "evolve new move (map (\<lambda>r. (k r, v r)) rows) (map (\<lambda>r. (k r, v r)) (update_where p f rows))"
proof -
  have "\<exists>r \<in> set rows. k s = k r \<and> (v s = v r \<or> move (k r) (v r) (v s))" if "s \<in> set (update_where p f rows)" for s
    using that assms by (auto simp: set_update_where split: if_splits)
  moreover have "k r \<in> k ` set (update_where p f rows)" if "r \<in> set rows" for r
  proof -
    have "k (if p r then f r else r) = k r" using assms [OF that] by auto
    moreover have "(if p r then f r else r) \<in> set (update_where p f rows)" using that by (simp add: set_update_where)
    ultimately show ?thesis by (metis imageI)
  qed
  ultimately show ?thesis unfolding evolve_def by (fastforce simp: image_iff)
qed

text \<open>A step that keeps a view.\<close>

lemma evolves_same:
  "camps d' = camps d \<Longrightarrow> camps_evolve d d'" "cruns d' = cruns d \<Longrightarrow> cruns_evolve d d'" "atts d' = atts d \<Longrightarrow> atts_evolve d d'"
  by (simp_all add: evolves_defs)

lemma camps_upd:
  assumes "kb_campaigns d' = update_where p f (kb_campaigns d)"
    and "\<And>c. c \<in> set (kb_campaigns d) \<Longrightarrow> p c \<Longrightarrow>
      ca_id (f c) = ca_id c \<and> (ca_state (f c) = ca_state c \<or> ca_state (f c) \<in> set (campaign_moves (ca_state c)))"
  shows "camps_evolve d d'"
  unfolding camps_evolve_def camps_def assms(1) using assms(2) by (rule evolve_map)

lemma cruns_upd:
  assumes "map (\<lambda>r. (ru_id r, ru_campaign r, ru_state r)) (kb_runs d') =
      map (\<lambda>r. (ru_id r, ru_campaign r, ru_state r)) (update_where p f (kb_runs d))"
    and "\<And>r. r \<in> set (kb_runs d) \<Longrightarrow> p r \<Longrightarrow> ru_id (f r) = ru_id r \<and> ru_campaign (f r) = ru_campaign r \<and>
      (ru_state (f r) = ru_state r \<or> crun_move (camps d) (atts d) (ru_id r) (ru_campaign r, ru_state r) (ru_campaign r, ru_state (f r)))"
  shows "cruns_evolve d d'"
  unfolding cruns_evolve_def cruns_def assms(1) by (rule evolve_map) (use assms(2) in fastforce)

lemma cruns_upd_eq:
  assumes "kb_runs d' = update_where p f (kb_runs d)"
    and "\<And>r. r \<in> set (kb_runs d) \<Longrightarrow> p r \<Longrightarrow> ru_id (f r) = ru_id r \<and> ru_campaign (f r) = ru_campaign r \<and>
      (ru_state (f r) = ru_state r \<or> crun_move (camps d) (atts d) (ru_id r) (ru_campaign r, ru_state r) (ru_campaign r, ru_state (f r)))"
  shows "cruns_evolve d d'"
  by (rule cruns_upd [of _ p f, OF _ assms(2)]) (simp add: assms(1))

lemma atts_upd:
  assumes "kb_attempts d' = update_where p f (kb_attempts d)"
    and "\<And>a. a \<in> set (kb_attempts d) \<Longrightarrow> p a \<Longrightarrow> at_id (f a) = at_id a \<and> at_run (f a) = at_run a \<and>
      (at_state (f a) = at_state a \<or> at_state (f a) \<in> set (attempt_moves (at_state a)))"
  shows "atts_evolve d d'"
  unfolding atts_evolve_def atts_def assms(1) by (rule evolve_map) (use assms(2) in \<open>auto simp: attempt_move_def\<close>)

lemma same_campaign:
  assumes "struct_inv env d" and "find_campaign d i = Some c" and "x \<in> set (kb_campaigns d)" and "ca_id x = i"
  shows "x = c"
  using assms struct_inv_D(1) find_campaign_D by (metis distinct_map_inj)


text \<open>Operations on the customer domain, on preferences and on events keep all views.\<close>

definition same_views :: "campaign_db \<Rightarrow> campaign_db \<Rightarrow> bool" where
  "same_views d d' \<longleftrightarrow> camps d' = camps d \<and> cruns d' = cruns d \<and> atts d' = atts d"

lemma same_views_evolves: "same_views d d' \<Longrightarrow> evolves d d'"
  by (simp add: same_views_def evolves_defs)

lemma evolves_then_same: "evolves d d1 \<Longrightarrow> same_views d1 d' \<Longrightarrow> evolves d d'"
  by (simp add: same_views_def evolves_defs)

lemma same_rows: "kb_campaigns d' = kb_campaigns d \<Longrightarrow> kb_runs d' = kb_runs d \<Longrightarrow> kb_attempts d' = kb_attempts d \<Longrightarrow> same_views d d'"
  by (simp add: same_views_def view_defs)

lemma campaign_event_views: "campaign_event t i m d = Inr d' \<Longrightarrow> same_views d d'"
  by (auto simp: campaign_event_def intro!: same_rows)

section \<open>Campaigns, revisions and runs\<close>

lemma create_campaign_evolves:
  assumes "create_campaign key name draft d = Inr (c, d')"
  shows "evolves d d'"
  using assms by (auto simp: create_campaign_def Let_def evolves_defs view_defs intro!: evolve_append)

lemma update_campaign_evolves:
  assumes inv: "struct_inv env d" and row: "row \<in> set (kb_campaigns d)" and ok: "update_campaign row name draft d = Inr (c, d')"
  shows "evolves d d'"
proof -
  have "x = row" if "x \<in> set (kb_campaigns d)" "ca_id x = ca_id row" for x
    using that row struct_inv_D(1) [OF inv] by (metis distinct_map_inj)
  moreover have rows: "kb_campaigns d' = update_where (\<lambda>x. ca_id x = ca_id row) (\<lambda>_. c) (kb_campaigns d)"
    and "ca_id c = ca_id row" "ca_state c = ca_state row"
    using ok by (auto simp: update_campaign_def Let_def upd_campaign_def)
  ultimately have "camps_evolve d d'" by (intro camps_upd [OF rows]) auto
  moreover have "kb_runs d' = kb_runs d" "kb_attempts d' = kb_attempts d" using ok by (auto simp: update_campaign_def Let_def)
  ultimately show ?thesis by (simp add: evolves_defs view_defs)
qed

text \<open>A move of one campaign that leaves its runs alone.\<close>

lemma campaign_move_evolves:
  assumes inv: "struct_inv env d" and c: "find_campaign d i = Some c" and st: "t \<in> set (campaign_moves (ca_state c))"
    and f: "\<And>c. ca_id (f c) = ca_id c \<and> ca_state (f c) = t"
    and rows: "kb_campaigns d' = update_where (\<lambda>c. ca_id c = i) f (kb_campaigns d)" "cruns d' = cruns d" "atts d' = atts d"
  shows "evolves d d'"
proof -
  have "camps_evolve d d'" by (rule camps_upd [OF rows(1)]) (use same_campaign [OF inv c] f st in auto)
  then show ?thesis using rows by (simp add: evolves_defs)
qed

lemma begin_preparation_evolves:
  assumes "struct_inv env d" and "find_campaign d i = Some row" and "begin_preparation env' refs row d = Inr (p, d')"
  shows "evolves d d'"
  by (rule campaign_move_evolves [OF assms(1,2), of Camp_PREPARING "\<lambda>r. r\<lparr>ca_state := Camp_PREPARING\<rparr>"])
    (use assms(3) find_campaign_D [OF assms(2)] in
      \<open>auto simp: begin_preparation_def Let_def require_campaign_transition_def view_defs upd_campaign_def\<close>)

lemma materialize_members_views: "materialize_members env v s clock ms d = Inr d' \<Longrightarrow> same_views d d'"
proof (induction ms arbitrary: d)
  case (Cons m ms)
  then obtain d1 where d1: "materialize_member env v s (clock (length ms)) m d = Inr d1"
    and rest: "materialize_members env v s clock ms d1 = Inr d'" by auto
  have "same_views d d1"
    using d1 unfolding materialize_member_def Let_def split_beta eligibility_db
    by (auto simp: upd_snapshot_def intro!: same_rows)
  with Cons.IH [OF rest] show ?case by (simp add: same_views_def)
qed (simp add: same_views_def)

lemma materialize_batch_views: "materialize_batch env v limit clock d = Inr (s, d') \<Longrightarrow> same_views d d'"
  unfolding materialize_batch_def Let_def
  by (auto split: option.splits dest!: materialize_members_views simp: same_views_def view_defs upd_snapshot_def)

lemma seal_preparation_evolves:
  assumes "struct_inv env d" and ok: "seal_preparation i v now d = Inr d'"
  shows "evolves d d'"
proof -
  obtain c where c: "find_campaign d i = Some c" using ok by (auto simp: seal_preparation_def split: option.splits)
  show ?thesis
    by (rule campaign_move_evolves [OF assms(1) c, of Camp_READY "\<lambda>c. c\<lparr>ca_state := Camp_READY, ca_prepared := Some v\<rparr>"])
      (use ok c in \<open>auto simp: seal_preparation_def Let_def view_defs upd_campaign_def upd_snapshot_def split: option.splits\<close>)
qed

lemma create_crun_evolves:
  assumes row: "find_campaign d i = Some row" and ok: "create_crun row key d = Inr (run, d')"
  shows "evolves d d'"
proof -
  have st: "startable (camps d) (ca_id row)"
    using ok find_campaign_D [OF row] by (force simp: create_crun_def startable_def camps_def)
  show ?thesis
    using ok st unfolding create_crun_def Let_def
    by (auto simp: evolves_defs view_defs new_crun_def intro!: evolve_append split: option.splits)
qed


section \<open>Release and attempts\<close>

lemma bind_views:
  "set_release_run r w d = Inr d' \<Longrightarrow> same_views d d'" "bind_schedule r s d = Inr d' \<Longrightarrow> same_views d d'"
  "bind_scheduled_release r s oc w v d = Inr d' \<Longrightarrow> same_views d d'"
  by (auto simp: set_release_run_def bind_schedule_def bind_scheduled_release_def same_views_def view_defs upd_crun_def
      map_update_where split: if_splits)

lemma mark_campaign_scheduled_evolves:
  assumes "struct_inv env d" and ok: "mark_campaign_scheduled i d = Inr d'"
  shows "evolves d d'"
proof -
  obtain c where c: "find_campaign d i = Some c" using ok by (auto simp: mark_campaign_scheduled_def)
  show ?thesis
  proof (cases "ca_state c = Camp_SCHEDULED")
    case True
    then show ?thesis using ok c by (auto simp: mark_campaign_scheduled_def intro!: same_views_evolves same_rows)
  next
    case False
    show ?thesis
      by (rule campaign_move_evolves [OF assms(1) c, of Camp_SCHEDULED
            "\<lambda>c. c\<lparr>ca_state := Camp_SCHEDULED, ca_revision := Suc (ca_revision c)\<rparr>"])
        (use ok c False in \<open>auto simp: mark_campaign_scheduled_def require_campaign_transition_def view_defs upd_campaign_def\<close>)
  qed
qed

lemma begin_run_activation_evolves:
  assumes inv: "struct_inv env d" and ok: "begin_run_activation i d = Inr d'"
  shows "evolves d d'"
proof -
  obtain r where r: "find_crun d i = Some r" using ok by (auto simp: begin_run_activation_def)
  show ?thesis
  proof (cases "d' = d")
    case False
    then obtain c where c: "find_campaign d (ru_campaign r) = Some c" "ca_state c \<in> {Camp_READY, Camp_SCHEDULED}"
      and st: "ru_state r = Crun_PENDING_RELEASE"
      and rows: "kb_campaigns d' = update_where (\<lambda>x. ca_id x = ca_id c) (\<lambda>x. x\<lparr>ca_state := Camp_RUNNING\<rparr>) (kb_campaigns d)"
        "kb_runs d' = update_where (\<lambda>x. ru_id x = i) (\<lambda>x. x\<lparr>ru_state := Crun_MATERIALIZING\<rparr>) (kb_runs d)"
        "kb_attempts d' = kb_attempts d"
      using ok r
      by (auto simp: begin_run_activation_def Let_def upd_campaign_def upd_crun_def split: if_splits option.splits)
    have id: "c \<in> set (kb_campaigns d)" "ca_id c = ru_campaign r" using find_campaign_D [OF c(1)] by auto
    have "startable (camps d) (ru_campaign r)" using c(2) id by (force simp: startable_def camps_def)
    then have move: "crun_move (camps d) (atts d) i (ru_campaign r, ru_state r) (ru_campaign r, Crun_MATERIALIZING)"
      using st by (simp add: crun_move_def)
    have "cruns_evolve d d'"
      by (rule cruns_upd_eq [OF rows(2)], drule (1) same_run [OF inv r]) (use move find_crun_D [OF r] in simp)
    moreover have "camps_evolve d d'"
      by (rule camps_upd [OF rows(1)], drule same_campaign [OF inv c(1)]) (use c(2) id in auto)
    ultimately show ?thesis using rows(3) by (simp add: evolves_defs view_defs)
  qed (simp add: same_rows same_views_evolves)
qed

lemma add_attempts_rows:
  assumes "add_attempts env run v rs d = Inr d'"
  shows "kb_campaigns d' = kb_campaigns d \<and> kb_runs d' = kb_runs d \<and>
    (\<exists>new. kb_attempts d' = kb_attempts d @ new \<and>
       (\<forall>a \<in> set new. kb_next d \<le> at_id a \<and> at_run a = ru_id run \<and> at_state a = Att_PENDING))"
  using assms
proof (induction rs arbitrary: d)
  case (Cons r rs)
  let ?a = "new_attempt env run v r (kb_next d)"
  have a: "at_id ?a = kb_next d" "at_run ?a = ru_id run" "at_state ?a = Att_PENDING" by (simp_all add: new_attempt_def Let_def)
  obtain new where "kb_campaigns d' = kb_campaigns d" "kb_runs d' = kb_runs d" "kb_attempts d' = (kb_attempts d @ [?a]) @ new"
    "\<forall>b \<in> set new. Suc (kb_next d) \<le> at_id b \<and> at_run b = ru_id run \<and> at_state b = Att_PENDING"
    using Cons.IH [of "d\<lparr>kb_attempts := kb_attempts d @ [?a], kb_next := Suc (kb_next d)\<rparr>"] Cons.prems by (auto simp: Let_def)
  with a show ?case by (intro conjI exI [of _ "?a # new"]) auto
qed simp

lemma materialize_attempt_batch_evolves:
  assumes inv: "struct_inv env d" and ok: "materialize_attempt_batch env i limit d = Inr (n, d')"
  shows "evolves d d'"
proof -
  obtain run v where run: "find_crun d i = Some run" "ru_state run = Crun_MATERIALIZING" "find_revision d (ru_revision run) = Some v"
    using ok by (auto simp: materialize_attempt_batch_def Let_def)
  define rs where "rs = take limit (drop (ru_cursor run) (attempt_candidates run d))"
  obtain d1 where d1: "add_attempts env run v rs d = Inr d1"
    using ok run by (auto simp: materialize_attempt_batch_def Let_def rs_def split: if_splits)
  note rows = add_attempts_rows [OF d1]
  obtain f where runs: "kb_runs d' = update_where (\<lambda>r. ru_id r = i) f (kb_runs d)"
    and f: "\<And>r. ru_id (f r) = ru_id r \<and> ru_campaign (f r) = ru_campaign r \<and> (ru_state (f r) = ru_state r \<or> ru_state (f r) = Crun_RUNNING)"
    and same: "kb_campaigns d' = kb_campaigns d" "kb_attempts d' = kb_attempts d1"
  proof (cases "length (attempt_candidates run d) \<le> ru_cursor run + length rs")
    case True
    show thesis
      by (rule that [of "\<lambda>r. r\<lparr>ru_state := Crun_RUNNING, ru_cursor := ru_cursor run + length rs, ru_materialized := True\<rparr>"])
        (use ok run d1 rows True in \<open>auto simp: materialize_attempt_batch_def Let_def rs_def [symmetric] upd_crun_def simp del: length_take length_drop\<close>)
  next
    case False
    show thesis
      by (rule that [of "\<lambda>r. r\<lparr>ru_cursor := ru_cursor run + length rs\<rparr>"])
        (use ok run d1 rows False in \<open>auto simp: materialize_attempt_batch_def Let_def rs_def [symmetric] upd_crun_def simp del: length_take length_drop\<close>)
  qed
  have "cruns_evolve d d'"
  proof (rule cruns_upd_eq [OF runs])
    fix r assume "r \<in> set (kb_runs d)" "ru_id r = i"
    then have "r = run" by (rule same_run [OF inv run(1)])
    then show "ru_id (f r) = ru_id r \<and> ru_campaign (f r) = ru_campaign r \<and>
      (ru_state (f r) = ru_state r \<or> crun_move (camps d) (atts d) (ru_id r) (ru_campaign r, ru_state r) (ru_campaign r, ru_state (f r)))"
      using f [of r] run(2) by (auto simp: crun_move_def)
  qed
  moreover have "atts_evolve d d'"
  proof -
    have "(ru_id run, ru_campaign run, Crun_MATERIALIZING) \<in> set (cruns d)"
      using find_crun_D [OF run(1)] run(2) by (force simp: cruns_def)
    moreover obtain new where new: "kb_attempts d' = kb_attempts d @ new"
      and "\<forall>a \<in> set new. kb_next d \<le> at_id a \<and> at_run a = ru_id run \<and> at_state a = Att_PENDING"
      using rows same(2) by auto
    ultimately show ?thesis
      unfolding atts_evolve_def atts_def new map_append by (intro evolve_append) fastforce
  qed
  ultimately show ?thesis using same(1) by (simp add: evolves_defs view_defs)
qed


section \<open>Attempts\<close>

text \<open>A move of one attempt that leaves campaigns and the states of runs alone.\<close>

lemma attempt_move_evolves:
  assumes inv: "struct_inv env d" and a: "a \<in> set (kb_attempts d)" and st: "t \<in> set (attempt_moves (at_state a))"
    and f: "\<And>x. at_id (f x) = at_id x \<and> at_run (f x) = at_run x \<and> at_state (f x) = t"
    and rows: "kb_attempts d' = update_where (\<lambda>x. at_id x = at_id a) f (kb_attempts d)" "cruns d' = cruns d" "camps d' = camps d"
  shows "evolves d d'"
proof -
  have "atts_evolve d d'"
    by (rule atts_upd [OF rows(1)], drule same_attempt [OF inv _ a]) (use f st in auto)
  then show ?thesis using rows by (simp add: evolves_defs)
qed

lemma claim_recipient_evolves:
  assumes inv: "struct_inv env d" and ok: "claim_recipient i owner now locked d = Inr (c, d')"
  shows "evolves d d'"
  using ok
proof (cases rule: claim_recipient_cases)
  case (2 run a recipient)
  show ?thesis
    by (rule attempt_move_evolves [OF inv 2(3), of Att_CLAIMED "\<lambda>r. r\<lparr>at_state := Att_CLAIMED, at_owner := Some owner,
          at_token := Some (kb_next d), at_claimed_at := Some now\<rparr>"])
      (simp_all add: 2(5,8) upd_attempt_def upd_crun_def view_defs map_update_where)
qed (simp add: same_rows same_views_evolves)

lemma mark_workflow_started_evolves:
  assumes inv: "struct_inv env d" and ok: "mark_workflow_started c w d = Inr (a', d')"
  shows "evolves d d'"
proof -
  obtain a where a: "owned_attempt c Att_CLAIMED d = Inr a" using ok by (auto simp: mark_workflow_started_def)
  show ?thesis
    by (rule attempt_move_evolves [OF inv owned_attempt_D(1) [OF a], of Att_WORKFLOW_RUNNING
          "\<lambda>r. r\<lparr>at_state := Att_WORKFLOW_RUNNING, at_workflow := Some w\<rparr>"])
      (use owned_attempt_D(3) [OF a] a ok in \<open>auto simp: mark_workflow_started_def Let_def upd_attempt_def view_defs\<close>)
qed

lemma mark_workflow_completed_evolves:
  assumes inv: "struct_inv env d" and ok: "mark_workflow_completed c d = Inr (a', d')"
  shows "evolves d d'"
proof -
  obtain a where a: "owned_attempt c Att_WORKFLOW_RUNNING d = Inr a" using ok by (auto simp: mark_workflow_completed_def)
  show ?thesis
    by (rule attempt_move_evolves [OF inv owned_attempt_D(1) [OF a], of Att_READY_TO_SEND "\<lambda>r. r\<lparr>at_state := Att_READY_TO_SEND\<rparr>"])
      (use owned_attempt_D(3) [OF a] a ok in \<open>auto simp: mark_workflow_completed_def Let_def upd_attempt_def view_defs\<close>)
qed

lemma deny_send_evolves:
  assumes inv: "struct_inv env d" and a: "a \<in> set (kb_attempts d)" and ok: "deny_send i a reason next_at consent epoch d = Inr d'"
  shows "evolves d d'"
proof (cases "reason = El_DEFERRED_QUIET_HOURS")
  case True
  then have "same_views d d'"
    using ok by (auto simp: deny_send_def Let_def same_views_def view_defs upd_attempt_def map_update_where)
  then show ?thesis by (rule same_views_evolves)
next
  case False
  show ?thesis
    by (rule attempt_move_evolves [OF inv a, of Att_SUPPRESSED "\<lambda>x. x\<lparr>at_state := Att_SUPPRESSED, at_error := Some reason\<rparr>"])
      (use ok False in \<open>auto simp: deny_send_def Let_def resolve_attempt_transition_def upd_attempt_def upd_crun_def view_defs map_update_where\<close>)
qed

lemma grant_send_evolves:
  assumes inv: "struct_inv env d" and a: "a \<in> set (kb_attempts d)" and ok: "grant_send i a now consent epoch d = Inr (p, d')"
  shows "evolves d d'"
  by (rule attempt_move_evolves [OF inv a, of Att_DISPATCH_AUTHORIZED
        "\<lambda>x. x\<lparr>at_state := Att_DISPATCH_AUTHORIZED, at_error := None\<rparr>"])
    (use ok in \<open>auto simp: grant_send_def Let_def resolve_attempt_transition_def upd_attempt_def upd_crun_def view_defs map_update_where\<close>)


lemma evolve_weaken:
  assumes "evolve new move X Y" and "\<And>i y. new i y \<Longrightarrow> new' i y"
  shows "evolve new' move X Y"
  unfolding evolve_def
proof (intro conjI ballI, goal_cases)
  case (2 z)
  obtain i y where z: "z = (i, y)" by (cases z)
  with 2 assms(1) have "(\<exists>x. (i, x) \<in> set X \<and> (y = x \<or> move i x y)) \<or> new i y" unfolding evolve_def by blast
  with assms(2) z show ?case by auto
qed (use assms(1) in \<open>simp add: evolve_def\<close>)

lemma same_then_evolves:
  assumes "same_views d d1" and "kb_next d \<le> kb_next d1" and "evolves d1 d'"
  shows "evolves d d'"
proof -
  have eq: "camps d1 = camps d" "cruns d1 = cruns d" "atts d1 = atts d" using assms(1) by (simp_all add: same_views_def)
  have "camps_evolve d1 d'" "cruns_evolve d1 d'" "atts_evolve d1 d'" using assms(3) by (simp_all add: evolves_def)
  then show ?thesis
    unfolding evolves_defs eq using assms(2) by (intro conjI) (erule evolve_weaken, simp)+
qed

lemma authorize_permit_evolves:
  assumes inv: "campaign_inv env d" and ok: "authorize_permit env c clock d = Inr (out, d')"
  shows "evolves d d'"
  using ok
proof (cases rule: authorize_permit_cases)
  case (1 run campaign a recipient v reason next_at consent epoch dest d1)
  note a = owned_attempt_D [OF 1(5)]
  have d1: "d1 = snd (policy_epoch (rp_channel recipient) d)" using eligibility_db 1(8) by (metis snd_conv)
  have st: "struct_inv env d1"
    using same_core_inv [OF inv policy_epoch_core] unfolding d1 campaign_inv_def by blast
  have v1: "same_views d d1" by (simp add: d1 same_rows)
  have a1: "a \<in> set (kb_attempts d1)" using a(1) d1 by simp
  from 1(9) show ?thesis
  proof (elim disjE conjE exE)
    assume "deny_send (ru_id run) a reason next_at consent epoch d1 = Inr d'"
    then have "evolves d1 d'" by (rule deny_send_evolves [OF st a1])
    then show ?thesis by (rule same_then_evolves [OF v1, rotated]) (simp add: d1)
  next
    fix d2
    assume res: "reserve_throttle run (rp_channel recipient) (dr_throttle (cv_spec v)) (pk_throttle clock) d1 = Inr d2"
      and cs: "case find (\<lambda>p. pm_attempt p = at_id a) (kb_permits d2) of Some p \<Rightarrow> out = Inl p \<and> d' = d2
         | None \<Rightarrow> \<exists>p. grant_send (ru_id run) a (pk_permit clock) consent epoch d2 = Inr (p, d') \<and> out = Inl p"
    note sel = reserve_throttle_sel [OF res]
    have st2: "struct_inv env d2" using st unfolding struct_inv_def sel .
    have v2: "same_views d d2" using v1 sel by (simp add: same_views_def view_defs)
    have "evolves d2 d'"
    proof (cases "find (\<lambda>p. pm_attempt p = at_id a) (kb_permits d2)")
      case None
      with cs obtain p where "grant_send (ru_id run) a (pk_permit clock) consent epoch d2 = Inr (p, d')" by auto
      then show ?thesis by (rule grant_send_evolves [OF st2, rotated]) (simp add: sel a1)
    next
      case (Some p)
      with cs show ?thesis by (simp add: same_rows same_views_evolves)
    qed
    then show ?thesis by (rule same_then_evolves [OF v2, rotated]) (simp add: sel d1)
  qed
qed

lemma complete_run_rows:
  "kb_attempts (complete_run i d) = kb_attempts d"
  "kb_runs (complete_run i d) = kb_runs d \<or>
   (\<exists>run. find_crun d i = Some run \<and> ru_state run = Crun_RUNNING) \<and>
   kb_runs (complete_run i d) = update_where (\<lambda>r. ru_id r = i) (\<lambda>r. r\<lparr>ru_state := Crun_COMPLETED\<rparr>) (kb_runs d)"
  unfolding complete_run_def Let_def by (auto simp: upd_crun_def split: option.splits)

lemma complete_run_campaigns:
  "kb_campaigns (complete_run i d) = kb_campaigns d \<or>
   (\<exists>c. find_campaign d (ca_id c) = Some c \<and> ca_state c = Camp_RUNNING \<and>
      kb_campaigns (complete_run i d) = update_where (\<lambda>x. ca_id x = ca_id c) (\<lambda>x. x\<lparr>ca_state := Camp_COMPLETED\<rparr>) (kb_campaigns d))"
proof (cases "kb_campaigns (complete_run i d) = kb_campaigns d")
  case False
  then obtain run where run: "find_crun d i = Some run" "ru_state run = Crun_RUNNING" "run_remaining i d = 0"
    unfolding complete_run_def by (auto split: option.splits if_splits)
  have same: "find_campaign (upd_crun i f d) = find_campaign d" for f by (simp add: find_campaign_def fun_eq_iff)
  obtain c where c: "find_campaign d (ru_campaign run) = Some c" "ca_state c = Camp_RUNNING"
    using False run unfolding complete_run_def Let_def by (auto simp: same split: option.splits if_splits)
  have "kb_campaigns (complete_run i d) = update_where (\<lambda>x. ca_id x = ca_id c) (\<lambda>x. x\<lparr>ca_state := Camp_COMPLETED\<rparr>) (kb_campaigns d)"
    using run c unfolding complete_run_def Let_def by (simp add: same upd_campaign_def)
  with c find_campaign_D [OF c(1)] show ?thesis by (intro disjI2 exI [of _ c]) simp
qed simp

lemma consume_permit_evolves:
  assumes inv: "campaign_inv env d" and ok: "consume_permit i token m now d = Inr (q, d')"
  shows "evolves d d'"
  using ok
proof (cases rule: consume_permit_cases)
  case (2 p a)
  have st: "struct_inv env d" using inv by (simp add: campaign_inv_def)
  have a: "a \<in> set (kb_attempts d)" using find_attempt_D [OF 2(4)] by simp
  define e where "e = note_transition Hist_ATTEMPT (at_id a) (Some (Of_attempt Att_DISPATCH_AUTHORIZED)) (Of_attempt Att_DISPATCHED)
      (Because ''RECIPIENT_DISPATCHED'')
      (note_transition Hist_PERMIT i (Some (Of_permit Perm_AUTHORIZED)) (Of_permit Perm_CONSUMED) (Because ''SEND_CONSUMED'')
      (upd_crun (at_run a) (\<lambda>r. r\<lparr>ru_dispatched := ru_dispatched r + 1\<rparr>)
      (upd_attempt (at_id a) (\<lambda>x. x\<lparr>at_state := Att_DISPATCHED, at_message := Some m\<rparr>)
      (upd_permit i (\<lambda>q. q\<lparr>pm_state := Perm_CONSUMED, pm_consumed_at := Some now, pm_message := Some m\<rparr>) d))))"
  have d': "d' = complete_run (at_run a) e" unfolding e_def by (rule 2(6))
  have e: "kb_campaigns e = kb_campaigns d" "cruns e = cruns d"
    "kb_runs e = update_where (\<lambda>r. ru_id r = at_run a) (\<lambda>r. r\<lparr>ru_dispatched := ru_dispatched r + 1\<rparr>) (kb_runs d)"
    "kb_attempts e = update_where (\<lambda>x. at_id x = at_id a) (\<lambda>x. x\<lparr>at_state := Att_DISPATCHED, at_message := Some m\<rparr>) (kb_attempts d)"
    by (simp_all add: e_def upd_crun_def upd_attempt_def cruns_def map_update_where)
  have "atts_evolve d d'"
    by (rule atts_upd [OF trans [OF _ e(4)]]) (simp add: d' complete_run_rows(1), drule same_attempt [OF st _ a], simp_all add: 2(5))
  moreover have "camps_evolve d d'"
  proof (rule disjE [OF complete_run_campaigns [of "at_run a" e]])
    assume "kb_campaigns (complete_run (at_run a) e) = kb_campaigns e"
    then show ?thesis by (simp add: d' e(1) evolves_same(1) camps_def)
  next
    assume "\<exists>c. find_campaign e (ca_id c) = Some c \<and> ca_state c = Camp_RUNNING \<and>
      kb_campaigns (complete_run (at_run a) e) = update_where (\<lambda>x. ca_id x = ca_id c) (\<lambda>x. x\<lparr>ca_state := Camp_COMPLETED\<rparr>) (kb_campaigns e)"
    then obtain c where c: "find_campaign d (ca_id c) = Some c" "ca_state c = Camp_RUNNING"
      and rows: "kb_campaigns d' = update_where (\<lambda>x. ca_id x = ca_id c) (\<lambda>x. x\<lparr>ca_state := Camp_COMPLETED\<rparr>) (kb_campaigns d)"
      by (auto simp: d' e(1) find_campaign_def)
    show ?thesis by (rule camps_upd [OF rows], drule (1) same_campaign [OF st c(1)]) (simp add: c(2))
  qed
  moreover have "cruns_evolve d d'"
  proof (rule disjE [OF complete_run_rows(2) [of "at_run a" e]])
    assume "kb_runs (complete_run (at_run a) e) = kb_runs e"
    then have "cruns d' = cruns e" by (simp add: d' cruns_def)
    then show ?thesis by (simp add: evolves_same(2) e(2))
  next
    assume *: "(\<exists>run. find_crun e (at_run a) = Some run \<and> ru_state run = Crun_RUNNING) \<and>
      kb_runs (complete_run (at_run a) e) = update_where (\<lambda>r. ru_id r = at_run a) (\<lambda>r. r\<lparr>ru_state := Crun_COMPLETED\<rparr>) (kb_runs e)"
    then obtain run where run: "run \<in> set (kb_runs e)" "ru_id run = at_run a" "ru_state run = Crun_RUNNING" by (auto dest: find_crun_D)
    then have "(at_run a, ru_campaign run, Crun_RUNNING) \<in> set (cruns e)" by (force simp: cruns_def)
    then obtain old where old: "old \<in> set (kb_runs d)" "ru_id old = at_run a" "ru_state old = Crun_RUNNING"
      unfolding e(2) by (auto simp: cruns_def)
    have "(at_id a, at_run a, Att_DISPATCH_AUTHORIZED) \<in> set (atts d)" using a 2(5) by (force simp: atts_def)
    then have move: "crun_move (camps d) (atts d) (at_run a) (ru_campaign old, Crun_RUNNING) (ru_campaign old, Crun_COMPLETED)"
      by (auto simp: crun_move_def)
    have uniq: "r = old" if "r \<in> set (kb_runs d)" "ru_id r = at_run a" for r
      using that old(1,2) struct_inv_D(7) [OF st] by (metis distinct_map_inj)
    show ?thesis
    proof (rule cruns_upd)
      show "map (\<lambda>r. (ru_id r, ru_campaign r, ru_state r)) (kb_runs d') =
        map (\<lambda>r. (ru_id r, ru_campaign r, ru_state r)) (update_where (\<lambda>r. ru_id r = at_run a) (\<lambda>r. r\<lparr>ru_state := Crun_COMPLETED\<rparr>) (kb_runs d))"
        using * by (simp add: d' e(3) update_where_def)
      fix r assume "r \<in> set (kb_runs d)" "ru_id r = at_run a"
      then have "r = old" by (rule uniq)
      then show "ru_id (r\<lparr>ru_state := Crun_COMPLETED\<rparr>) = ru_id r \<and> ru_campaign (r\<lparr>ru_state := Crun_COMPLETED\<rparr>) = ru_campaign r \<and>
        (ru_state (r\<lparr>ru_state := Crun_COMPLETED\<rparr>) = ru_state r \<or>
         crun_move (camps d) (atts d) (ru_id r) (ru_campaign r, ru_state r) (ru_campaign r, ru_state (r\<lparr>ru_state := Crun_COMPLETED\<rparr>)))"
        using move old by simp
    qed
  qed
  ultimately show ?thesis by (simp add: evolves_def)
qed (simp add: same_rows same_views_evolves)


section \<open>Pause, resume and cancellation\<close>

lemma cruns_sel_upd:
  assumes "kb_runs d' = update_where sel (\<lambda>r. g r\<lparr>ru_state := t\<rparr>) (kb_runs d)"
    and "\<And>r. ru_id (g r) = ru_id r \<and> ru_campaign (g r) = ru_campaign r"
    and "\<And>r. sel r \<Longrightarrow> t \<in> set (crun_moves (ru_state r))" and "t \<noteq> Crun_MATERIALIZING" "t \<noteq> Crun_COMPLETED"
  shows "cruns_evolve d d'"
  by (rule cruns_upd_eq [OF assms(1)]) (use assms(2-) in \<open>auto simp: crun_move_def\<close>)

lemma pause_evolves:
  assumes inv: "struct_inv env d" and ok: "transition_campaign_state i Camp_PAUSED reason d = Inr d'"
  shows "evolves d d'"
proof -
  obtain c where c: "find_campaign d i = Some c" "Camp_PAUSED \<in> set (campaign_moves (ca_state c))"
    and rows: "kb_campaigns d' = update_where (\<lambda>c. ca_id c = i)
        (\<lambda>c. c\<lparr>ca_state := Camp_PAUSED, ca_revision := Suc (ca_revision c)\<rparr>) (kb_campaigns d)"
      "kb_runs d' = update_where (\<lambda>r. ru_campaign r = i \<and> (ru_state r = Crun_PENDING_RELEASE \<or> ru_state r = Crun_RUNNING))
        (\<lambda>r. r\<lparr>ru_state := Crun_PAUSED\<rparr>) (kb_runs d)"
      "kb_attempts d' = kb_attempts d"
    using ok by (auto simp: transition_campaign_state_def require_campaign_transition_def Let_def upd_campaign_def)
  have "camps_evolve d d'" by (rule camps_upd [OF rows(1)], drule (1) same_campaign [OF inv c(1)]) (use c(2) in simp)
  moreover have "cruns_evolve d d'" by (rule cruns_sel_upd [OF rows(2)]) auto
  ultimately show ?thesis using rows(3) by (simp add: evolves_defs view_defs)
qed

lemma resume_campaign_evolves:
  assumes inv: "struct_inv env d" and ok: "resume_campaign i d = Inr d'"
  shows "evolves d d'"
proof -
  obtain c where c: "find_campaign d i = Some c" "Camp_RUNNING \<in> set (campaign_moves (ca_state c))"
    and rows: "kb_campaigns d' = update_where (\<lambda>c. ca_id c = i)
        (\<lambda>c. c\<lparr>ca_state := Camp_RUNNING, ca_revision := Suc (ca_revision c)\<rparr>) (kb_campaigns d)"
      "kb_runs d' = update_where (\<lambda>r. ru_campaign r = i \<and> ru_state r = Crun_PAUSED) (\<lambda>r. r\<lparr>ru_state := Crun_RUNNING\<rparr>) (kb_runs d)"
      "kb_attempts d' = kb_attempts d"
    using ok by (auto simp: resume_campaign_def transition_campaign_state_def require_campaign_transition_def Let_def upd_campaign_def)
  have "camps_evolve d d'" by (rule camps_upd [OF rows(1)], drule (1) same_campaign [OF inv c(1)]) (use c(2) in simp)
  moreover have "cruns_evolve d d'" by (rule cruns_sel_upd [OF rows(2)]) auto
  ultimately show ?thesis using rows(3) by (simp add: evolves_defs view_defs)
qed

lemma begin_cancellation_rows:
  assumes "begin_cancellation i d = Inr d'" and "find_campaign d i = Some c" and "ca_state c \<noteq> Camp_CANCELLED"
  shows "ca_state c = Camp_CANCELLING \<or> Camp_CANCELLING \<in> set (campaign_moves (ca_state c))"
    and "kb_campaigns d' = (if ca_state c = Camp_CANCELLING then kb_campaigns d else update_where (\<lambda>c. ca_id c = i)
        (\<lambda>c. c\<lparr>ca_state := Camp_CANCELLING, ca_revision := Suc (ca_revision c)\<rparr>) (kb_campaigns d))"
    and "kb_runs d' = update_where (\<lambda>r. ru_campaign r = i \<and> run_cancellable r)
        (\<lambda>r. r\<lparr>ru_state := Crun_CANCELLING, ru_cancel_complete := False\<rparr>) (kb_runs d)"
    and "kb_attempts d' = kb_attempts d"
  using assms by (auto simp: begin_cancellation_def require_campaign_transition_def Let_def upd_campaign_def split: if_splits)

lemma begin_cancellation_evolves:
  assumes inv: "struct_inv env d" and ok: "begin_cancellation i d = Inr d'"
  shows "evolves d d'"
proof -
  obtain c where c: "find_campaign d i = Some c" using ok by (auto simp: begin_cancellation_def)
  show ?thesis
  proof (cases "ca_state c = Camp_CANCELLED")
    case True
    then show ?thesis using ok c by (simp add: begin_cancellation_def of_option_def same_rows same_views_evolves)
  next
    case False
    note rows = begin_cancellation_rows [OF ok c False]
    have "camps_evolve d d'"
    proof (cases "ca_state c = Camp_CANCELLING")
      case True
      then show ?thesis using rows(2) by (simp add: evolves_same(1) camps_def)
    next
      case False
      then have eq: "kb_campaigns d' = update_where (\<lambda>c. ca_id c = i)
          (\<lambda>c. c\<lparr>ca_state := Camp_CANCELLING, ca_revision := Suc (ca_revision c)\<rparr>) (kb_campaigns d)" using rows(2) by simp
      show ?thesis by (rule camps_upd [OF eq], drule (1) same_campaign [OF inv c]) (use rows(1) False in simp)
    qed
    moreover have "cruns_evolve d d'"
      by (rule cruns_upd_eq [OF rows(3)]) (auto simp: crun_move_def run_cancellable_def)
    ultimately show ?thesis using rows(4) by (simp add: evolves_defs view_defs)
  qed
qed

lemma finish_cancellation_rows:
  "kb_campaigns (finish_cancellation i d) = update_where (\<lambda>c. ca_id c = i) (\<lambda>c. c\<lparr>ca_state := Camp_CANCELLED\<rparr>) (kb_campaigns d)"
  "kb_runs (finish_cancellation i d) = update_where (\<lambda>r. ru_campaign r = i \<and> ru_state r = Crun_CANCELLING)
     (\<lambda>r. r\<lparr>ru_state := Crun_CANCELLED, ru_cancel_complete := True\<rparr>) (kb_runs d)"
  "kb_attempts (finish_cancellation i d) = kb_attempts d"
  by (simp_all add: finish_cancellation_def Let_def upd_campaign_def)

lemma cruns_bump: "cruns (bump b d) = cruns d"
  by (simp add: cruns_def bump_def)

lemma cancel_attempt_batch_evolves:
  assumes inv: "campaign_inv env d" and ok: "cancel_attempt_batch i limit locked d = Inr ((n, fin), d')"
  shows "evolves d d'"
  using ok
proof (cases rule: cancel_attempt_batch_cases)
  case (2 c d1)
  have st: "struct_inv env d" using inv by (simp add: campaign_inv_def)
  let ?b = "take limit (filter (\<lambda>a. at_id a \<notin> set locked) (to_cancel i d))"
  have eff: "kb_attempts d1 = update_where (\<lambda>x. at_id x \<in> at_id ` set ?b) cancelled (kb_attempts d)"
    "kb_runs d1 = kb_runs d" "kb_campaigns d1 = kb_campaigns d" using cancel_attempts_effect [OF 2(3)] by auto
  have att: "kb_attempts d' = update_where (\<lambda>x. at_id x \<in> at_id ` set ?b) cancelled (kb_attempts d)"
    using 2(5) eff(1) by (simp add: finish_cancellation_rows(3))
  have "atts_evolve d d'"
  proof (rule atts_upd [OF att])
    fix a assume a: "a \<in> set (kb_attempts d)" "at_id a \<in> at_id ` set ?b"
    then obtain b where b: "b \<in> set (to_cancel i d)" "at_id a = at_id b" using in_set_takeD by fastforce
    then have "a = b" using same_attempt [OF st a(1)] to_cancel_subset by blast
    then have "attempt_cancellable (at_state a)" using b(1) to_cancel_subset by blast
    then show "at_id (cancelled a) = at_id a \<and> at_run (cancelled a) = at_run a \<and>
      (at_state (cancelled a) = at_state a \<or> at_state (cancelled a) \<in> set (attempt_moves (at_state a)))"
      by (auto simp: attempt_cancellable_def)
  qed
  moreover have "camps_evolve d d' \<and> cruns_evolve d d'"
  proof (cases fin)
    case False
    then have "d' = bump ?b d1" using 2(5) by simp
    then show ?thesis using eff by (simp add: evolves_defs camps_def cruns_bump) (simp add: cruns_def)
  next
    case True
    then have d': "d' = finish_cancellation i (bump ?b d1)" using 2(5) by simp
    have rows: "kb_campaigns d' = update_where (\<lambda>c. ca_id c = i) (\<lambda>c. c\<lparr>ca_state := Camp_CANCELLED\<rparr>) (kb_campaigns d)"
      "map (\<lambda>r. (ru_id r, ru_campaign r, ru_state r)) (kb_runs d') = map (\<lambda>r. (ru_id r, ru_campaign r, ru_state r))
        (update_where (\<lambda>r. ru_campaign r = i \<and> ru_state r = Crun_CANCELLING)
           (\<lambda>r. r\<lparr>ru_state := Crun_CANCELLED, ru_cancel_complete := True\<rparr>) (kb_runs d))"
      by (simp_all add: d' finish_cancellation_rows eff bump_def update_where_def)
    have "camps_evolve d d'" by (rule camps_upd [OF rows(1)], drule (1) same_campaign [OF st 2(1)]) (use 2(2) in simp)
    moreover have "cruns_evolve d d'" by (rule cruns_upd [OF rows(2)]) (auto simp: crun_move_def)
    ultimately show ?thesis ..
  qed
  ultimately show ?thesis by (simp add: evolves_def)
qed (simp add: same_rows same_views_evolves)


section \<open>Every step\<close>

lemma campaign_step_evolves:
  assumes "campaign_step env d d'" and inv: "campaign_inv env d"
  shows "evolves d d'"
proof -
  have st: "struct_inv env d" using inv by (simp add: campaign_inv_def)
  show ?thesis using assms(1)
  proof cases
    case (step_create n draft key name c)
    from step_create(2) obtain d1 where d1: "create_campaign key name draft d = Inr (c, d1)"
      and d': "d' = emit ''campaign.created'' (ca_id c) (Of_campaign (ca_state c)) None None d1" by (rule create_tx_cases)
    show ?thesis by (rule evolves_then_same [OF create_campaign_evolves [OF d1]]) (simp add: d' same_rows)
  next
    case (step_update draft n i expected name c)
    then obtain row where "row \<in> set (kb_campaigns d)" "update_campaign row name draft d = Inr (c, d')"
      by (auto simp: update_tx_def dest: find_campaign_D)
    then show ?thesis by (rule update_campaign_evolves [OF st])
  next
    case (step_prepare refs i p)
    then obtain row where row: "find_campaign d i = Some row" "d' = d \<or> begin_preparation env refs row d = Inr (p, d')"
      by (auto simp: preparation_tx_def split: if_splits)
    from row(2) show ?thesis
      by (elim disjE) (simp add: same_rows same_views_evolves, rule begin_preparation_evolves [OF st row(1)])
  next
    case (step_audience v limit clock s)
    then show ?thesis by (rule same_views_evolves [OF materialize_batch_views])
  next
    case (step_seal v i m now u)
    then obtain d1 where d1: "seal_preparation i v now d = Inr d1" "campaign_event ''campaign.prepared'' i (Some m) d1 = Inr d'"
      by (auto simp: seal_tx_def)
    show ?thesis by (rule evolves_then_same [OF seal_preparation_evolves [OF st d1(1)] campaign_event_views [OF d1(2)]])
  next
    case (step_scheduled_run i p)
    then obtain row run key where "find_campaign d i = Some row" "create_crun row key d = Inr (run, d')" by (auto simp: scheduled_run_tx_def)
    then show ?thesis by (rule create_crun_evolves)
  next
    case (step_schedule i r s u)
    then obtain d1 d2 where d1: "bind_schedule r s d = Inr d1" and d2: "mark_campaign_scheduled i d1 = Inr d2"
      and ev: "campaign_event ''campaign.scheduled'' i None d2 = Inr d'" by (auto simp: schedule_tx_def)
    have "campaign_inv env d1" using same_core_inv [OF inv bind_schedule_core [OF d1]] .
    then have "evolves d1 d2" using mark_campaign_scheduled_evolves d2 by (auto simp: campaign_inv_def)
    moreover have "kb_next d \<le> kb_next d1" using bind_schedule_core [OF d1] by (simp add: same_core_def)
    ultimately have "evolves d d2" using same_then_evolves bind_views(2) [OF d1] by blast
    then show ?thesis by (rule evolves_then_same) (rule campaign_event_views [OF ev])
  next
    case (step_started_run i key p)
    then obtain row run where "find_campaign d i = Some row" "create_crun row key d = Inr (run, d')" by (auto simp: started_run_tx_def)
    then show ?thesis by (rule create_crun_evolves)
  next
    case (step_release_run r w)
    then show ?thesis by (rule same_views_evolves [OF bind_views(1)])
  next
    case (step_bind_release r s oc w v)
    then show ?thesis by (rule same_views_evolves [OF bind_views(3)])
  next
    case (step_activate r)
    then show ?thesis by (rule begin_run_activation_evolves [OF st])
  next
    case (step_attempts r limit n)
    then show ?thesis by (rule materialize_attempt_batch_evolves [OF st])
  next
    case (step_announce t i m)
    then show ?thesis by (rule same_views_evolves [OF campaign_event_views])
  next
    case (step_claim r owner now locked c)
    then obtain d1 where d1: "claim_recipient r owner now locked d = Inr (c, d1)" and "same_views d1 d'"
      by (auto simp: claim_tx_def same_rows split: option.splits)
    from claim_recipient_evolves [OF st d1] this(2) show ?thesis by (rule evolves_then_same)
  next
    case (step_workflow_started c w a)
    then obtain d1 where d1: "mark_workflow_started c w d = Inr (a, d1)" and "same_views d1 d'"
      by (auto simp: workflow_started_tx_def same_rows)
    from mark_workflow_started_evolves [OF st d1] this(2) show ?thesis by (rule evolves_then_same)
  next
    case (step_workflow_completed c a)
    then show ?thesis by (rule mark_workflow_completed_evolves [OF st])
  next
    case (step_authorize c clock out)
    show ?thesis by (rule authorize_permit_evolves [OF inv step_authorize(2)])
  next
    case (step_dispatched p r a m now q)
    then obtain d1 where d1: "consume_permit (pm_id p) (pm_token p) m now d = Inr (q, d1)" and "same_views d1 d'"
      by (elim dispatched_tx_cases) (simp add: same_rows)
    from consume_permit_evolves [OF inv d1] this(2) show ?thesis by (rule evolves_then_same)
  next
    case (step_pause i u)
    then obtain d1 where d1: "transition_campaign_state i Camp_PAUSED ''CAMPAIGN_PAUSED'' d = Inr d1"
      "campaign_event ''campaign.paused'' i None d1 = Inr d'" by (auto simp: pause_tx_def)
    show ?thesis by (rule evolves_then_same [OF pause_evolves [OF st d1(1)] campaign_event_views [OF d1(2)]])
  next
    case (step_resume i u)
    then obtain d1 where d1: "resume_campaign i d = Inr d1" "campaign_event ''campaign.resumed'' i None d1 = Inr d'"
      by (auto simp: resume_tx_def)
    show ?thesis by (rule evolves_then_same [OF resume_campaign_evolves [OF st d1(1)] campaign_event_views [OF d1(2)]])
  next
    case (step_begin_cancel i)
    then show ?thesis by (rule begin_cancellation_evolves [OF st])
  next
    case (step_cancel i limit locked o1)
    then show ?thesis by (cases o1) (auto intro: cancel_attempt_batch_evolves [OF inv])
  next
    case (step_preference pq n)
    then have "same_views d d'" by (auto simp: set_preference_def Let_def intro!: same_rows split: option.splits)
    then show ?thesis by (rule same_views_evolves)
  next
    case (step_suppression sq n)
    then have "same_views d d'"
      unfolding add_suppression_def Let_def split_beta by (auto intro!: same_rows)
    then show ?thesis by (rule same_views_evolves)
  next
    case (step_customers cus ids cns)
    then show ?thesis by (simp add: same_rows same_views_evolves)
  qed
qed


section \<open>Following one row\<close>

lemma view_ids:
  assumes "struct_inv env d"
  shows "distinct (map fst (camps d))" "distinct (map fst (cruns d))" "distinct (map fst (atts d))"
    and "(i, s) \<in> set (camps d) \<Longrightarrow> i < kb_next d" and "(i, r) \<in> set (cruns d) \<Longrightarrow> i < kb_next d"
    and "(i, a) \<in> set (atts d) \<Longrightarrow> i < kb_next d"
  using struct_inv_D(1,7,9) [OF assms] struct_inv_fresh [OF assms] by (auto simp: view_defs comp_def)

lemma evolve_forward:
  assumes ev: "evolve new move X Y" and x: "(i, x) \<in> set X" and dist: "distinct (map fst X)" and old: "\<And>y. \<not> new i y"
  shows "\<exists>y. (i, y) \<in> set Y \<and> (y = x \<or> move i x y)"
proof -
  have "i \<in> fst ` set Y" using ev x unfolding evolve_def by force
  then obtain y where y: "(i, y) \<in> set Y" by auto
  with ev old obtain x' where x': "(i, x') \<in> set X" "y = x' \<or> move i x' y" unfolding evolve_def by blast
  moreover have "x' = x" using distinct_map_inj [OF dist x'(1) x] by simp
  ultimately show ?thesis using y by blast
qed

text \<open>The states that a row may take over a sequence of steps.\<close>

abbreviation campaign_path :: "campaign_state \<Rightarrow> campaign_state \<Rightarrow> bool" where
  "campaign_path \<equiv> (\<lambda>s t. t \<in> set (campaign_moves s))\<^sup>*\<^sup>*"

abbreviation crun_path :: "crun_state \<Rightarrow> crun_state \<Rightarrow> bool" where
  "crun_path \<equiv> (\<lambda>s t. t \<in> set (crun_moves s))\<^sup>*\<^sup>*"

abbreviation attempt_path :: "attempt_state \<Rightarrow> attempt_state \<Rightarrow> bool" where
  "attempt_path \<equiv> (\<lambda>s t. t \<in> set (attempt_moves s))\<^sup>*\<^sup>*"

lemma steps_follow:
  assumes steps: "(campaign_step env)\<^sup>*\<^sup>* d d'" and inv: "campaign_inv env d"
  shows "(i, s) \<in> set (camps d) \<Longrightarrow> \<exists>t. (i, t) \<in> set (camps d') \<and> campaign_path s t"
    and "(i, c, u) \<in> set (cruns d) \<Longrightarrow> \<exists>w. (i, c, w) \<in> set (cruns d') \<and> crun_path u w"
    and "(i, r, a) \<in> set (atts d) \<Longrightarrow> \<exists>b. (i, r, b) \<in> set (atts d') \<and> attempt_path a b"
  using steps
proof (induction rule: rtranclp_induct)
  case (step e e')
  have ie: "campaign_inv env e" using campaign_sys.steps_inv [OF step.hyps(1) inv] .
  have ev: "evolves e e'" by (rule campaign_step_evolves [OF step.hyps(2) ie])
  have st: "struct_inv env e" using ie by (simp add: campaign_inv_def)
  note ids = view_ids [OF st]
  {
    case 1
    then obtain t where t: "(i, t) \<in> set (camps e)" "campaign_path s t" using step.IH(1) by blast
    have "\<exists>y. (i, y) \<in> set (camps e') \<and> (y = t \<or> y \<in> set (campaign_moves t))"
      by (rule evolve_forward [OF _ t(1) ids(1)]) (use ev ids(4) [OF t(1)] in \<open>auto simp: evolves_defs\<close>)
    with t(2) show ?case by (meson rtranclp.rtrancl_into_rtrancl)
  next
    case 2
    then obtain w where w: "(i, c, w) \<in> set (cruns e)" "crun_path u w" using step.IH(2) by blast
    have "\<exists>y. (i, y) \<in> set (cruns e') \<and> (y = (c, w) \<or> crun_move (camps e) (atts e) i (c, w) y)"
      by (rule evolve_forward [OF _ w(1) ids(2)]) (use ev ids(5) [OF w(1)] in \<open>auto simp: evolves_defs\<close>)
    then obtain c' w' where "(i, c', w') \<in> set (cruns e')" "c' = c" "w' = w \<or> w' \<in> set (crun_moves w)"
      by (auto simp: crun_move_def)
    with w(2) show ?case by (metis rtranclp.rtrancl_into_rtrancl)
  next
    case 3
    then obtain b where b: "(i, r, b) \<in> set (atts e)" "attempt_path a b" using step.IH(3) by blast
    have "\<exists>y. (i, y) \<in> set (atts e') \<and> (y = (r, b) \<or> attempt_move i (r, b) y)"
      by (rule evolve_forward [OF _ b(1) ids(3)]) (use ev ids(6) [OF b(1)] in \<open>auto simp: evolves_defs\<close>)
    then obtain r' b' where "(i, r', b') \<in> set (atts e')" "r' = r" "b' = b \<or> b' \<in> set (attempt_moves b)"
      by (auto simp: attempt_move_def)
    with b(2) show ?case by (metis rtranclp.rtrancl_into_rtrancl)
  }
qed auto

text \<open>A run whose attempts are all over stays as it is: only a dispatch completes a run.\<close>

definition run_spent :: "uuid \<Rightarrow> campaign_db \<Rightarrow> bool" where
  "run_spent i d \<longleftrightarrow> i \<in> fst ` set (cruns d) \<and>
     (\<forall>c s. (i, c, s) \<in> set (cruns d) \<longrightarrow> s \<noteq> Crun_PENDING_RELEASE \<and> s \<noteq> Crun_MATERIALIZING \<and> s \<noteq> Crun_COMPLETED) \<and>
     (\<forall>k s. (k, i, s) \<in> set (atts d) \<longrightarrow> attempt_over s)"

lemma run_spent_step:
  assumes st: "struct_inv env d" and ev: "evolves d d'" and spent: "run_spent i d"
  shows "run_spent i d'"
proof -
  have old: "\<not> kb_next d \<le> i" using spent view_ids(5) [OF st] unfolding run_spent_def by fastforce
  have none: "\<not> (\<exists>k. (k, i, Att_DISPATCH_AUTHORIZED) \<in> set (atts d))"
    using spent by (auto simp: run_spent_def attempt_over_def)
  have "s \<noteq> Crun_PENDING_RELEASE \<and> s \<noteq> Crun_MATERIALIZING \<and> s \<noteq> Crun_COMPLETED" if s: "(i, c, s) \<in> set (cruns d')" for c s
  proof -
    obtain x where x: "(i, x) \<in> set (cruns d)" "(c, s) = x \<or> crun_move (camps d) (atts d) i x (c, s)"
      using ev s old unfolding evolves_defs evolve_def by fastforce
    obtain c0 s0 where x0: "x = (c0, s0)" by (cases x)
    then have "s0 \<noteq> Crun_PENDING_RELEASE \<and> s0 \<noteq> Crun_MATERIALIZING \<and> s0 \<noteq> Crun_COMPLETED"
      using x(1) spent unfolding run_spent_def by blast
    with x(2) x0 none show ?thesis by (cases s0) (auto simp: crun_move_def)
  qed
  moreover have "attempt_over s" if s: "(k, i, s) \<in> set (atts d')" for k s
  proof -
    have "\<nexists>c. (i, c, Crun_MATERIALIZING) \<in> set (cruns d)" using spent unfolding run_spent_def by blast
    then obtain x where x: "(k, x) \<in> set (atts d)" "(i, s) = x \<or> attempt_move k x (i, s)"
      using ev s unfolding evolves_defs evolve_def by fastforce
    obtain r0 s0 where x0: "x = (r0, s0)" by (cases x)
    then have "r0 = i" using x(2) by (auto simp: attempt_move_def)
    with x(1) x0 have "attempt_over s0" using spent unfolding run_spent_def by blast
    with x(2) x0 show ?thesis by (cases s0) (auto simp: attempt_move_def attempt_over_def)
  qed
  moreover have "i \<in> fst ` set (cruns d')" using spent ev unfolding run_spent_def evolves_defs evolve_def by blast
  ultimately show ?thesis unfolding run_spent_def by blast
qed

end
