(* ===== verification/Campaign_Behaviour.thy ===== *)
theory Campaign_Behaviour
  imports Campaign_Evolution
begin

text \<open>
  What the operations do together: a permit is granted only to a recipient that may be
  contacted, the permits of a run match its counters, repeated cancellation shuts a campaign
  down, a recipient has one attempt in a run, and rows keep their ids along any sequence of steps.
\<close>

section \<open>Eligibility\<close>

text \<open>
  What a recipient must have for a message of a campaign: an active customer, an active
  identity of the right kind, an open conversation of the channel, recorded consent that was not
  withdrawn and no suppression in force.
\<close>

definition contactable :: "campaign_db \<Rightarrow> uuid \<Rightarrow> recipient_row \<Rightarrow> bool" where
  "contactable d campaign r \<longleftrightarrow>
     (\<exists>cu \<in> set (kb_customers d). cu_id cu = rp_customer r \<and> cu_status cu = ''ACTIVE'') \<and>
     (\<exists>ci \<in> set (kb_identities d). ci_id ci = rp_identity r \<and> ci_customer ci = rp_customer r \<and> ci_status ci = ''ACTIVE'' \<and>
        ci_type ci = (if rp_channel r = Chan_EMAIL then ''EMAIL'' else ''PHONE'')) \<and>
     (\<exists>cn \<in> set (kb_conversations d). cn_id cn = rp_conversation r \<and> cn_customer cn = rp_customer r \<and>
        cn_status cn \<noteq> ''CLOSED'' \<and> py_upper (cn_channel cn) = msg_channel_value (rp_channel r)) \<and>
     (\<exists>pf \<in> set (kb_preferences d). pf_identity pf = rp_identity r \<and> pf_channel pf = rp_channel r \<and>
        pf_consent pf \<and> \<not> pf_unsubscribed pf \<and> \<not> pf_do_not_contact pf) \<and>
     (\<nexists>s. s \<in> set (kb_suppressions d) \<and> suppression_matches campaign (rp_customer r) (rp_identity r) (rp_channel r) s)"

lemma eligibility_sound:
  assumes "eligibility env now campaign (rp_customer r) (rp_identity r) (rp_conversation r) (rp_channel r) quiet d =
      ((El_ELIGIBLE, next_at, consent, epoch, dest), d1)"
  shows "contactable d campaign r" and "quiet_hours_next (en_zones env) now quiet = None"
proof -
  let ?cu = "find (\<lambda>x. cu_id x = rp_customer r) (kb_customers d)"
  let ?ci = "find (\<lambda>x. ci_id x = rp_identity r \<and> ci_customer x = rp_customer r) (kb_identities d)"
  let ?cn = "find (\<lambda>x. cn_id x = rp_conversation r \<and> cn_customer x = rp_customer r) (kb_conversations d)"
  let ?pf = "find (\<lambda>x. pf_identity x = rp_identity r \<and> pf_channel x = rp_channel r) (kb_preferences d)"
  let ?su = "find (suppression_matches campaign (rp_customer r) (rp_identity r) (rp_channel r)) (kb_suppressions d)"
  note el = assms [unfolded eligibility_def Let_def split_beta]
  obtain cu where cu: "?cu = Some cu" "cu_status cu = ''ACTIVE''"
    using el by (auto split: if_splits option.splits)
  obtain ci where ci: "?ci = Some ci" "ci_status ci = ''ACTIVE''" "ci_type ci = (if rp_channel r = Chan_EMAIL then ''EMAIL'' else ''PHONE'')"
    using el cu by (auto split: if_splits option.splits)
  obtain cn where cn: "?cn = Some cn" "cn_status cn \<noteq> ''CLOSED''" "py_upper (cn_channel cn) = msg_channel_value (rp_channel r)"
    using el cu ci by (auto split: if_splits option.splits)
  obtain pf where pf: "?pf = Some pf" "pf_consent pf" "\<not> pf_unsubscribed pf" "\<not> pf_do_not_contact pf"
    using el cu ci cn by (auto split: if_splits option.splits)
  have su: "?su = None" and q: "quiet_hours_next (en_zones env) now quiet = None"
    using el cu ci cn pf by (auto split: if_splits option.splits)
  show "quiet_hours_next (en_zones env) now quiet = None" by (rule q)
  show "contactable d campaign r"
    unfolding contactable_def
    using cu find_Some_D [OF cu(1)] ci find_Some_D [OF ci(1)] cn find_Some_D [OF cn(1)] pf find_Some_D [OF pf(1)] find_None_D [OF su]
    by blast
qed


section \<open>Permits\<close>

lemma reserve_throttle_limit:
  "reserve_throttle run ch policy now d = Inr d' \<Longrightarrow> ru_authorized run < tp_campaign_limit policy"
  by (auto simp: reserve_throttle_def Let_def)

text \<open>A permit is only handed out new: an attempt that is ready to send has none.\<close>

lemma authorize_permit_granted:
  assumes inv: "campaign_inv env d" and ok: "authorize_permit env c clock d = Inr (Inl p, d')"
  obtains run campaign a recipient v consent epoch dest d1 d2 where
    "find_crun d (ru_id (cl_run c)) = Some run" "ru_state run = Crun_RUNNING"
    "find_campaign d (ru_campaign run) = Some campaign" "ca_state campaign = Camp_RUNNING"
    "owned_attempt c Att_READY_TO_SEND d = Inr a" "find_recipient d (at_recipient a) = Some recipient"
    "find_revision d (ru_revision run) = Some v"
    "eligibility env (pk_eligibility clock) (ca_id campaign) (rp_customer recipient) (rp_identity recipient)
       (rp_conversation recipient) (rp_channel recipient) (dr_quiet (cv_spec v)) d = ((El_ELIGIBLE, None, consent, epoch, dest), d1)"
    "reserve_throttle run (rp_channel recipient) (dr_throttle (cv_spec v)) (pk_throttle clock) d1 = Inr d2"
    "grant_send (ru_id run) a (pk_permit clock) consent epoch d2 = Inr (p, d')" "kb_permits d2 = kb_permits d" "kb_next d2 = kb_next d"
  using ok
proof (cases rule: authorize_permit_cases)
  case (1 run campaign a recipient v reason next_at consent epoch dest d1)
  note a = owned_attempt_D [OF 1(5)]
  have d1: "d1 = snd (policy_epoch (rp_channel recipient) d)" using eligibility_db 1(8) by (metis snd_conv)
  from 1(9) obtain d2 where reason: "reason = El_ELIGIBLE"
    and res: "reserve_throttle run (rp_channel recipient) (dr_throttle (cv_spec v)) (pk_throttle clock) d1 = Inr d2"
    and cs: "case find (\<lambda>p. pm_attempt p = at_id a) (kb_permits d2) of Some q \<Rightarrow> p = q \<and> d' = d2
       | None \<Rightarrow> \<exists>q. grant_send (ru_id run) a (pk_permit clock) consent epoch d2 = Inr (q, d') \<and> p = q" by (auto cong: option.case_cong)
  have same: "kb_permits d2 = kb_permits d" "kb_next d2 = kb_next d"
    using reserve_throttle_sel [OF res] by (simp_all add: d1)
  have "\<not> sending a" using a(3) by (simp add: sending_def)
  from no_permit [OF inv a(1) this] have "find (\<lambda>p. pm_attempt p = at_id a) (kb_permits d2) = None"
    unfolding same by (auto simp: find_None_iff)
  with cs have grant: "grant_send (ru_id run) a (pk_permit clock) consent epoch d2 = Inr (p, d')" by auto
  have "next_at = None"
    using 1(8) unfolding reason eligibility_def Let_def split_beta by (auto split: if_splits option.splits)
  with 1(8) reason show thesis using that [OF 1(1-7) _ res grant same] by simp
qed

lemma grant_send_permit:
  assumes "grant_send i a now consent epoch d = Inr (p, d')"
  shows "kb_permits d' = kb_permits d @ [p]" "pm_attempt p = at_id a" "pm_state p = Perm_AUTHORIZED" "pm_p09 p = at_p09 a"
    "pm_id p = kb_next d" "pm_consent_epoch p = consent" "pm_suppression_epoch p = epoch"
  using assms by (auto simp: grant_send_def Let_def)


section \<open>Budgets\<close>

text \<open>The permits of the attempts of a run.\<close>

definition run_permits :: "uuid \<Rightarrow> campaign_db \<Rightarrow> permit_row list" where
  "run_permits i d =
     filter (\<lambda>p. list_ex (\<lambda>a. at_id a = pm_attempt p \<and> at_run a = i) (kb_attempts d)) (kb_permits d)"

lemma length_by_key:
  assumes "distinct (map f xs)" and "distinct (map g ys)" and "f ` set xs = g ` set ys"
  shows "length xs = length ys"
  using distinct_card [OF assms(1)] distinct_card [OF assms(2)] assms(3) by simp

lemma permit_counts:
  assumes inv: "campaign_inv env d" and q: "\<And>p a. permit_matches p a \<Longrightarrow> q p \<longleftrightarrow> t a" and t: "\<And>a. t a \<Longrightarrow> sending a"
  shows "length (filter q (run_permits i d)) = length (filter (\<lambda>a. at_run a = i \<and> t a) (kb_attempts d))"
proof -
  have st: "struct_inv env d" and ok: "permits_ok (kb_permits d) (kb_attempts d) (kb_next d)"
    using inv by (auto simp: campaign_inv_def exec_inv_def exec_ok_def)
  have match: "permit_matches p a" if "p \<in> set (kb_permits d)" "a \<in> set (kb_attempts d)" "at_id a = pm_attempt p" for p a
    using ok that same_attempt [OF st] unfolding permits_ok_def by metis
  show ?thesis
  proof (rule length_by_key)
    show "distinct (map pm_attempt (filter q (run_permits i d)))"
      using ok by (simp add: run_permits_def permits_ok_def distinct_map_filter)
    show "distinct (map at_id (filter (\<lambda>a. at_run a = i \<and> t a) (kb_attempts d)))"
      using struct_inv_D(9) [OF st] by (rule distinct_map_filter)
    show "pm_attempt ` set (filter q (run_permits i d)) = at_id ` set (filter (\<lambda>a. at_run a = i \<and> t a) (kb_attempts d))"
    proof (intro set_eqI iffI)
      fix k assume "k \<in> pm_attempt ` set (filter q (run_permits i d))"
      then obtain p a where "p \<in> set (kb_permits d)" "q p" "a \<in> set (kb_attempts d)" "at_id a = pm_attempt p" "at_run a = i" "k = pm_attempt p"
        by (auto simp: run_permits_def list_ex_iff)
      then show "k \<in> at_id ` set (filter (\<lambda>a. at_run a = i \<and> t a) (kb_attempts d))" using match q by force
    next
      fix k assume "k \<in> at_id ` set (filter (\<lambda>a. at_run a = i \<and> t a) (kb_attempts d))"
      then obtain a where a: "a \<in> set (kb_attempts d)" "at_run a = i" "t a" "k = at_id a" by auto
      then obtain p where "p \<in> set (kb_permits d)" "pm_attempt p = at_id a"
        using t ok unfolding permits_ok_def by force
      with a show "k \<in> pm_attempt ` set (filter q (run_permits i d))"
        using match q by (force simp: run_permits_def list_ex_iff)
    qed
  qed
qed

lemma run_permit_counts:
  assumes inv: "campaign_inv env d" and r: "find_crun d i = Some r"
  shows "int (length (run_permits i d)) = ru_authorized r"
    and "int (length (filter (\<lambda>p. pm_state p = Perm_CONSUMED) (run_permits i d))) = ru_dispatched r"
proof -
  have id: "ru_id r = i" and ok: "counts_ok (kb_attempts d) r"
    using inv find_crun_D [OF r] by (auto simp: campaign_inv_def exec_inv_def exec_ok_def)
  have "length (filter (\<lambda>_. True) (run_permits i d)) = length (filter (\<lambda>a. at_run a = i \<and> sending a) (kb_attempts d))"
    by (rule permit_counts [OF inv]) (auto simp: permit_matches_def sending_def)
  then show "int (length (run_permits i d)) = ru_authorized r" using ok id by (simp add: counts_ok_def tally_def)
  have "length (filter (\<lambda>p. pm_state p = Perm_CONSUMED) (run_permits i d)) =
      length (filter (\<lambda>a. at_run a = i \<and> at_state a = Att_DISPATCHED) (kb_attempts d))"
    by (rule permit_counts [OF inv]) (auto simp: permit_matches_def sending_def)
  then show "int (length (filter (\<lambda>p. pm_state p = Perm_CONSUMED) (run_permits i d))) = ru_dispatched r"
    using ok id by (simp add: counts_ok_def tally_def)
qed

section \<open>Cancellation ends\<close>

fun cancel_repeat :: "nat \<Rightarrow> uuid \<Rightarrow> campaign_db \<Rightarrow> campaign_db" where
  "cancel_repeat 0 i d = d"
| "cancel_repeat (Suc k) i d = cancel_repeat k i (snd (cancel_campaign [] i d))"

text \<open>The attempts of the campaign's runs that could still be cancelled.\<close>

definition open_attempts :: "uuid \<Rightarrow> campaign_db \<Rightarrow> attempt_row list" where
  "open_attempts i d =
     filter (\<lambda>a. attempt_cancellable (at_state a) \<and> list_ex (\<lambda>r. ru_id r = at_run a \<and> ru_campaign r = i) (kb_runs d)) (kb_attempts d)"

definition shutting_down :: "uuid \<Rightarrow> campaign_db \<Rightarrow> bool" where
  "shutting_down i d \<longleftrightarrow> (\<exists>c. find_campaign d i = Some c \<and> ca_state c = Camp_CANCELLING) \<and>
     (\<forall>r \<in> set (kb_runs d). ru_campaign r = i \<longrightarrow> \<not> run_cancellable r)"

definition shut_down :: "uuid \<Rightarrow> campaign_db \<Rightarrow> bool" where
  "shut_down i d \<longleftrightarrow> (\<exists>c. find_campaign d i = Some c \<and> ca_state c = Camp_CANCELLED) \<and>
     (\<forall>r \<in> set (kb_runs d). ru_campaign r = i \<longrightarrow> \<not> run_cancellable r \<and> ru_state r \<noteq> Crun_CANCELLING)"

lemma find_campaign_upd:
  "find_campaign d i = Some c \<Longrightarrow> (\<And>c. ca_id (f c) = ca_id c) \<Longrightarrow>
     kb_campaigns d' = update_where (\<lambda>c. ca_id c = i) f (kb_campaigns d) \<Longrightarrow> find_campaign d' i = Some (f c)"
proof -
  have "find (\<lambda>c. ca_id c = i) (update_where (\<lambda>c. ca_id c = i) f xs) = map_option f (find (\<lambda>c. ca_id c = i) xs)"
    if "\<And>c. ca_id (f c) = ca_id c" for xs
    using that by (induction xs) (auto simp: update_where_def)
  then show "find_campaign d i = Some c \<Longrightarrow> (\<And>c. ca_id (f c) = ca_id c) \<Longrightarrow>
     kb_campaigns d' = update_where (\<lambda>c. ca_id c = i) f (kb_campaigns d) \<Longrightarrow> find_campaign d' i = Some (f c)"
    by (simp add: find_campaign_def)
qed


lemma length_filter_imp: "(\<And>x. P x \<Longrightarrow> Q x) \<Longrightarrow> length (filter P xs) \<le> length (filter Q xs)"
  by (induction xs) auto

lemma begin_cancellation_shutting_down:
  assumes c: "find_campaign d i = Some c" "ca_state c = Camp_CANCELLING \<or> Camp_CANCELLING \<in> set (campaign_moves (ca_state c))"
  shows "\<exists>d1. begin_cancellation i d = Inr d1 \<and> shutting_down i d1 \<and> length (to_cancel i d1) \<le> length (open_attempts i d)"
proof -
  have ne: "ca_state c \<noteq> Camp_CANCELLED" using c(2) by auto
  then have "\<exists>d1. begin_cancellation i d = Inr d1"
    using c by (cases "ca_state c = Camp_CANCELLING")
      (simp_all add: begin_cancellation_def of_option_def require_campaign_transition_def checkE_def Let_def)
  then obtain d1 where d1: "begin_cancellation i d = Inr d1" ..
  note rows = begin_cancellation_rows [OF d1 c(1) ne]
  have camp: "\<exists>c. find_campaign d1 i = Some c \<and> ca_state c = Camp_CANCELLING"
  proof (cases "ca_state c = Camp_CANCELLING")
    case True
    then show ?thesis using c(1) rows(2) by (simp add: find_campaign_def)
  next
    case False
    define f :: "campaign_row \<Rightarrow> campaign_row" where "f = (\<lambda>c. c\<lparr>ca_state := Camp_CANCELLING, ca_revision := Suc (ca_revision c)\<rparr>)"
    have eq: "kb_campaigns d1 = update_where (\<lambda>c. ca_id c = i) f (kb_campaigns d)" unfolding f_def using rows(2) False by presburger
    have "find_campaign d1 i = Some (f c)" by (rule find_campaign_upd [OF c(1) _ eq]) (simp add: f_def)
    then show ?thesis by (simp add: f_def)
  qed
  have old: "\<exists>x \<in> set (kb_runs d). ru_id r = ru_id x \<and> ru_campaign r = ru_campaign x \<and> \<not> (ru_campaign x = i \<and> run_cancellable r)"
    if r: "r \<in> set (kb_runs d1)" for r
  proof -
    obtain x where x: "x \<in> set (kb_runs d)"
      "r = (if ru_campaign x = i \<and> run_cancellable x then x\<lparr>ru_state := Crun_CANCELLING, ru_cancel_complete := False\<rparr> else x)"
      using r unfolding rows(3) set_update_where by (elim imageE)
    have "ru_id r = ru_id x \<and> ru_campaign r = ru_campaign x \<and> \<not> (ru_campaign x = i \<and> run_cancellable r)"
    proof (cases "ru_campaign x = i \<and> run_cancellable x")
      case True
      then have "r = x\<lparr>ru_state := Crun_CANCELLING, ru_cancel_complete := False\<rparr>" using x(2) by presburger
      then show ?thesis by (simp add: run_cancellable_def)
    next
      case False
      then have "r = x" using x(2) by presburger
      with False show ?thesis by simp
    qed
    then show ?thesis using x(1) by blast
  qed
  have "length (to_cancel i d1) \<le> length (open_attempts i d)"
    unfolding to_cancel_def open_attempts_def rows(4) list_ex_iff
  proof (rule length_filter_imp)
    fix a assume a: "attempt_cancellable (at_state a) \<and>
      (\<exists>r \<in> set (kb_runs d1). ru_id r = at_run a \<and> ru_campaign r = i \<and> ru_state r = Crun_CANCELLING)"
    then obtain r where r: "r \<in> set (kb_runs d1)" "ru_id r = at_run a" "ru_campaign r = i" by blast
    obtain x where "x \<in> set (kb_runs d)" "ru_id r = ru_id x" "ru_campaign r = ru_campaign x" using old [OF r(1)] by blast
    with r have "\<exists>r \<in> set (kb_runs d). ru_id r = at_run a \<and> ru_campaign r = i" by (intro bexI [of _ x]) simp_all
    with a show "attempt_cancellable (at_state a) \<and> (\<exists>r \<in> set (kb_runs d). ru_id r = at_run a \<and> ru_campaign r = i)" by blast
  qed
  moreover have "\<not> run_cancellable r" if "r \<in> set (kb_runs d1)" "ru_campaign r = i" for r
    using old [OF that(1)] that(2) by (elim bexE) simp
  ultimately show ?thesis using d1 camp unfolding shutting_down_def by (intro exI [of _ d1] conjI ballI impI) simp_all
qed

lemma begin_cancellation_again:
  assumes "shutting_down i d"
  shows "begin_cancellation i d = Inr d"
proof -
  have none: "\<not> (ru_campaign r = i \<and> run_cancellable r)" if "r \<in> set (kb_runs d)" for r using assms that by (auto simp: shutting_down_def)
  then have "filter (\<lambda>r. ru_campaign r = i \<and> run_cancellable r) (kb_runs d) = []" by (simp add: filter_empty_conv)
  moreover have "update_where (\<lambda>r. ru_campaign r = i \<and> run_cancellable r) f (kb_runs d) = kb_runs d" for f
    by (rule update_where_id) (use none in blast)
  ultimately show ?thesis
    using assms by (auto simp: shutting_down_def begin_cancellation_def of_option_def Let_def note_runs_def)
qed

lemma finish_shut_down:
  assumes c: "find_campaign d i = Some c" and runs: "\<And>r. r \<in> set (kb_runs d) \<Longrightarrow> ru_campaign r = i \<Longrightarrow> \<not> run_cancellable r"
  shows "shut_down i (finish_cancellation i d)"
proof -
  define f :: "campaign_row \<Rightarrow> campaign_row" where "f = (\<lambda>c. c\<lparr>ca_state := Camp_CANCELLED\<rparr>)"
  have "find_campaign (finish_cancellation i d) i = Some (f c)"
    by (rule find_campaign_upd [OF c _ finish_cancellation_rows(1) [folded f_def]]) (simp add: f_def)
  moreover have "\<not> run_cancellable r \<and> ru_state r \<noteq> Crun_CANCELLING"
    if r: "r \<in> set (kb_runs (finish_cancellation i d))" "ru_campaign r = i" for r
  proof -
    obtain x where x: "x \<in> set (kb_runs d)" "r = (if ru_campaign x = i \<and> ru_state x = Crun_CANCELLING
        then x\<lparr>ru_state := Crun_CANCELLED, ru_cancel_complete := True\<rparr> else x)"
      using r(1) unfolding finish_cancellation_rows(2) set_update_where by (elim imageE)
    show ?thesis
    proof (cases "ru_campaign x = i \<and> ru_state x = Crun_CANCELLING")
      case True
      then have "r = x\<lparr>ru_state := Crun_CANCELLED, ru_cancel_complete := True\<rparr>" using x(2) by presburger
      then show ?thesis by (simp add: run_cancellable_def)
    next
      case False
      then have "r = x" using x(2) by presburger
      with False x(1) r(2) runs show ?thesis by simp
    qed
  qed
  ultimately show ?thesis by (simp add: shut_down_def f_def)
qed

lemma cancel_batch_shutting_down:
  assumes inv: "campaign_inv env d" and cl: "shutting_down i d"
  shows "\<exists>out d1. cancel_attempt_batch i CANCELLATION_BATCH [] d = Inr (out, d1) \<and>
    (if length (to_cancel i d) \<le> CANCELLATION_BATCH then shut_down i d1
     else shutting_down i d1 \<and> length (to_cancel i d1) = length (to_cancel i d) - CANCELLATION_BATCH)"
proof -
  obtain c where c: "find_campaign d i = Some c" "ca_state c = Camp_CANCELLING" using cl by (auto simp: shutting_down_def)
  let ?b = "take CANCELLATION_BATCH (to_cancel i d)" and ?rest = "drop CANCELLATION_BATCH (to_cancel i d)"
  obtain d0 where d0: "kb_runs d0 = kb_runs d" "kb_campaigns d0 = kb_campaigns d" "to_cancel i (bump ?b d0) = ?rest"
    "cancel_attempt_batch i CANCELLATION_BATCH [] d =
       Inr ((length ?b, ?rest = []), if ?rest = [] then finish_cancellation i (bump ?b d0) else bump ?b d0)"
    by (rule cancel_batch_progress [OF inv c, of CANCELLATION_BATCH]) simp
  have camp: "find_campaign (bump ?b d0) i = Some c" using c(1) d0(2) by (simp add: find_campaign_def)
  have runs: "\<not> run_cancellable r" if "r \<in> set (kb_runs (bump ?b d0))" "ru_campaign r = i" for r
  proof -
    have "r \<in> (\<lambda>r. r\<lparr>ru_cancel_count := ru_cancel_count r + int (length (filter (\<lambda>a. at_run a = ru_id r) ?b))\<rparr>) ` set (kb_runs d)"
      using that(1) by (simp add: bump_def d0(1))
    then obtain x where x: "x \<in> set (kb_runs d)" "ru_campaign x = ru_campaign r" "ru_state x = ru_state r" by (elim imageE) simp
    then have "\<not> run_cancellable x" using cl that(2) unfolding shutting_down_def by simp
    with x(3) show ?thesis by (simp add: run_cancellable_def)
  qed
  show ?thesis
  proof (cases "length (to_cancel i d) \<le> CANCELLATION_BATCH")
    case True
    have "shut_down i (finish_cancellation i (bump ?b d0))" by (rule finish_shut_down [OF camp runs])
    then show ?thesis using True d0(4) by auto
  next
    case False
    have "shutting_down i (bump ?b d0)" unfolding shutting_down_def using camp c(2) runs by blast
    then show ?thesis using False d0(3,4) by auto
  qed
qed

lemma shut_down_event:
  assumes "shut_down i d"
  shows "\<exists>d1. campaign_event t i m d = Inr d1 \<and> shut_down i d1"
proof -
  obtain c where c: "find_campaign d i = Some c" using assms by (auto simp: shut_down_def)
  then have "campaign_event t i m d = Inr (emit t i (Of_campaign (ca_state c)) None m d)"
    by (simp add: campaign_event_def of_option_def)
  moreover have "shut_down i (emit t i (Of_campaign (ca_state c)) None m d)" using assms by (simp add: shut_down_def find_campaign_def)
  ultimately show ?thesis by blast
qed


lemma cancel_call_shut_down:
  assumes "shut_down i d"
  shows "shut_down i (snd (cancel_campaign [] i d))"
proof -
  obtain c where c: "find_campaign d i = Some c" "ca_state c = Camp_CANCELLED" using assms by (auto simp: shut_down_def)
  obtain d1 where "campaign_event ''campaign.cancelled'' i None d = Inr d1" "shut_down i d1" using shut_down_event [OF assms] by blast
  with c show ?thesis
    by (simp add: cancel_campaign_def seqA_def tx_def unit_tx_def begin_cancellation_def of_option_def readA_def okA_def)
qed

lemma cancel_call_shutting_down:
  assumes inv: "campaign_inv env d1" and b: "begin_cancellation i d = Inr d1" and cl: "shutting_down i d1"
  shows "if length (to_cancel i d1) \<le> CANCELLATION_BATCH then shut_down i (snd (cancel_campaign [] i d))
     else shutting_down i (snd (cancel_campaign [] i d)) \<and>
       length (to_cancel i (snd (cancel_campaign [] i d))) = length (to_cancel i d1) - CANCELLATION_BATCH"
proof -
  obtain c where c: "find_campaign d1 i = Some c" "ca_state c = Camp_CANCELLING" using cl by (auto simp: shutting_down_def)
  obtain out d2 where d2: "cancel_attempt_batch i CANCELLATION_BATCH [] d1 = Inr (out, d2)"
    and res: "if length (to_cancel i d1) \<le> CANCELLATION_BATCH then shut_down i d2
     else shutting_down i d2 \<and> length (to_cancel i d2) = length (to_cancel i d1) - CANCELLATION_BATCH"
    using cancel_batch_shutting_down [OF inv cl] by blast
  have call: "snd (cancel_campaign [] i d) =
      (case find_campaign d2 i of None \<Rightarrow> d2 | Some c \<Rightarrow> if ca_state c \<noteq> Camp_CANCELLED then d2
         else snd (tx (unit_tx (campaign_event ''campaign.cancelled'' i None)) d2))"
    using b c d2
    by (simp add: cancel_campaign_def seqA_def tx_def unit_tx_def readA_def okA_def of_option_def split: option.splits)
  show ?thesis
  proof (cases "length (to_cancel i d1) \<le> CANCELLATION_BATCH")
    case True
    then have "shut_down i d2" using res by simp
    then obtain c2 d3 where "find_campaign d2 i = Some c2" "ca_state c2 = Camp_CANCELLED"
      "campaign_event ''campaign.cancelled'' i None d2 = Inr d3" "shut_down i d3"
      using shut_down_event [of i d2] unfolding shut_down_def by blast
    then show ?thesis using True call by (simp add: tx_def unit_tx_def)
  next
    case False
    then have cl2: "shutting_down i d2" and len: "length (to_cancel i d2) = length (to_cancel i d1) - CANCELLATION_BATCH" using res by simp_all
    then obtain c2 where "find_campaign d2 i = Some c2" "ca_state c2 = Camp_CANCELLING" unfolding shutting_down_def by blast
    then have "snd (cancel_campaign [] i d) = d2" using call by simp
    then show ?thesis using False cl2 len by simp
  qed
qed

lemma cancel_repeat_shut_down: "shut_down i d \<Longrightarrow> shut_down i (cancel_repeat k i d)"
  by (induction k arbitrary: d) (simp_all add: cancel_call_shut_down)

lemma cancel_repeat_shutting_down:
  assumes "campaign_inv env d" and "shutting_down i d" and "length (to_cancel i d) \<le> k * CANCELLATION_BATCH" and "0 < k"
  shows "shut_down i (cancel_repeat k i d)"
  using assms
proof (induction k arbitrary: d)
  case (Suc k)
  let ?d = "snd (cancel_campaign [] i d)"
  note res = cancel_call_shutting_down [OF Suc.prems(1) begin_cancellation_again [OF Suc.prems(2)] Suc.prems(2)]
  show ?case
  proof (cases "length (to_cancel i d) \<le> CANCELLATION_BATCH")
    case True
    then have "shut_down i ?d" using res by simp
    then show ?thesis by (simp add: cancel_repeat_shut_down)
  next
    case False
    then have step: "shutting_down i ?d" "length (to_cancel i ?d) = length (to_cancel i d) - CANCELLATION_BATCH" using res by simp_all
    have "(campaign_step env)\<^sup>*\<^sup>* d ?d" using cancel_campaign_acts [of env "[]" i] by (simp add: acts_def)
    then have "campaign_inv env ?d" using campaign_sys.steps_inv Suc.prems(1) by blast
    then have "shut_down i (cancel_repeat k i ?d)"
      by (rule Suc.IH [OF _ step(1)]) (use step(2) Suc.prems(3) False in \<open>cases k; simp\<close>)+
    then show ?thesis by simp
  qed
qed simp


text \<open>A campaign that is shut down has no attempt left to cancel.\<close>

lemma shut_down_open:
  assumes inv: "campaign_inv env d" and cl: "shut_down i d"
  shows "open_attempts i d = []"
proof -
  have "\<not> attempt_cancellable (at_state a)"
    if a: "a \<in> set (kb_attempts d)" and r: "r \<in> set (kb_runs d)" "ru_id r = at_run a" "ru_campaign r = i" for a r
  proof -
    have ok: "ends_ok (kb_attempts d) r" using inv r(1) by (simp add: campaign_inv_def exec_inv_def exec_ok_def)
    have "\<not> run_cancellable r \<and> ru_state r \<noteq> Crun_CANCELLING" using cl r(1,3) unfolding shut_down_def by blast
    then have "ru_state r = Crun_COMPLETED \<or> ru_state r = Crun_CANCELLED"
      using ok by (cases "ru_state r") (simp_all add: run_cancellable_def ends_ok_def)
    then show ?thesis
      using ok a r(2) unfolding ends_ok_def by (auto simp: attempt_over_def attempt_cancellable_def)
  qed
  then show ?thesis unfolding open_attempts_def filter_empty_conv list_ex_iff by blast
qed

section \<open>One attempt for each recipient of a run\<close>

lemma one_attempt:
  assumes st: "struct_inv env d" and a: "a \<in> set (kb_attempts d)" and b: "b \<in> set (kb_attempts d)"
    and eq: "at_run a = at_run b" "at_recipient a = at_recipient b"
  shows "a = b"
proof -
  obtain v r p where x: "v \<in> set (kb_revisions d)" "r \<in> set (kb_runs d)" "p \<in> set (kb_recipients d)" "ru_id r = at_run a"
    "rp_id p = at_recipient a" "cv_id v = ru_revision r"
    "at_logical a = recipient_identity (en_sha env) (en_org env) (ru_campaign r) (cv_number v) (at_run a) (at_recipient a) (rp_channel p)"
    by (rule struct_inv_attempt [OF st a])
  obtain w s q where y: "w \<in> set (kb_revisions d)" "s \<in> set (kb_runs d)" "q \<in> set (kb_recipients d)" "ru_id s = at_run b"
    "rp_id q = at_recipient b" "cv_id w = ru_revision s"
    "at_logical b = recipient_identity (en_sha env) (en_org env) (ru_campaign s) (cv_number w) (at_run b) (at_recipient b) (rp_channel q)"
    by (rule struct_inv_attempt [OF st b])
  have "r = s" by (rule distinct_map_inj [OF struct_inv_D(7) [OF st] x(2) y(2)]) (use x(4) y(4) eq in simp)
  moreover have "p = q" by (rule distinct_map_inj [OF struct_inv_D(6) [OF st] x(3) y(3)]) (use x(5) y(5) eq in simp)
  moreover have "v = w" by (rule distinct_map_inj [OF struct_inv_D(3) [OF st] x(1) y(1)]) (use x(6) y(6) calculation in simp)
  ultimately have "at_logical a = at_logical b" using x(7) y(7) eq by simp
  then show ?thesis by (rule distinct_map_inj [OF struct_inv_D(10) [OF st] a b])
qed

lemma path_final: "moves s = [] \<Longrightarrow> (\<lambda>s t. t \<in> set (moves s))\<^sup>*\<^sup>* s t \<Longrightarrow> t = s"
  by (erule converse_rtranclpE) auto

lemma steps_spent:
  assumes "(campaign_step env)\<^sup>*\<^sup>* d d'" and "campaign_inv env d" and "run_spent i d"
  shows "run_spent i d'"
  using assms
proof (induction rule: rtranclp_induct)
  case (step e e')
  have ie: "campaign_inv env e" using campaign_sys.steps_inv [OF step.hyps(1) step.prems(1)] .
  then have "struct_inv env e" by (simp add: campaign_inv_def)
  then show ?case using campaign_step_evolves [OF step.hyps(2) ie] step.IH [OF step.prems] by (rule run_spent_step)
qed

lemma find_crun_view: "find_crun d i = Some r \<Longrightarrow> (i, ru_campaign r, ru_state r) \<in> set (cruns d)"
  by (drule find_crun_D) (force simp: cruns_def)

lemma find_campaign_view: "find_campaign d i = Some c \<Longrightarrow> (i, ca_state c) \<in> set (camps d)"
  by (drule find_campaign_D) (force simp: camps_def)

lemma find_attempt_view: "find_attempt d i = Some a \<Longrightarrow> (i, at_run a, at_state a) \<in> set (atts d)"
  by (drule find_attempt_D) (force simp: atts_def)

lemma view_find:
  assumes "struct_inv env d"
  shows "(i, s) \<in> set (camps d) \<Longrightarrow> \<exists>c. find_campaign d i = Some c \<and> ca_state c = s"
    and "(i, k, u) \<in> set (cruns d) \<Longrightarrow> \<exists>r. find_crun d i = Some r \<and> ru_campaign r = k \<and> ru_state r = u"
    and "(i, k, t) \<in> set (atts d) \<Longrightarrow> \<exists>a. find_attempt d i = Some a \<and> at_run a = k \<and> at_state a = t"
  using find_id [OF struct_inv_D(1) [OF assms]] find_id [OF struct_inv_D(7) [OF assms]] find_id [OF struct_inv_D(9) [OF assms]]
  by (auto simp: view_defs find_campaign_def find_crun_def find_attempt_def)

end
