(* ===== verification/Campaign_Properties.thy ===== *)
theory Campaign_Properties
  imports Campaign_Behaviour
begin

text \<open>
  The properties of the campaign domain, after a walk through the service that their
  witnesses use: a campaign of one recipient that is prepared, started, claimed, authorized and
  dispatched, and the same campaign with a suppression added before the authorization.
\<close>

section \<open>A walk\<close>

definition cdm_env :: campaign_env where
  "cdm_env = \<lparr>en_org = 1, en_sha = (\<lambda>_. ''digest''), en_draft_digest = (\<lambda>_. ''draft''), en_source_digest = (\<lambda>_. ''source''),
     en_zones = (\<lambda>_. \<lparr>zn_local = (\<lambda>t. t), zn_utc = (\<lambda>t. t)\<rparr>)\<rparr>"

definition cdm_draft :: campaign_draft where
  "cdm_draft = \<lparr>dr_release_version = 50, dr_recipient_version = 51, dr_account = 52, dr_channel = Chan_SMS,
     dr_content = JNull, dr_subject = None, dr_source = Src_EXPLICIT_CUSTOMERS,
     dr_audience = [\<lparr>am_customer = 2, am_identity = 3, am_conversation = 4\<rparr>], dr_source_reference = None,
     dr_quiet = \<lparr>qh_enabled = False, qh_timezone = ''UTC'', qh_start = 0, qh_end = 0\<rparr>,
     dr_throttle = \<lparr>tp_recipients_per_tick = 1, tp_messages_per_minute = 1, tp_campaign_limit = 1, tp_org_per_minute = 1\<rparr>\<rparr>"

definition cdm_init :: campaign_db where
  "cdm_init = \<lparr>kb_campaigns = [], kb_revisions = [], kb_snapshots = [], kb_recipients = [], kb_runs = [], kb_attempts = [],
     kb_permits = [], kb_preferences = [\<lparr>pf_customer = 2, pf_identity = 3, pf_channel = Chan_SMS, pf_consent = True,
       pf_unsubscribed = False, pf_do_not_contact = False, pf_epoch = 1, pf_evidence = Some ''form''\<rparr>],
     kb_epochs = [], kb_suppressions = [], kb_windows = [], kb_org_windows = [], kb_history = [], kb_events = [],
     kb_customers = [\<lparr>cu_id = 2, cu_status = ''ACTIVE''\<rparr>],
     kb_identities = [\<lparr>ci_id = 3, ci_customer = 2, ci_status = ''ACTIVE'', ci_type = ''PHONE'', ci_value = ''+491''\<rparr>],
     kb_conversations = [\<lparr>cn_id = 4, cn_customer = 2, cn_status = ''OPEN'', cn_channel = ''sms''\<rparr>], kb_next = 10\<rparr>"

text \<open>A sequence of transactions, each with the side condition of its step.\<close>

fun cwalk :: "(campaign_db \<Rightarrow> campaign_error + campaign_db) list \<Rightarrow> campaign_db \<Rightarrow> campaign_error + campaign_db" where
  "cwalk [] d = Inr d"
| "cwalk (f # fs) d = bindE (f d) (cwalk fs)"

definition stepping :: "campaign_env \<Rightarrow> (campaign_db \<Rightarrow> campaign_error + campaign_db) \<Rightarrow> bool" where
  "stepping env f \<longleftrightarrow> (\<forall>d d'. f d = Inr d' \<longrightarrow> campaign_step env d d')"

lemma cwalk_steps: "list_all (stepping env) fs \<Longrightarrow> cwalk fs d = Inr d' \<Longrightarrow> (campaign_step env)\<^sup>*\<^sup>* d d'"
proof (induction fs arbitrary: d)
  case (Cons f fs)
  then obtain e where e: "f d = Inr e" "cwalk fs e = Inr d'" by auto
  then have "campaign_step env d e" using Cons.prems(1) by (simp add: stepping_def)
  moreover have "(campaign_step env)\<^sup>*\<^sup>* e d'" using Cons.IH [OF _ e(2)] Cons.prems(1) by simp
  ultimately show ?case by (rule converse_rtranclp_into_rtranclp)
qed simp

definition db_of :: "campaign_error + 'a \<times> campaign_db \<Rightarrow> campaign_error + campaign_db" where
  "db_of x = bindE x (\<lambda>(_, d). Inr d)"

definition at_end :: "(campaign_db \<Rightarrow> campaign_error + campaign_db) list \<Rightarrow> campaign_db" where
  "at_end fs = (case cwalk fs cdm_init of Inr d \<Rightarrow> d | Inl _ \<Rightarrow> cdm_init)"

definition cdm_clock :: permit_clock where
  "cdm_clock = \<lparr>pk_eligibility = 1, pk_throttle = 2, pk_permit = 3\<rparr>"

definition cdm_claim :: "campaign_db \<Rightarrow> recipient_claim" where
  "cdm_claim d = \<lparr>cl_run = hd (kb_runs d), cl_recipient = hd (kb_recipients d), cl_attempt = hd (kb_attempts d),
     cl_owner = 77, cl_token = 16\<rparr>"

text \<open>Up to the claim of the one recipient.\<close>

definition walk_claim :: "(campaign_db \<Rightarrow> campaign_error + campaign_db) list" where
  "walk_claim =
     [\<lambda>d. db_of (create_tx ''spring'' ''Spring'' cdm_draft d),
      \<lambda>d. db_of (preparation_tx cdm_env (\<lambda>_. True) 10 d),
      \<lambda>d. db_of (materialize_batch cdm_env 11 MATERIALIZATION_BATCH (\<lambda>_. 0) d),
      \<lambda>d. if list_ex (\<lambda>w. cv_id w = 11 \<and> cv_campaign w = 10) (kb_revisions d) then db_of (seal_tx 10 11 1 0 d) else Inl Campaign_ValueError,
      \<lambda>d. db_of (started_run_tx 10 ''key'' d),
      begin_run_activation 14,
      \<lambda>d. db_of (materialize_attempt_batch cdm_env 14 MATERIALIZATION_BATCH d),
      \<lambda>d. db_of (claim_tx 14 77 0 [] d)]"

definition walk_ready :: "(campaign_db \<Rightarrow> campaign_error + campaign_db) list" where
  "walk_ready =
     [\<lambda>d. db_of (workflow_started_tx (cdm_claim d) 60 d),
      \<lambda>d. db_of (mark_workflow_completed (cdm_claim d) d)]"

definition walk_authorize :: "(campaign_db \<Rightarrow> campaign_error + campaign_db) list" where
  "walk_authorize =
     [\<lambda>d. if claim_ok d (cdm_claim d) then db_of (authorize_permit cdm_env (cdm_claim d) cdm_clock d) else Inl Campaign_ValueError]"

definition walk_dispatch :: "(campaign_db \<Rightarrow> campaign_error + campaign_db) list" where
  "walk_dispatch = [\<lambda>d. db_of (dispatched_tx (hd (kb_permits d)) (hd (kb_recipients d)) (hd (kb_attempts d)) 70 4 d)]"

definition cdm_suppress :: suppression_request where
  "cdm_suppress = \<lparr>sq_channel = Chan_SMS, sq_scope = Supp_GLOBAL, sq_campaign = None, sq_customer = None, sq_identity = None,
     sq_reason = ''legal''\<rparr>"

definition walk_suppress :: "(campaign_db \<Rightarrow> campaign_error + campaign_db) list" where
  "walk_suppress = [\<lambda>d. db_of (add_suppression cdm_suppress d)]"

definition walk_pause :: "(campaign_db \<Rightarrow> campaign_error + campaign_db) list" where
  "walk_pause = [\<lambda>d. db_of (pause_tx 10 d)]"

lemma db_of_Inr: "db_of x = Inr d \<longleftrightarrow> (\<exists>y. x = Inr (y, d))"
  by (auto simp: db_of_def)

lemma cdm_draft_ok: "draft_ok 0 cdm_draft"
  by (simp add: draft_ok_def cdm_draft_def throttle_ok_def)

lemma cdm_suppress_ok: "suppression_request_ok cdm_suppress"
  by code_simp

lemma stepping_tx: "(\<And>d y d'. body d = Inr (y, d') \<Longrightarrow> campaign_step env d d') \<Longrightarrow> stepping env (\<lambda>d. db_of (body d))"
  by (auto simp: stepping_def db_of_Inr)

lemma stepping_guard:
  "(\<And>d y d'. b d \<Longrightarrow> body d = Inr (y, d') \<Longrightarrow> campaign_step env d d') \<Longrightarrow>
     stepping env (\<lambda>d. if b d then db_of (body d) else Inl e)"
  by (auto simp: stepping_def db_of_Inr split: if_splits)

lemma walk_claim_stepping [simp]: "list_all (stepping cdm_env) walk_claim"
  unfolding walk_claim_def list.pred_inject(2)
proof (intro conjI list.pred_inject(1))
  show "stepping cdm_env (\<lambda>d. if list_ex (\<lambda>w. cv_id w = 11 \<and> cv_campaign w = 10) (kb_revisions d) then db_of (seal_tx 10 11 1 0 d) else Inl Campaign_ValueError)"
    by (rule stepping_guard, rule campaign_step.step_seal) (auto simp: list_ex_iff)
  show "stepping cdm_env (begin_run_activation 14)" by (simp add: stepping_def campaign_step.step_activate)
qed (rule stepping_tx, erule campaign_step.step_create [OF cdm_draft_ok] campaign_step.step_prepare campaign_step.step_audience
    campaign_step.step_started_run campaign_step.step_attempts campaign_step.step_claim)+

lemma walk_ready_stepping [simp]: "list_all (stepping cdm_env) walk_ready"
  unfolding walk_ready_def list.pred_inject(2)
  by (intro conjI list.pred_inject(1)) (rule stepping_tx, erule campaign_step.step_workflow_started campaign_step.step_workflow_completed)+

lemma walk_authorize_stepping [simp]: "list_all (stepping cdm_env) walk_authorize"
  unfolding walk_authorize_def list.pred_inject(2)
  by (intro conjI list.pred_inject(1)) (rule stepping_guard, erule (1) campaign_step.step_authorize)

lemma walk_dispatch_stepping [simp]: "list_all (stepping cdm_env) walk_dispatch"
  unfolding walk_dispatch_def list.pred_inject(2) by (intro conjI list.pred_inject(1)) (rule stepping_tx, erule campaign_step.step_dispatched)

lemma walk_suppress_stepping [simp]: "list_all (stepping cdm_env) walk_suppress"
  unfolding walk_suppress_def list.pred_inject(2)
  by (intro conjI list.pred_inject(1)) (rule stepping_tx, erule campaign_step.step_suppression [OF cdm_suppress_ok])

lemma walk_pause_stepping [simp]: "list_all (stepping cdm_env) walk_pause"
  unfolding walk_pause_def list.pred_inject(2) by (intro conjI list.pred_inject(1)) (rule stepping_tx, erule campaign_step.step_pause)

lemma at_end_reachable:
  assumes "list_all (stepping cdm_env) fs"
  shows "campaign_reachable cdm_env (at_end fs)"
proof -
  have "campaign_init cdm_init" by (simp add: campaign_init_def cdm_init_def)
  then show ?thesis
    using cwalk_steps [OF assms] unfolding at_end_def campaign_reachable_def by (auto split: sum.splits)
qed

lemma cwalk_append: "cwalk (fs @ gs) d = bindE (cwalk fs d) (cwalk gs)"
proof (induction fs arbitrary: d)
  case (Cons f fs)
  then show ?case by (cases "f d") simp_all
qed simp

definition cdm_claimed :: campaign_db where "cdm_claimed = at_end walk_claim"
definition cdm_ready :: campaign_db where "cdm_ready = at_end (walk_claim @ walk_ready)"
definition cdm_sent :: campaign_db where "cdm_sent = at_end (walk_claim @ walk_ready @ walk_authorize @ walk_dispatch)"
definition cdm_denied :: campaign_db where "cdm_denied = at_end (walk_claim @ walk_ready @ walk_suppress @ walk_authorize)"

lemma cdm_reachable:
  "campaign_reachable cdm_env cdm_claimed" "campaign_reachable cdm_env cdm_ready" "campaign_reachable cdm_env cdm_sent"
  "campaign_reachable cdm_env cdm_denied"
  unfolding cdm_claimed_def cdm_ready_def cdm_sent_def cdm_denied_def by (rule at_end_reachable, simp)+

section \<open>What a permit certifies\<close>

text \<open>
  C35: A send permit is handed out only while the run and its campaign are running, for an
  attempt that is ready to send and held by the claim, to a recipient that may be contacted
  outside quiet hours and within the limit of the campaign. It is new, the only permit of its
  attempt, and carries the attempt's idempotency key and the current suppression epoch.
\<close>

theorem send_permit_sound:
  assumes "campaign_reachable env d" and "authorize_permit env c clock d = Inr (Inl p, d')"
  shows "\<exists>run campaign a recipient v.
    find_crun d (ru_id (cl_run c)) = Some run \<and> ru_state run = Crun_RUNNING \<and>
    find_campaign d (ru_campaign run) = Some campaign \<and> ca_state campaign = Camp_RUNNING \<and>
    a \<in> set (kb_attempts d) \<and> at_id a = at_id (cl_attempt c) \<and> at_state a = Att_READY_TO_SEND \<and>
    at_owner a = Some (cl_owner c) \<and> at_token a = Some (cl_token c) \<and>
    find_recipient d (at_recipient a) = Some recipient \<and> contactable d (ca_id campaign) recipient \<and>
    find_revision d (ru_revision run) = Some v \<and>
    quiet_hours_next (en_zones env) (pk_eligibility clock) (dr_quiet (cv_spec v)) = None \<and>
    ru_authorized run < tp_campaign_limit (dr_throttle (cv_spec v)) \<and>
    pm_attempt p = at_id a \<and> pm_state p = Perm_AUTHORIZED \<and> pm_p09 p = at_p09 a \<and>
    pm_suppression_epoch p = fst (policy_epoch (rp_channel recipient) d) \<and>
    kb_permits d' = kb_permits d @ [p] \<and> (\<forall>q \<in> set (kb_permits d). pm_attempt q \<noteq> pm_attempt p \<and> pm_id q \<noteq> pm_id p)"
proof -
  have inv: "campaign_inv env d" using assms(1) by (rule campaign_reachable_inv)
  obtain run campaign a recipient v consent epoch dest d1 d2 where h:
    "find_crun d (ru_id (cl_run c)) = Some run" "ru_state run = Crun_RUNNING"
    "find_campaign d (ru_campaign run) = Some campaign" "ca_state campaign = Camp_RUNNING"
    "owned_attempt c Att_READY_TO_SEND d = Inr a" "find_recipient d (at_recipient a) = Some recipient"
    "find_revision d (ru_revision run) = Some v"
    and el: "eligibility env (pk_eligibility clock) (ca_id campaign) (rp_customer recipient) (rp_identity recipient)
       (rp_conversation recipient) (rp_channel recipient) (dr_quiet (cv_spec v)) d = ((El_ELIGIBLE, None, consent, epoch, dest), d1)"
    and res: "reserve_throttle run (rp_channel recipient) (dr_throttle (cv_spec v)) (pk_throttle clock) d1 = Inr d2"
    and grant: "grant_send (ru_id run) a (pk_permit clock) consent epoch d2 = Inr (p, d')" "kb_permits d2 = kb_permits d" "kb_next d2 = kb_next d"
    by (rule authorize_permit_granted [OF inv assms(2)])
  note a = owned_attempt_D [OF h(5)] and p = grant_send_permit [OF grant(1)]
  have "\<not> sending a" using a(3) by (simp add: sending_def)
  then have "pm_attempt q \<noteq> pm_attempt p \<and> pm_id q \<noteq> pm_id p" if "q \<in> set (kb_permits d)" for q
    using no_permit [OF inv a(1) _ that] inv that p(2,5) grant(3)
    by (auto simp: campaign_inv_def exec_inv_def exec_ok_def permits_ok_def)
  moreover have "epoch = fst (policy_epoch (rp_channel recipient) d)"
    using el unfolding eligibility_def Let_def split_beta by (auto split: if_splits option.splits)
  ultimately show ?thesis
    using h a p grant(2) eligibility_sound [OF el] reserve_throttle_limit [OF res]
    by (intro exI [of _ run] exI [of _ campaign] exI [of _ a] exI [of _ recipient] exI [of _ v]) simp
qed

lemma cdm_ready_permit:
  "case authorize_permit cdm_env (cdm_claim cdm_ready) cdm_clock cdm_ready of Inr (Inl p, d') \<Rightarrow> True | _ \<Rightarrow> False"
  by code_simp

theorem send_permit_sound_witness:
  "\<exists>p d' recipient. authorize_permit cdm_env (cdm_claim cdm_ready) cdm_clock cdm_ready = Inr (Inl p, d') \<and>
     recipient \<in> set (kb_recipients cdm_ready) \<and> contactable cdm_ready 10 recipient \<and> kb_permits d' = kb_permits cdm_ready @ [p]"
proof -
  obtain p d' where p: "authorize_permit cdm_env (cdm_claim cdm_ready) cdm_clock cdm_ready = Inr (Inl p, d')"
    using cdm_ready_permit by (auto split: sum.splits)
  have one: "map ru_campaign (kb_runs cdm_ready) = [10]" by code_simp
  obtain run campaign recipient where r: "find_crun cdm_ready (ru_id (cl_run (cdm_claim cdm_ready))) = Some run"
    "find_campaign cdm_ready (ru_campaign run) = Some campaign" "recipient \<in> set (kb_recipients cdm_ready)"
    "contactable cdm_ready (ca_id campaign) recipient" "kb_permits d' = kb_permits cdm_ready @ [p]"
    using send_permit_sound [OF cdm_reachable(2) p] by (auto dest: find_recipient_D)
  have "ru_campaign run = 10" using find_crun_D [OF r(1)] one by auto
  then show ?thesis using p r find_campaign_D [OF r(2)] by auto
qed


section \<open>Budgets\<close>

text \<open>
  C36: In every reachable state the permits of a run's attempts are exactly its authorized
  count and never exceed the limit of its revision; its dispatched count is the number of consumed
  permits. Its throttle windows add up to that count, none is over the limit for a minute, and no
  window of the organization is over a million.
\<close>

theorem run_budgets:
  assumes "campaign_reachable env d" and "find_crun d i = Some r" and "find_revision d (ru_revision r) = Some v"
  shows "int (length (run_permits i d)) = ru_authorized r \<and>
    int (length (run_permits i d)) \<le> tp_campaign_limit (dr_throttle (cv_spec v)) \<and>
    int (length (filter (\<lambda>p. pm_state p = Perm_CONSUMED) (run_permits i d))) = ru_dispatched r \<and>
    window_sum i (kb_windows d) = ru_authorized r \<and>
    (\<forall>w \<in> set (kb_windows d). tw_run w = i \<longrightarrow> tw_count w \<le> tp_messages_per_minute (dr_throttle (cv_spec v))) \<and>
    (\<forall>w \<in> set (kb_org_windows d). ow_count w \<le> 1000000)"
proof -
  have inv: "campaign_inv env d" using assms(1) by (rule campaign_reachable_inv)
  then have w: "windows_ok (kb_windows d) (kb_org_windows d) (kb_runs d) (kb_revisions d)"
    by (simp add: campaign_inv_def exec_inv_def exec_ok_def)
  have r: "r \<in> set (kb_runs d)" "ru_id r = i" using find_crun_D [OF assms(2)] by auto
  have v: "v \<in> set (kb_revisions d)" "cv_id v = ru_revision r" using find_revision_D [OF assms(3)] by auto
  have "window_sum (ru_id r) (kb_windows d) = ru_authorized r \<and> ru_authorized r \<le> tp_campaign_limit (dr_throttle (cv_spec v)) \<and>
      (\<forall>w \<in> set (kb_windows d). tw_run w = ru_id r \<longrightarrow> tw_count w \<le> tp_messages_per_minute (dr_throttle (cv_spec v)))"
    using w r(1) v unfolding windows_ok_def by blast
  moreover have "\<forall>w \<in> set (kb_org_windows d). ow_count w \<le> 1000000" using w unfolding windows_ok_def by blast
  ultimately show ?thesis using run_permit_counts [OF inv assms(2)] r(2) by simp
qed

lemma cdm_sent_run:
  "case (find_crun cdm_sent 14, find_revision cdm_sent 11) of
     (Some r, Some v) \<Rightarrow> ru_revision r = 11 \<and> ru_dispatched r = 1 \<and> tp_campaign_limit (dr_throttle (cv_spec v)) = 1 | _ \<Rightarrow> False"
  by code_simp

theorem run_budgets_witness:
  "int (length (run_permits 14 cdm_sent)) \<le> 1 \<and>
   length (filter (\<lambda>p. pm_state p = Perm_CONSUMED) (run_permits 14 cdm_sent)) = 1 \<and> window_sum 14 (kb_windows cdm_sent) \<le> 1"
proof -
  obtain r v where r: "find_crun cdm_sent 14 = Some r" "find_revision cdm_sent 11 = Some v" "ru_revision r = 11" "ru_dispatched r = 1"
    "tp_campaign_limit (dr_throttle (cv_spec v)) = 1"
    using cdm_sent_run by (auto split: option.splits)
  show ?thesis using run_budgets [OF cdm_reachable(3) r(1), of v] r by simp
qed

section \<open>Cancellation\<close>

text \<open>
  C37: Cancelling ends. For a campaign that may be cancelled and whose runs have at most
  100 times k attempts left to cancel, k calls of the cancellation endpoint, with no attempt locked
  by another transaction, leave the campaign cancelled and no attempt of its runs that could
  still be claimed or sent.
\<close>

theorem cancel_terminates:
  assumes "campaign_reachable env d" and "find_campaign d i = Some c"
    and "ca_state c = Camp_CANCELLING \<or> Camp_CANCELLING \<in> set (campaign_moves (ca_state c))"
    and "length (open_attempts i d) \<le> k * CANCELLATION_BATCH" and "0 < k"
  shows "(\<exists>c'. find_campaign (cancel_repeat k i d) i = Some c' \<and> ca_state c' = Camp_CANCELLED) \<and> open_attempts i (cancel_repeat k i d) = []"
proof -
  obtain m where k: "k = Suc m" using assms(5) by (cases k) auto
  let ?d = "snd (cancel_campaign [] i d)" and ?e = "cancel_repeat k i d"
  have inv: "campaign_inv env d" using assms(1) by (rule campaign_reachable_inv)
  have acts: "campaign_inv env (snd (cancel_campaign [] i x))" if "campaign_inv env x" for x
    using cancel_campaign_acts [of env "[]" i] campaign_sys.steps_inv that by (auto simp: acts_def)
  obtain d1 where d1: "begin_cancellation i d = Inr d1" "shutting_down i d1" "length (to_cancel i d1) \<le> length (open_attempts i d)"
    using begin_cancellation_shutting_down [OF assms(2,3)] by blast
  have i1: "campaign_inv env d1" by (rule same_core_inv [OF inv begin_cancellation_core [OF d1(1)]])
  note res = cancel_call_shutting_down [OF i1 d1(1,2)]
  have down: "shut_down i ?e"
  proof (cases "length (to_cancel i d1) \<le> CANCELLATION_BATCH")
    case True
    then show ?thesis using res by (simp add: k cancel_repeat_shut_down)
  next
    case False
    then have "shutting_down i ?d" "length (to_cancel i ?d) = length (to_cancel i d1) - CANCELLATION_BATCH" using res by simp_all
    then show ?thesis using cancel_repeat_shutting_down [OF acts [OF inv], of i m] d1(3) assms(4) False by (cases m) (simp_all add: k)
  qed
  have "campaign_inv env (cancel_repeat n i x)" if "campaign_inv env x" for n x
    using that by (induction n arbitrary: x) (simp_all add: acts)
  then have "open_attempts i ?e = []" using shut_down_open inv down by blast
  then show ?thesis using down by (simp add: shut_down_def)
qed

lemma cdm_claimed_open:
  "length (open_attempts 10 cdm_claimed) = 1 \<and>
   (case find_campaign cdm_claimed 10 of Some c \<Rightarrow> ca_state c = Camp_RUNNING | None \<Rightarrow> False)"
  by code_simp

theorem cancel_terminates_witness:
  "length (open_attempts 10 cdm_claimed) = 1 \<and> open_attempts 10 (cancel_repeat 1 10 cdm_claimed) = [] \<and>
   (\<exists>c. find_campaign (cancel_repeat 1 10 cdm_claimed) 10 = Some c \<and> ca_state c = Camp_CANCELLED)"
proof -
  obtain c where "find_campaign cdm_claimed 10 = Some c" "ca_state c = Camp_RUNNING"
    using cdm_claimed_open by (auto split: option.splits)
  then show ?thesis using cancel_terminates [OF cdm_reachable(1), of 10 c 1] cdm_claimed_open by simp
qed

section \<open>Lifecycles\<close>

text \<open>
  C38: Over any sequence of service transactions from a reachable state, campaigns, runs and
  attempts stay, keep the campaign or run they belong to, and change their state only along their
  state machines; in particular a campaign, run or attempt that has ended keeps its end state.
\<close>

theorem campaign_lifecycles:
  assumes "campaign_reachable env d" and "(campaign_step env)\<^sup>*\<^sup>* d d'"
  shows "(find_campaign d i = Some c \<longrightarrow> (\<exists>c'. find_campaign d' i = Some c' \<and> campaign_path (ca_state c) (ca_state c') \<and>
      (campaign_moves (ca_state c) = [] \<longrightarrow> ca_state c' = ca_state c))) \<and>
    (find_crun d i = Some r \<longrightarrow> (\<exists>r'. find_crun d' i = Some r' \<and> ru_campaign r' = ru_campaign r \<and> crun_path (ru_state r) (ru_state r') \<and>
      (crun_moves (ru_state r) = [] \<longrightarrow> ru_state r' = ru_state r))) \<and>
    (find_attempt d i = Some a \<longrightarrow> (\<exists>a'. find_attempt d' i = Some a' \<and> at_run a' = at_run a \<and> attempt_path (at_state a) (at_state a') \<and>
      (attempt_over (at_state a) \<longrightarrow> at_state a' = at_state a)))"
proof -
  have inv: "campaign_inv env d" using assms(1) by (rule campaign_reachable_inv)
  have st: "struct_inv env d'" using campaign_sys.steps_inv [OF assms(2) inv] by (simp add: campaign_inv_def)
  note fol = steps_follow [OF assms(2) inv]
  have "\<exists>c'. find_campaign d' i = Some c' \<and> campaign_path (ca_state c) (ca_state c') \<and>
      (campaign_moves (ca_state c) = [] \<longrightarrow> ca_state c' = ca_state c)" if "find_campaign d i = Some c"
    using path_final [of campaign_moves] fol(1) [OF find_campaign_view [OF that]] view_find(1) [OF st] by metis
  moreover have "\<exists>r'. find_crun d' i = Some r' \<and> ru_campaign r' = ru_campaign r \<and> crun_path (ru_state r) (ru_state r') \<and>
      (crun_moves (ru_state r) = [] \<longrightarrow> ru_state r' = ru_state r)"
    if "find_crun d i = Some r"
    using path_final [of crun_moves] fol(2) [OF find_crun_view [OF that]] view_find(2) [OF st] by metis
  moreover have "\<exists>a'. find_attempt d' i = Some a' \<and> at_run a' = at_run a \<and> attempt_path (at_state a) (at_state a') \<and>
      (attempt_over (at_state a) \<longrightarrow> at_state a' = at_state a)"
    if "find_attempt d i = Some a"
  proof -
    have "attempt_over (at_state a) \<longleftrightarrow> attempt_moves (at_state a) = []" by (cases "at_state a") (simp_all add: attempt_over_def)
    then show ?thesis
      using path_final [of attempt_moves] fol(3) [OF find_attempt_view [OF that]] view_find(3) [OF st] by metis
  qed
  ultimately show ?thesis by blast
qed

lemma steps_between:
  assumes ok: "\<not> isl (cwalk (fs @ gs) cdm_init)" and gs: "list_all (stepping cdm_env) gs"
  shows "(campaign_step cdm_env)\<^sup>*\<^sup>* (at_end fs) (at_end (fs @ gs))"
proof -
  obtain d where d: "cwalk fs cdm_init = Inr d" using ok unfolding cwalk_append by (cases "cwalk fs cdm_init") auto
  obtain e where e: "cwalk gs d = Inr e" using ok d unfolding cwalk_append by (cases "cwalk gs d") auto
  show ?thesis using cwalk_steps [OF gs e] by (simp add: at_end_def cwalk_append d e)
qed

lemma cdm_sent_from_ready: "(campaign_step cdm_env)\<^sup>*\<^sup>* cdm_ready cdm_sent"
proof -
  have "\<not> isl (cwalk (walk_claim @ walk_ready @ walk_authorize @ walk_dispatch) cdm_init)" by code_simp
  then show ?thesis
    using steps_between [of "walk_claim @ walk_ready" "walk_authorize @ walk_dispatch"] by (simp add: cdm_ready_def cdm_sent_def)
qed

lemma cdm_ready_rows:
  "case (find_campaign cdm_ready 10, find_attempt cdm_ready 15) of
     (Some c, Some a) \<Rightarrow> ca_state c = Camp_RUNNING \<and> at_state a = Att_READY_TO_SEND \<and> at_run a = 14 | _ \<Rightarrow> False"
  by code_simp

theorem campaign_lifecycles_witness:
  "(\<exists>c. find_campaign cdm_sent 10 = Some c \<and> campaign_path Camp_RUNNING (ca_state c)) \<and>
   (\<exists>a. find_attempt cdm_sent 15 = Some a \<and> at_run a = 14 \<and> attempt_path Att_READY_TO_SEND (at_state a))"
proof -
  obtain c a where c: "find_campaign cdm_ready 10 = Some c" "ca_state c = Camp_RUNNING"
    and a: "find_attempt cdm_ready 15 = Some a" "at_state a = Att_READY_TO_SEND" "at_run a = 14"
    using cdm_ready_rows by (auto split: option.splits)
  note follow = campaign_lifecycles [OF cdm_reachable(2) cdm_sent_from_ready]
  show ?thesis
    using follow [where i = 10 and c = c, THEN conjunct1, THEN mp, OF c(1)]
      follow [where i = 15 and a = a, THEN conjunct2, THEN conjunct2, THEN mp, OF a(1)] c(2) a(2,3)
    by auto
qed


section \<open>Completion\<close>

text \<open>
  C39: Only a dispatch completes a run. A run that is running and has no attempt left, because
  the last one was suppressed at its final authorization or because no recipient was eligible at
  all, is not completed in any later state.
\<close>

theorem exhausted_run_never_completes:
  assumes "campaign_reachable env d" and "find_crun d i = Some r" and "ru_state r = Crun_RUNNING" and "run_remaining i d = 0"
    and "(campaign_step env)\<^sup>*\<^sup>* d d'"
  shows "\<exists>r'. find_crun d' i = Some r' \<and> ru_state r' \<noteq> Crun_COMPLETED"
proof -
  have inv: "campaign_inv env d" using assms(1) by (rule campaign_reachable_inv)
  have st: "struct_inv env d" using inv by (simp add: campaign_inv_def)
  have r: "(i, ru_campaign r, Crun_RUNNING) \<in> set (cruns d)" using find_crun_view [OF assms(2)] assms(3) by simp
  have "run_spent i d"
    unfolding run_spent_def
  proof (intro conjI allI impI)
    show "i \<in> fst ` set (cruns d)" using r by force
    fix c s assume "(i, c, s) \<in> set (cruns d)"
    then have "s = Crun_RUNNING" using distinct_map_inj [OF view_ids(2) [OF st] r] by force
    then show "s \<noteq> Crun_PENDING_RELEASE" "s \<noteq> Crun_MATERIALIZING" "s \<noteq> Crun_COMPLETED" by simp_all
  next
    fix k s assume "(k, i, s) \<in> set (atts d)"
    then show "attempt_over s" using assms(4) by (auto simp: atts_def run_remaining_def filter_empty_conv)
  qed
  then have spent: "run_spent i d'" by (rule steps_spent [OF assms(5) inv])
  have st': "struct_inv env d'" using campaign_sys.steps_inv [OF assms(5) inv] by (simp add: campaign_inv_def)
  obtain c s where "(i, c, s) \<in> set (cruns d')" "s \<noteq> Crun_COMPLETED" using spent unfolding run_spent_def by force
  then show ?thesis using view_find(2) [OF st'] by blast
qed

lemma cdm_denied_run:
  "case find_crun cdm_denied 14 of Some r \<Rightarrow> ru_state r = Crun_RUNNING \<and> run_remaining 14 cdm_denied = 0 \<and> ru_suppressed r = 1 | None \<Rightarrow> False"
  by code_simp

lemma cdm_denied_pause: "(campaign_step cdm_env)\<^sup>*\<^sup>* cdm_denied (at_end (walk_claim @ walk_ready @ walk_suppress @ walk_authorize @ walk_pause))"
proof -
  have ok: "\<not> isl (cwalk (walk_claim @ walk_ready @ walk_suppress @ walk_authorize @ walk_pause) cdm_init)" by code_simp
  then show ?thesis
    using steps_between [of "walk_claim @ walk_ready @ walk_suppress @ walk_authorize" walk_pause] by (simp add: cdm_denied_def)
qed

theorem exhausted_run_never_completes_witness:
  "run_remaining 14 cdm_denied = 0 \<and>
   (\<exists>r'. find_crun (at_end (walk_claim @ walk_ready @ walk_suppress @ walk_authorize @ walk_pause)) 14 = Some r' \<and>
      ru_state r' \<noteq> Crun_COMPLETED)"
proof -
  obtain r where "find_crun cdm_denied 14 = Some r" "ru_state r = Crun_RUNNING" "run_remaining 14 cdm_denied = 0"
    using cdm_denied_run by (auto split: option.splits)
  then show ?thesis using exhausted_run_never_completes [OF cdm_reachable(4) _ _ _ cdm_denied_pause] by blast
qed

section \<open>The tables\<close>

text \<open>
  C40: In every reachable state ids are unique, a run belongs to a revision of its campaign, an
  attempt to a run and a recipient of that run's snapshot, and a recipient has at most one attempt
  in a run. A permit belongs to an attempt, whose key it carries and whose state and message
  match its own, and an attempt has at most one permit.
\<close>

theorem campaign_tables_well_formed:
  assumes "campaign_reachable env d"
  shows "distinct (map ca_id (kb_campaigns d)) \<and> distinct (map ru_id (kb_runs d)) \<and> distinct (map rp_id (kb_recipients d)) \<and>
    distinct (map at_id (kb_attempts d)) \<and> distinct (map pm_id (kb_permits d)) \<and> distinct (map pm_attempt (kb_permits d)) \<and>
    (\<forall>r \<in> set (kb_runs d). \<exists>v \<in> set (kb_revisions d). cv_id v = ru_revision r \<and> cv_campaign v = ru_campaign r) \<and>
    (\<forall>a \<in> set (kb_attempts d). \<exists>r \<in> set (kb_runs d). \<exists>p \<in> set (kb_recipients d).
       ru_id r = at_run a \<and> rp_id p = at_recipient a \<and> rp_snapshot p = ru_snapshot r) \<and>
    (\<forall>a \<in> set (kb_attempts d). \<forall>b \<in> set (kb_attempts d). at_run a = at_run b \<and> at_recipient a = at_recipient b \<longrightarrow> a = b) \<and>
    (\<forall>p \<in> set (kb_permits d). \<exists>a \<in> set (kb_attempts d). at_id a = pm_attempt p \<and> pm_p09 p = at_p09 a \<and> permit_matches p a)"
proof -
  have inv: "campaign_inv env d" using assms by (rule campaign_reachable_inv)
  have st: "struct_inv env d" and ok: "permits_ok (kb_permits d) (kb_attempts d) (kb_next d)"
    using inv by (auto simp: campaign_inv_def exec_inv_def exec_ok_def)
  have "\<exists>r \<in> set (kb_runs d). \<exists>p \<in> set (kb_recipients d). ru_id r = at_run a \<and> rp_id p = at_recipient a \<and> rp_snapshot p = ru_snapshot r"
    if "a \<in> set (kb_attempts d)" for a
    by (rule struct_inv_attempt [OF st that]) blast
  then show ?thesis
    using ok struct_inv_D(1,6,7,9) [OF st] struct_inv_run(1) [OF st] one_attempt [OF st] unfolding permits_ok_def by blast
qed

lemma cdm_sent_permits: "length (kb_permits cdm_sent) = 1"
  by code_simp

theorem campaign_tables_well_formed_witness:
  "\<exists>p a. p \<in> set (kb_permits cdm_sent) \<and> a \<in> set (kb_attempts cdm_sent) \<and> at_id a = pm_attempt p \<and> permit_matches p a"
proof -
  obtain p where "p \<in> set (kb_permits cdm_sent)" using cdm_sent_permits by (cases "kb_permits cdm_sent") auto
  then show ?thesis using campaign_tables_well_formed [OF cdm_reachable(3)] by blast
qed

end
