(* ===== verification/Spec2Isabelle.thy ===== *)
theory Spec2Isabelle
  imports Workflow_Service Otp_Properties Event_Relay Event_Consumer Campaign_Properties
begin

text \<open>
  Verification development for the Nexus AI backend.
\<close>

end
